(* ===== verification/Net_Prelude.thy ===== *)
theory Net_Prelude
  imports Main "HOL-Library.Word" "HOL-Library.Multiset" "HOL-Library.Monad_Syntax"
begin

text \<open>
  Shared vocabulary of the development: bytes and C strings, pointers, machine integers, the
  outcome of a C function that may exit, block or hit undefined behaviour, and the generic lemmas
  on lists and words that several components use.  A function whose only abnormal end is undefined
  behaviour or divergence returns an option (\<open>None\<close> is "does not return normally") and is written
  with the do-notation of \<^theory_text>\<open>HOL-Library.Monad_Syntax\<close>.
\<close>

unbundle bit_operations_syntax

named_theorems io_intros "how the properties of actions follow from those of their parts"

type_synonym byte = "8 word"
type_synonym u32 = "32 word"
type_synonym u64 = "64 word"
type_synonym addr = nat
type_synonym ptr = "addr option"

abbreviation NULL :: ptr where "NULL \<equiv> None"

text \<open>Limits of the C integer types of the platform (LP64).\<close>

definition INT_MAX :: int where "INT_MAX = 2 ^ 31 - 1"

definition in_int :: "int \<Rightarrow> bool" where
  "in_int x \<longleftrightarrow> - (2 ^ 31) \<le> x \<and> x \<le> INT_MAX"

definition LONG_MAX :: u64 where "LONG_MAX = 2 ^ 63 - 1"

text \<open>A literal of the source as the bytes before its terminating NUL.\<close>

definition bytes :: "string \<Rightarrow> byte list" where
  "bytes s = map of_char s"

lemma bytes_Nil: "bytes [] = []"
  by (simp add: bytes_def)

lemma bytes_Cons: "bytes (c # s) = of_char c # bytes s"
  by (simp add: bytes_def)

lemma unat_pow2: "k < 64 \<Longrightarrow> unat ((2::u64) ^ k) = 2 ^ k"
proof -
  assume "k < 64"
  then have "(2::nat) ^ k < 2 ^ 64" by (rule power_strict_increasing) simp
  moreover have "(2::u64) ^ k = of_nat (2 ^ k)" by simp
  ultimately show ?thesis by (simp only: unat_of_nat) simp
qed

subsection \<open>Outcomes of code that may exit or fault\<close>

datatype fault =
    NullDeref
  | OutOfBounds
  | AssertFailed
  | IntOverflow
  | Uninitialised

datatype 'a outcome =
    Ret 'a
  | Exit int
  | Blocked
  | Fault fault

subsection \<open>Lists\<close>

lemma find_append:
  "List.find P (xs @ ys) = (case List.find P xs of None \<Rightarrow> List.find P ys | Some x \<Rightarrow> Some x)"
  by (induction xs) auto

lemma find_None_append [simp]:
  "List.find P (xs @ ys) = None \<longleftrightarrow> List.find P xs = None \<and> List.find P ys = None"
  by (auto simp: find_None_iff)

lemma in_concat_nth: "a \<in> set (concat bs) \<longleftrightarrow> (\<exists>i < length bs. a \<in> set (bs ! i))"
  by simp (metis in_set_conv_nth)

lemma concat_update_Cons_perm:
  assumes "i < length bs"
  shows "mset (concat (bs[i := a # (bs ! i)])) = add_mset a (mset (concat bs))"
  using assms
proof (induction bs arbitrary: i)
  case (Cons b bs)
  then show ?case by (cases i) auto
qed simp

lemma length_concat_update:
  assumes "i < length bs"
  shows "length (concat (bs[i := ys])) + length (bs ! i) = length (concat bs) + length ys"
  using assms
proof (induction bs arbitrary: i)
  case (Cons b bs)
  then show ?case by (cases i) auto
qed simp

lemma concat_replicate_Nil [simp]: "concat (replicate n []) = []"
  by (induction n) auto

lemma length_le_if_distinct_below:
  assumes "distinct xs" and "\<forall>x \<in> set xs. x < (n::nat)"
  shows "length xs \<le> n"
proof -
  have "card (set xs) \<le> card {..<n}"
    by (rule card_mono) (use assms(2) in auto)
  then show ?thesis using assms(1) by (simp add: distinct_card)
qed

subsection \<open>Counting the threads in a state\<close>

definition cnt :: "('s \<Rightarrow> bool) \<Rightarrow> (nat \<Rightarrow> 's) \<Rightarrow> int" where
  "cnt P f = int (card {t. P (f t)})"

lemma cnt_nonneg [simp]: "0 \<le> cnt P f"
  by (simp add: cnt_def)

lemma finite_update:
  "finite {t. (f(u := v)) t \<noteq> idle} \<longleftrightarrow> finite {t. f t \<noteq> idle}"
proof -
  have "{t. (f(u := v)) t \<noteq> idle} \<subseteq> insert u {t. f t \<noteq> idle}"
    and "{t. f t \<noteq> idle} \<subseteq> insert u {t. (f(u := v)) t \<noteq> idle}" by auto
  then show ?thesis by (meson finite.insertI finite_subset)
qed

lemma cnt_update:
  assumes "finite {t. f t \<noteq> idle}" and "\<not> P idle"
  shows "cnt P (f(u := v)) = cnt P f + of_bool (P v) - of_bool (P (f u))"
proof -
  have "{t. P (f t)} \<subseteq> {t. f t \<noteq> idle}" using assms(2) by auto
  then have fin: "finite {t. P (f t)}" using assms(1) finite_subset by blast
  have eq: "{t. P ((f(u := v)) t)} = (if P v then insert u else id) ({t. P (f t)} - {u})" by auto
  have "Suc 0 \<le> card {t. P (f t)}" if "P (f u)"
    using fin that by (auto simp: Suc_le_eq card_gt_0_iff)
  then show ?thesis unfolding cnt_def eq using fin
    by (auto simp: card_Diff_singleton card_insert_if of_nat_diff)
qed

lemma cnt_pos_iff:
  assumes "finite {t. f t \<noteq> idle}" and "\<not> P idle"
  shows "0 < cnt P f \<longleftrightarrow> (\<exists>t. P (f t))"
proof -
  have "{t. P (f t)} \<subseteq> {t. f t \<noteq> idle}" using assms(2) by auto
  then have "finite {t. P (f t)}" using assms(1) finite_subset by blast
  then show ?thesis by (auto simp: cnt_def card_gt_0_iff)
qed

end
