(* ===== verification/Dict.thy ===== *)
theory Dict
  imports Net_Prelude
begin

text \<open>
  The chained hash table of \<^verbatim>\<open>lib/dict.c\<close> and \<^verbatim>\<open>lib/dict.h\<close>, on an explicit heap.  Entries
  are cells of a store indexed by address, so that the pointer updates of insertion, deletion and
  rehashing are the ones of the code; keys and values are pointers, and the C strings they may
  point to are a second store.  Every operation returns \<open>None\<close> when the C function would hit
  undefined behaviour (a null, dangling or out-of-range access, a failed \<open>assert\<close>) or not return.
\<close>

subsection \<open>Data: \<open>dictEntry\<close>, \<open>dictht\<close>, \<open>dict\<close> and the memory\<close>

definition DICT_OK :: int where "DICT_OK = 1"
definition DICT_ERR :: int where "DICT_ERR = 0"
definition DICT_HT_INITIAL_SIZE :: u64 where "DICT_HT_INITIAL_SIZE = 4"

record dictEntry =
  de_key :: ptr
  de_val :: ptr
  de_next :: ptr

text \<open>The bucket array \<open>table\<close> is \<open>None\<close> for a null pointer.\<close>

record dictht =
  ht_table :: "ptr list option"
  ht_size :: u64
  ht_mask :: u64
  ht_used :: u64

record dict =
  ht0 :: dictht
  ht1 :: dictht
  rehashidx :: int

text \<open>
  The memory: live entries, readable C strings (without the NUL), the next fresh address and the
  coming answers of the allocator (\<open>False\<close> is a failed allocation; an exhausted list succeeds).
  The address space is bounded by \<open>2 ^ 48\<close> cells.
\<close>

record dmem =
  entries :: "addr \<Rightarrow> dictEntry option"
  strs :: "addr \<Rightarrow> byte list option"
  brk :: addr
  mallocs :: "bool list"

definition MEM_MAX :: nat where "MEM_MAX = 2 ^ 48"

definition alloc_ok :: "dmem \<Rightarrow> bool" where
  "alloc_ok m = ((case mallocs m of [] \<Rightarrow> True | b # _ \<Rightarrow> b) \<and> brk m < MEM_MAX)"

definition malloc :: "dmem \<Rightarrow> ptr \<times> dmem" where
  "malloc m = (if alloc_ok m
     then (Some (brk m), m\<lparr>brk := Suc (brk m), mallocs := tl (mallocs m)\<rparr>)
     else (NULL, m\<lparr>mallocs := tl (mallocs m)\<rparr>))"

definition calloc :: "u64 \<Rightarrow> dmem \<Rightarrow> ptr list option \<times> dmem" where
  "calloc n m = (if alloc_ok m \<and> 8 * unat n < 2 ^ 64
     then (Some (replicate (unat n) NULL), m\<lparr>brk := Suc (brk m), mallocs := tl (mallocs m)\<rparr>)
     else (None, m\<lparr>mallocs := tl (mallocs m)\<rparr>))"

definition deref :: "dmem \<Rightarrow> ptr \<Rightarrow> dictEntry option" where
  "deref m p = (case p of None \<Rightarrow> None | Some a \<Rightarrow> entries m a)"

definition cstr :: "dmem \<Rightarrow> ptr \<Rightarrow> byte list option" where
  "cstr m p = (case p of None \<Rightarrow> None | Some a \<Rightarrow> strs m a)"

definition store :: "addr \<Rightarrow> dictEntry \<Rightarrow> dmem \<Rightarrow> dmem" where
  "store a e m = m\<lparr>entries := (entries m)(a := Some e)\<rparr>"

definition free :: "addr \<Rightarrow> dmem \<Rightarrow> dmem" where
  "free a m = m\<lparr>entries := (entries m)(a := None)\<rparr>"

definition tbl_get :: "dictht \<Rightarrow> nat \<Rightarrow> ptr option" where
  "tbl_get H i = (case ht_table H of None \<Rightarrow> None
     | Some t \<Rightarrow> if i < length t then Some (t ! i) else None)"

definition tbl_set :: "nat \<Rightarrow> ptr \<Rightarrow> dictht \<Rightarrow> dictht" where
  "tbl_set i p H = H\<lparr>ht_table := map_option (\<lambda>t. t[i := p]) (ht_table H)\<rparr>"

definition dictSize :: "dict \<Rightarrow> u64" where
  "dictSize d = ht_used (ht0 d) + ht_used (ht1 d)"

definition dictIsRehashing :: "dict \<Rightarrow> bool" where
  "dictIsRehashing d \<longleftrightarrow> rehashidx d \<noteq> -1"

subsection \<open>Creation\<close>

definition dictReset :: dictht where
  "dictReset = \<lparr>ht_table = None, ht_size = 0, ht_mask = 0, ht_used = 0\<rparr>"

definition dictInit :: dict where
  "dictInit = \<lparr>ht0 = dictReset, ht1 = dictReset, rehashidx = -1\<rparr>"

definition dictCreate :: "dmem \<Rightarrow> dict option \<times> dmem" where
  "dictCreate m = (case malloc m of
     (None, m) \<Rightarrow> (None, m)
   | (Some _, m) \<Rightarrow> (Some dictInit, m))"

subsection \<open>Hashing and sizing\<close>

fun genHashLoop :: "u32 \<Rightarrow> byte list \<Rightarrow> u32" where
  "genHashLoop hash [] = hash"
| "genHashLoop hash (b # buff) = genHashLoop (push_bit 5 hash + hash + ucast b) buff"

definition dictGenHash :: "byte list \<Rightarrow> u32" where
  "dictGenHash buff = genHashLoop 5381 buff"

partial_function (option) nextPowerLoop :: "u64 \<Rightarrow> u64 \<Rightarrow> u64 option" where [code]:
  "nextPowerLoop i sz = (if i \<ge> sz then Some i else nextPowerLoop (i * 2) sz)"

definition dictNextPower :: "u64 \<Rightarrow> u64 option" where
  "dictNextPower sz =
     (if sz \<ge> LONG_MAX then Some (LONG_MAX + 1)
      else nextPowerLoop DICT_HT_INITIAL_SIZE sz)"

text \<open>\<open>idx = mask & hash\<close>; \<open>len\<close> is an \<open>int\<close>, so a longer string would run off its end.\<close>

definition slot :: "dictht \<Rightarrow> byte list \<Rightarrow> nat" where
  "slot H k = unat (ht_mask H AND ucast (dictGenHash k))"

definition strlen_int :: "byte list \<Rightarrow> int option" where
  "strlen_int k = (if int (length k) \<le> INT_MAX then Some (int (length k)) else None)"

subsection \<open>Growing\<close>

definition dictExpand :: "u64 \<Rightarrow> dict \<Rightarrow> dmem \<Rightarrow> (int \<times> dict \<times> dmem) option" where
  "dictExpand sz d m =
     (if dictIsRehashing d then Some (DICT_OK, d, m)
      else do {
        realsize \<leftarrow> dictNextPower sz;
        if realsize = ht_size (ht0 d) then Some (DICT_ERR, d, m)
        else (let (tab, m) = calloc realsize m;
                  n = \<lparr>ht_table = tab, ht_size = realsize, ht_mask = realsize - 1, ht_used = 0\<rparr>
              in if ht_table (ht0 d) = None then Some (DICT_OK, d\<lparr>ht0 := n\<rparr>, m)
                 else Some (DICT_OK, d\<lparr>ht1 := n, rehashidx := 0\<rparr>, m))
      })"

definition dict_can_resize :: int where "dict_can_resize = 1"
definition dict_force_resize_ratio :: u64 where "dict_force_resize_ratio = 5"

definition dictExpandIfNeeded :: "dict \<Rightarrow> dmem \<Rightarrow> (int \<times> dict \<times> dmem) option" where
  "dictExpandIfNeeded d m =
     (if dictIsRehashing d then Some (DICT_OK, d, m)
      else if ht_size (ht0 d) = 0 then dictExpand DICT_HT_INITIAL_SIZE d m
      else if ht_used (ht0 d) \<ge> ht_size (ht0 d) \<and>
              (dict_can_resize \<noteq> 0 \<or>
               ht_used (ht0 d) div ht_size (ht0 d) \<ge> dict_force_resize_ratio)
           then dictExpand (ht_used (ht0 d) * 2) d m
      else Some (DICT_OK, d, m))"

subsection \<open>Walking a bucket\<close>

text \<open>The inner \<open>while\<close> of lookup: the first entry of the chain whose key compares equal.\<close>

partial_function (option) chain_find :: "dmem \<Rightarrow> byte list \<Rightarrow> ptr \<Rightarrow> ptr option" where [code]:
  "chain_find m k p = (case p of None \<Rightarrow> Some NULL
     | Some a \<Rightarrow> do {
         e \<leftarrow> deref m p;
         k' \<leftarrow> cstr m (de_key e);
         if k = k' then Some p else chain_find m k (de_next e)
       })"

definition ht_find :: "dmem \<Rightarrow> byte list \<Rightarrow> dictht \<Rightarrow> ptr option" where
  "ht_find m k H = do {
     _ \<leftarrow> strlen_int k;
     he \<leftarrow> tbl_get H (slot H k);
     chain_find m k he
   }"

text \<open>The index for a new key, or \<open>-1\<close> when the key is present (or the table cannot grow).\<close>

definition dictKeyIndex :: "ptr \<Rightarrow> dict \<Rightarrow> dmem \<Rightarrow> (int \<times> dict \<times> dmem) option" where
  "dictKeyIndex key d m = do {
     (r, d, m) \<leftarrow> dictExpandIfNeeded d m;
     if r = DICT_ERR then Some (-1, d, m)
     else do {
       k \<leftarrow> cstr m key;
       he \<leftarrow> ht_find m k (ht0 d);
       if he \<noteq> NULL then Some (-1, d, m)
       else if \<not> dictIsRehashing d then Some (int (slot (ht0 d) k), d, m)
       else do {
         he \<leftarrow> ht_find m k (ht1 d);
         if he \<noteq> NULL then Some (-1, d, m)
         else Some (int (slot (ht1 d) k), d, m)
       }
     }
   }"

subsection \<open>Incremental rehashing\<close>

partial_function (option) skip_empty :: "dictht \<Rightarrow> int \<Rightarrow> int \<Rightarrow> (bool \<times> int \<times> int) option" where [code]:
  "skip_empty H idx ev = do {
     e \<leftarrow> tbl_get H (nat idx);
     if e \<noteq> NULL then Some (False, idx, ev)
     else if ev - 1 = 0 then Some (True, idx + 1, ev - 1)
     else skip_empty H (idx + 1) (ev - 1)
   }"

partial_function (option) move_chain :: "ptr \<Rightarrow> dict \<Rightarrow> dmem \<Rightarrow> (dict \<times> dmem) option" where [code]:
  "move_chain de d m = (case de of None \<Rightarrow> Some (d, m)
     | Some a \<Rightarrow> do {
         e \<leftarrow> deref m de;
         (ix, d, m) \<leftarrow> dictKeyIndex (de_key e) d m;
         let h = unat ((word_of_int ix :: u64) AND ht_mask (ht0 d));
         b \<leftarrow> tbl_get (ht1 d) h;
         let m = store a (e\<lparr>de_next := b\<rparr>) m;
         let d = d\<lparr>ht1 := tbl_set h de (ht1 d)\<rparr>;
         let d = d\<lparr>ht0 := (ht0 d)\<lparr>ht_used := ht_used (ht0 d) - 1\<rparr>,
                   ht1 := (ht1 d)\<lparr>ht_used := ht_used (ht1 d) + 1\<rparr>\<rparr>;
         move_chain (de_next e) d m
       })"

text \<open>The loop \<open>while (--n && used != 0)\<close>; \<open>True\<close> is the early \<open>return 1\<close>.\<close>

partial_function (option) rehashLoop :: "int \<Rightarrow> int \<Rightarrow> dict \<Rightarrow> dmem \<Rightarrow> (bool \<times> dict \<times> dmem) option"
where [code]:
  "rehashLoop n ev d m =
     (if n - 1 \<noteq> 0 \<and> ht_used (ht0 d) \<noteq> 0
      then if \<not> uint (ht_size (ht0 d)) > rehashidx d then None
      else do {
        (out, idx, ev) \<leftarrow> skip_empty (ht0 d) (rehashidx d) ev;
        let d = d\<lparr>rehashidx := idx\<rparr>;
        if out then Some (True, d, m)
        else do {
          de \<leftarrow> tbl_get (ht0 d) (nat idx);
          (d, m) \<leftarrow> move_chain de d m;
          let d = d\<lparr>ht0 := tbl_set (nat (rehashidx d)) NULL (ht0 d)\<rparr>;
          rehashLoop (n - 1) ev (d\<lparr>rehashidx := rehashidx d + 1\<rparr>) m
        }
      }
      else Some (False, d, m))"

definition dictRehash :: "int \<Rightarrow> dict \<Rightarrow> dmem \<Rightarrow> (int \<times> dict \<times> dmem) option" where
  "dictRehash n d m =
     (if \<not> in_int (n * 10) then None
      else if \<not> dictIsRehashing d then Some (0, d, m)
      else do {
        (out, d, m) \<leftarrow> rehashLoop n (n * 10) d m;
        if out then Some (1, d, m)
        else if ht_used (ht0 d) = 0
             then Some (1, d\<lparr>ht0 := ht1 d, ht1 := dictReset, rehashidx := -1\<rparr>, m)
             else Some (1, d, m)
      })"

definition dictRehashStep :: "dict \<Rightarrow> dmem \<Rightarrow> (dict \<times> dmem) option" where
  "dictRehashStep d m = do {
     (_, d, m) \<leftarrow> dictRehash 1 d m;
     Some (d, m)
   }"

subsection \<open>The public operations\<close>

definition dictAdd :: "ptr \<Rightarrow> ptr \<Rightarrow> dict \<Rightarrow> dmem \<Rightarrow> (int \<times> dict \<times> dmem) option" where
  "dictAdd key val d m = do {
     (d, m) \<leftarrow> (if dictIsRehashing d then dictRehashStep d m else Some (d, m));
     (index, d, m) \<leftarrow> dictKeyIndex key d m;
     if index = -1 then Some (DICT_ERR, d, m)
     else do {
       let H = (if dictIsRehashing d then ht1 d else ht0 d);
       let (entry, m) = malloc m;
       a \<leftarrow> entry;
       b \<leftarrow> tbl_get H (nat index);
       let m = store a \<lparr>de_key = key, de_val = val, de_next = b\<rparr> m;
       let H = tbl_set (nat index) (Some a) H;
       let H = H\<lparr>ht_used := ht_used H + 1\<rparr>;
       Some (DICT_OK, (if dictIsRehashing d then d\<lparr>ht1 := H\<rparr> else d\<lparr>ht0 := H\<rparr>), m)
     }
   }"

definition dictGet :: "ptr \<Rightarrow> dict \<Rightarrow> dmem \<Rightarrow> (ptr \<times> dict \<times> dmem) option" where
  "dictGet key d m =
     (if dictSize d = 0 then Some (NULL, d, m)
      else do {
        (d, m) \<leftarrow> (if dictIsRehashing d then dictRehashStep d m else Some (d, m));
        k \<leftarrow> cstr m key;
        entry \<leftarrow> ht_find m k (ht0 d);
        if entry \<noteq> NULL then Some (entry, d, m)
        else if \<not> dictIsRehashing d then Some (NULL, d, m)
        else do {
          entry \<leftarrow> ht_find m k (ht1 d);
          Some (entry, d, m)
        }
      })"

text \<open>
  Deletion compares the key \<^emph>\<open>pointers\<close>; \<open>prevEntry\<close> is carried from the walk of the
  first table into the walk of the second one, as in the code.
\<close>

partial_function (option) del_walk :: "dmem \<Rightarrow> ptr \<Rightarrow> ptr \<Rightarrow> ptr \<Rightarrow> (ptr \<times> ptr) option" where [code]:
  "del_walk m key prev p = (case p of None \<Rightarrow> Some (prev, NULL)
     | Some a \<Rightarrow> do {
         e \<leftarrow> deref m p;
         if key = de_key e then Some (prev, p) else del_walk m key p (de_next e)
       })"

definition unlink :: "ptr \<Rightarrow> addr \<Rightarrow> nat \<Rightarrow> dictht \<Rightarrow> dmem \<Rightarrow> (dictht \<times> dmem) option" where
  "unlink prev a idx H m = do {
     e \<leftarrow> deref m (Some a);
     (H, m) \<leftarrow> (case prev of
         Some q \<Rightarrow> do { pe \<leftarrow> deref m prev; Some (H, store q (pe\<lparr>de_next := de_next e\<rparr>) m) }
       | None \<Rightarrow> Some (tbl_set idx (de_next e) H, m));
     Some (H\<lparr>ht_used := ht_used H - 1\<rparr>, free a m)
   }"

definition dictDel :: "ptr \<Rightarrow> dict \<Rightarrow> dmem \<Rightarrow> (ptr \<times> dict \<times> dmem) option" where
  "dictDel key d m =
     (if dictSize d = 0 then Some (NULL, d, m)
      else do {
        (d, m) \<leftarrow> (if dictIsRehashing d then dictRehashStep d m else Some (d, m));
        k \<leftarrow> cstr m key;
        _ \<leftarrow> strlen_int k;
        p \<leftarrow> tbl_get (ht0 d) (slot (ht0 d) k);
        (prev, entry) \<leftarrow> del_walk m key NULL p;
        (case entry of
          Some a \<Rightarrow> do {
            (H, m) \<leftarrow> unlink prev a (slot (ht0 d) k) (ht0 d) m;
            Some (entry, d\<lparr>ht0 := H\<rparr>, m)
          }
        | None \<Rightarrow>
            if \<not> dictIsRehashing d then Some (NULL, d, m)
            else do {
              p \<leftarrow> tbl_get (ht1 d) (slot (ht1 d) k);
              (prev, entry) \<leftarrow> del_walk m key prev p;
              (case entry of
                Some a \<Rightarrow> do {
                  (H, m) \<leftarrow> unlink prev a (slot (ht1 d) k) (ht1 d) m;
                  Some (entry, d\<lparr>ht1 := H\<rparr>, m)
                }
              | None \<Rightarrow> Some (NULL, d, m))
            })
      })"

end
