(* ===== verification/Dict_Refinement.thy ===== *)
theory Dict_Refinement
  imports Dict
begin

text \<open>
  Correctness of the hash table against an abstract map from key \<^emph>\<open>contents\<close> to the stored key
  and value pointers.
\<close>

subsection \<open>Sizing\<close>

lemma nextPowerLoop_pow2:
  assumes "k \<le> 63" and "unat sz \<le> 2 ^ 63"
  shows "\<exists>j. k \<le> j \<and> j \<le> 63 \<and> nextPowerLoop (2 ^ k) sz = Some (2 ^ j) \<and>
    unat sz \<le> 2 ^ j \<and> (j = k \<or> 2 ^ (j - 1) < unat sz)"
  using assms(1)
proof (induction "63 - k" arbitrary: k)
  case 0
  then have "k = 63" by simp
  with assms(2) show ?case
    by (intro exI[of _ 63]) (subst nextPowerLoop.simps, simp add: word_le_nat_alt)
next
  case (Suc n)
  show ?case
  proof (cases "unat sz \<le> 2 ^ k")
    case True
    with Suc.prems show ?thesis
      by (intro exI[of _ k]) (subst nextPowerLoop.simps, simp add: word_le_nat_alt unat_pow2)
  next
    case False
    from Suc.hyps(2) have "n = 63 - Suc k" and k: "Suc k \<le> 63" by simp_all
    from Suc.hyps(1)[OF this] obtain j where j: "Suc k \<le> j" "j \<le> 63"
      "nextPowerLoop (2 ^ Suc k) sz = Some (2 ^ j)" "unat sz \<le> 2 ^ j"
      "j = Suc k \<or> 2 ^ (j - 1) < unat sz" by blast
    have "nextPowerLoop (2 ^ k) sz = nextPowerLoop (2 ^ Suc k) sz"
      using False k by (subst nextPowerLoop.simps) (simp add: word_le_nat_alt mult.commute unat_pow2)
    with j False show ?thesis by (intro exI[of _ j]) auto
  qed
qed

lemma LONG_MAX_Suc: "LONG_MAX + 1 = 2 ^ 63"
  by (simp add: LONG_MAX_def)

lemma unat_LONG_MAX: "unat LONG_MAX = 2 ^ 63 - 1"
  by (simp add: LONG_MAX_def)

lemma dictNextPower_pow2:
  assumes "sz < LONG_MAX"
  shows "\<exists>j. 2 \<le> j \<and> j \<le> 63 \<and> dictNextPower sz = Some (2 ^ j) \<and>
    unat sz \<le> 2 ^ j \<and> (j = 2 \<or> 2 ^ (j - 1) < unat sz)"
proof -
  from assms have "unat sz \<le> 2 ^ 63"
    by (simp add: word_less_nat_alt unat_LONG_MAX)
  moreover have "dictNextPower sz = nextPowerLoop (2 ^ 2) sz"
    using assms by (auto simp: dictNextPower_def DICT_HT_INITIAL_SIZE_def)
  ultimately show ?thesis
    using nextPowerLoop_pow2[of 2 sz] by simp
qed

subsection \<open>Buckets as lists\<close>

primrec chain :: "(addr \<Rightarrow> dictEntry option) \<Rightarrow> ptr \<Rightarrow> addr list \<Rightarrow> bool" where
  "chain E p [] \<longleftrightarrow> p = NULL"
| "chain E p (a # as) \<longleftrightarrow> p = Some a \<and> (\<exists>e. E a = Some e \<and> chain E (de_next e) as)"

definition ekey :: "dmem \<Rightarrow> addr \<Rightarrow> byte list option" where
  "ekey m a = Option.bind (entries m a) (\<lambda>e. cstr m (de_key e))"

lemma cstr_cong: "strs m' = strs m \<Longrightarrow> cstr m' = cstr m"
  by (rule ext) (simp only: cstr_def)

lemma chain_frame:
  "chain E p as \<Longrightarrow> \<forall>a \<in> set as. E' a = E a \<Longrightarrow> chain E' p as"
  by (induction as arbitrary: p) auto

lemma chain_upd [simp]: "a \<notin> set as \<Longrightarrow> chain (E(a := x)) p as = chain E p as"
  by (induction as arbitrary: p) auto

lemma chain_find_eq:
  assumes "chain (entries m) p as" and "\<forall>a \<in> set as. ekey m a \<noteq> None"
  shows "chain_find m k p = Some (List.find (\<lambda>a. ekey m a = Some k) as)"
  using assms
proof (induction as arbitrary: p)
  case Nil
  then show ?case by (simp add: chain_find.simps)
next
  case (Cons a as)
  then obtain e k' where e: "p = Some a" "entries m a = Some e" "chain (entries m) (de_next e) as"
    "cstr m (de_key e) = Some k'"
    by (auto simp: ekey_def)
  with Cons.IH[OF e(3)] Cons.prems show ?case
    by (subst chain_find.simps) (auto simp: deref_def ekey_def)
qed

definition ht_rep :: "dmem \<Rightarrow> dictht \<Rightarrow> addr list list \<Rightarrow> bool" where
  "ht_rep m H bs \<longleftrightarrow>
     (\<exists>t. ht_table H = Some t \<and> length t = length bs \<and>
        (\<forall>i < length bs. chain (entries m) (t ! i) (bs ! i))) \<and>
     (\<forall>i < length bs. \<forall>a \<in> set (bs ! i). \<exists>k. ekey m a = Some k \<and> slot H k = i) \<and>
     (\<exists>j. 2 \<le> j \<and> j < 50 \<and> length bs = 2 ^ j) \<and>
     ht_size H = of_nat (length bs) \<and> ht_mask H = ht_size H - 1 \<and>
     ht_used H = of_nat (length (concat bs))"

lemma ht_rep_size:
  assumes "ht_rep m H bs"
  shows "unat (ht_size H) = length bs" and "unat (ht_mask H) = length bs - 1"
    and "0 < length bs" and "length bs < 2 ^ 50" and "ht_size H \<noteq> 0"
proof -
  obtain j where j: "2 \<le> j" "j < 50" "length bs = 2 ^ j" and s: "ht_size H = of_nat (length bs)"
    and mk: "ht_mask H = ht_size H - 1"
    using assms by (auto simp: ht_rep_def)
  have lt: "length bs < 2 ^ 50"
    unfolding j(3) by (rule power_strict_increasing) (use j in auto)
  then show "length bs < 2 ^ 50" .
  show "0 < length bs" using j by simp
  show u: "unat (ht_size H) = length bs"
    unfolding s using lt by (simp add: unat_of_nat)
  then show nz: "ht_size H \<noteq> 0" using j by auto
  show "unat (ht_mask H) = length bs - 1"
    using u nz by (simp add: mk unat_minus_one)
qed

lemma slot_less:
  assumes "ht_rep m H bs"
  shows "slot H k < length bs"
proof -
  have "unat (ht_mask H AND ucast (dictGenHash k)) \<le> unat (ht_mask H)"
    by (meson word_and_le2 word_le_nat_alt)
  with ht_rep_size[OF assms] show ?thesis unfolding slot_def by linarith
qed

lemma find_cong_set:
  "(\<And>x. x \<in> set xs \<Longrightarrow> P x = Q x) \<Longrightarrow> List.find P xs = List.find Q xs"
  by (induction xs) auto

lemma find_concat_bucket:
  assumes "i < length bs" and "\<And>j a. j < length bs \<Longrightarrow> a \<in> set (bs ! j) \<Longrightarrow> P a \<Longrightarrow> j = i"
  shows "List.find P (concat bs) = List.find P (bs ! i)"
proof -
  have bs: "concat bs = concat (take i bs) @ bs ! i @ concat (drop (Suc i) bs)"
    by (metis assms(1) concat.simps(2) concat_append id_take_nth_drop)
  have "\<not> P a" if "a \<in> set (concat (take i bs))" for a
  proof
    assume "P a"
    from that obtain j where "j < i" "a \<in> set (bs ! j)"
      by (auto simp only: in_concat_nth length_take) (metis less_imp_le_nat min_less_iff_conj nth_take)
    with assms(2)[of j a] assms(1) \<open>P a\<close> show False by simp
  qed
  moreover have "\<not> P a" if "a \<in> set (concat (drop (Suc i) bs))" for a
  proof
    assume "P a"
    from that obtain j where "j < length bs - Suc i" "a \<in> set (drop (Suc i) bs ! j)"
      unfolding in_concat_nth by auto
    with assms(1) have j: "Suc i + j < length bs" "a \<in> set (bs ! (Suc i + j))" by simp_all
    from assms(2)[OF j \<open>P a\<close>] show False by simp
  qed
  ultimately have "List.find P (concat (take i bs)) = None"
    and "List.find P (concat (drop (Suc i) bs)) = None"
    by (auto simp: find_None_iff)
  then show ?thesis
    unfolding bs find_append by (auto split: option.splits)
qed

lemma tbl_get_rep:
  assumes "ht_rep m H bs" and "i < length bs"
  shows "\<exists>p. tbl_get H i = Some p \<and> chain (entries m) p (bs ! i)"
  using assms by (auto simp: ht_rep_def tbl_get_def)

lemma ht_rep_bucket:
  assumes "ht_rep m H bs" and "i < length bs" and "a \<in> set (bs ! i)"
  obtains k where "ekey m a = Some k" and "slot H k = i"
  using assms unfolding ht_rep_def by blast

lemma ht_rep_ekey:
  assumes "ht_rep m H bs" and "a \<in> set (concat bs)"
  shows "ekey m a \<noteq> None"
proof -
  from assms(2) obtain i where i: "i < length bs" "a \<in> set (bs ! i)"
    unfolding in_concat_nth by blast
  obtain k where "ekey m a = Some k"
    using ht_rep_bucket[OF assms(1) i] by blast
  then show ?thesis by simp
qed

lemma ht_find_eq:
  assumes "ht_rep m H bs" and "int (length k) \<le> INT_MAX"
  shows "ht_find m k H = Some (List.find (\<lambda>a. ekey m a = Some k) (concat bs))"
proof -
  let ?i = "slot H k"
  note lt = slot_less[OF assms(1), of k]
  from tbl_get_rep[OF assms(1) lt] obtain p where p: "tbl_get H ?i = Some p"
    "chain (entries m) p (bs ! ?i)" by blast
  have "\<forall>a \<in> set (bs ! ?i). ekey m a \<noteq> None"
    using ht_rep_ekey[OF assms(1)] lt unfolding in_concat_nth by blast
  note f = chain_find_eq[OF p(2) this, of k]
  have "List.find (\<lambda>a. ekey m a = Some k) (concat bs)
      = List.find (\<lambda>a. ekey m a = Some k) (bs ! ?i)"
  proof (rule find_concat_bucket[OF lt])
    fix j a
    assume j: "j < length bs" "a \<in> set (bs ! j)" and a: "ekey m a = Some k"
    obtain k' where "ekey m a = Some k'" "slot H k' = j"
      by (rule ht_rep_bucket[OF assms(1) j])
    with a show "j = slot H k" by simp
  qed
  with f p assms(2) show ?thesis
    by (simp add: ht_find_def strlen_int_def)
qed

lemma ekey_frame:
  "entries m' = entries m \<Longrightarrow> strs m' = strs m \<Longrightarrow> ekey m' = ekey m"
  by (intro ext) (simp only: ekey_def cstr_def)

lemma ht_rep_frame:
  assumes "ht_rep m H bs" and "entries m' = entries m" and "strs m' = strs m"
  shows "ht_rep m' H bs"
  using assms(1) unfolding ht_rep_def assms(2) ekey_frame[OF assms(2,3)] .

lemma ekey_store:
  "ekey (store a e m) b = (if b = a then cstr m (de_key e) else ekey m b)"
  by (simp add: ekey_def store_def cstr_def cong: option.case_cong)

lemma entries_store: "entries (store a e m) = (entries m)(a := Some e)"
  by (simp add: store_def)

lemma ht_rep_store_other:
  assumes "ht_rep m H bs" and "a \<notin> set (concat bs)"
  shows "ht_rep (store a e m) H bs"
proof -
  have n: "a \<notin> set (bs ! i)" if "i < length bs" for i
    using assms(2) that by auto
  with assms(1) show ?thesis
    unfolding ht_rep_def ekey_store entries_store by (metis chain_upd)
qed


lemma ht_rep_insert:
  assumes rep: "ht_rep m H bs" and a: "a \<notin> set (concat bs)"
    and k: "cstr m key = Some k" and p: "tbl_get H (slot H k) = Some p"
  shows "ht_rep (store a \<lparr>de_key = key, de_val = v, de_next = p\<rparr> m)
           ((tbl_set (slot H k) (Some a) H)\<lparr>ht_used := ht_used H + 1\<rparr>)
           (bs[slot H k := a # bs ! slot H k])"
    (is "ht_rep ?m ?H ?bs")
proof -
  let ?i = "slot H k"
  note lt = slot_less[OF rep, of k]
  obtain t where t: "ht_table H = Some t" "length t = length bs"
    and ch: "\<And>i. i < length bs \<Longrightarrow> chain (entries m) (t ! i) (bs ! i)"
    using rep by (auto simp: ht_rep_def)
  have pt: "p = t ! ?i" using p t lt by (simp add: tbl_get_def)
  have n: "a \<notin> set (bs ! i)" if "i < length bs" for i
    using a that unfolding in_concat_nth by blast
  have sl: "slot ?H k' = slot H k'" for k'
    by (simp add: slot_def tbl_set_def)
  have "chain (entries ?m) (t[?i := Some a] ! i) (?bs ! i)" if "i < length bs" for i
    using that ch[of i] n[of i] lt pt t(2) by (cases "i = ?i") (auto simp: entries_store)
  moreover have "\<exists>k'. ekey ?m b = Some k' \<and> slot ?H k' = i"
    if "i < length bs" "b \<in> set (?bs ! i)" for i b
  proof (cases "b = a")
    case True
    with that n[of i] lt k show ?thesis
      by (cases "i = ?i") (auto simp: ekey_store sl)
  next
    case False
    with that have "b \<in> set (bs ! i)" by (cases "i = ?i") auto
    with that(1) ht_rep_bucket[OF rep, of i b] False show ?thesis
      by (auto simp: ekey_store sl)
  qed
  moreover have "length (concat ?bs) = Suc (length (concat bs))"
    using length_concat_update[OF lt, of "a # bs ! ?i"] by simp
  ultimately show ?thesis
    using rep t unfolding ht_rep_def by (simp add: tbl_set_def)
qed

subsection \<open>The representation relation\<close>

definition mem_room :: "nat \<Rightarrow> dmem \<Rightarrow> bool" where
  "mem_room n m \<longleftrightarrow> mallocs m = [] \<and> brk m + n \<le> MEM_MAX"

definition all_fresh :: "dmem \<Rightarrow> addr list \<Rightarrow> bool" where
  "all_fresh m as \<longleftrightarrow> (\<forall>a \<in> set as. a < brk m) \<and> brk m \<le> MEM_MAX \<and>
     distinct (map (ekey m) as)"

definition dict_rep :: "dict \<Rightarrow> dmem \<Rightarrow> addr list list \<Rightarrow> addr list list \<Rightarrow> bool" where
  "dict_rep d m bs0 bs1 \<longleftrightarrow>
     all_fresh m (concat bs0 @ concat bs1) \<and>
     (if bs0 = [] then d = dictInit \<and> bs1 = []
      else ht_rep m (ht0 d) bs0 \<and>
        (if bs1 = [] then ht1 d = dictReset \<and> rehashidx d = -1
         else ht_rep m (ht1 d) bs1 \<and> rehashidx d = 0))"

text \<open>What the table stores for a key content: the key pointer and the value pointer.\<close>

definition absmap :: "dmem \<Rightarrow> addr list \<Rightarrow> byte list \<Rightarrow> (ptr \<times> ptr) option" where
  "absmap m as k = (case List.find (\<lambda>a. ekey m a = Some k) as of None \<Rightarrow> None
     | Some a \<Rightarrow> map_option (\<lambda>e. (de_key e, de_val e)) (entries m a))"

definition dict_refines :: "dict \<Rightarrow> dmem \<Rightarrow> (byte list \<Rightarrow> (ptr \<times> ptr) option) \<Rightarrow> bool" where
  "dict_refines d m f \<longleftrightarrow>
     (\<exists>bs0 bs1. dict_rep d m bs0 bs1 \<and> f = absmap m (concat bs0 @ concat bs1))"

lemma MEM_MAX_less: "n \<le> MEM_MAX \<Longrightarrow> n < 2 ^ 63"
  by (simp add: MEM_MAX_def)

lemma all_fresh_length:
  assumes "all_fresh m as"
  shows "length as \<le> MEM_MAX"
proof -
  from assms have "distinct as" by (auto simp: all_fresh_def distinct_map)
  with assms have "length as \<le> brk m"
    by (intro length_le_if_distinct_below) (auto simp: all_fresh_def)
  with assms show ?thesis by (simp add: all_fresh_def)
qed

lemma unat_of_nat_small: "n \<le> MEM_MAX \<Longrightarrow> unat (of_nat n :: u64) = n"
  by (simp add: unat_of_nat MEM_MAX_def)

lemma dict_rep_rehashing:
  "dict_rep d m bs0 bs1 \<Longrightarrow> dictIsRehashing d \<longleftrightarrow> bs1 \<noteq> []"
  by (auto simp: dict_rep_def dictIsRehashing_def dictInit_def split: if_splits)

lemma dict_rep_used:
  assumes "dict_rep d m bs0 bs1"
  shows "unat (ht_used (ht0 d)) = length (concat bs0)"
    and "unat (ht_used (ht1 d)) = length (concat bs1)"
    and "unat (dictSize d) = length (concat bs0) + length (concat bs1)"
proof -
  have len: "length (concat bs0) + length (concat bs1) \<le> MEM_MAX"
    using all_fresh_length[of m "concat bs0 @ concat bs1"] assms by (simp add: dict_rep_def)
  have u: "ht_used (ht0 d) = of_nat (length (concat bs0))"
    "ht_used (ht1 d) = of_nat (length (concat bs1))"
    using assms by (auto simp: dict_rep_def ht_rep_def dictInit_def dictReset_def split: if_splits)
  show "unat (ht_used (ht0 d)) = length (concat bs0)"
    and "unat (ht_used (ht1 d)) = length (concat bs1)"
    using len by (simp_all add: u unat_of_nat_small)
  show "unat (dictSize d) = length (concat bs0) + length (concat bs1)"
    using unat_of_nat_small[OF len] by (simp add: dictSize_def u)
qed

lemma dictSize_0:
  assumes "dict_rep d m bs0 bs1"
  shows "dictSize d = 0 \<longleftrightarrow> concat bs0 @ concat bs1 = []"
proof -
  have "dictSize d = 0 \<longleftrightarrow> unat (dictSize d) = 0" by (simp add: unat_eq_0)
  also have "\<dots> \<longleftrightarrow> length (concat bs0 @ concat bs1) = 0"
    unfolding dict_rep_used(3)[OF assms] by simp
  also have "\<dots> \<longleftrightarrow> concat bs0 @ concat bs1 = []" by (rule length_0_conv)
  finally show ?thesis .
qed

lemma dict_rep_frame:
  assumes "dict_rep d m bs0 bs1" and "entries m' = entries m" and "strs m' = strs m"
    and "brk m \<le> brk m'" and "brk m' \<le> MEM_MAX"
  shows "dict_rep d m' bs0 bs1"
proof -
  have "all_fresh m' (concat bs0 @ concat bs1)"
    using assms(1,4,5) order_less_le_trans[OF _ assms(4)]
    unfolding dict_rep_def all_fresh_def ekey_frame[OF assms(2,3)] by blast
  with assms(1) show ?thesis
    unfolding dict_rep_def using ht_rep_frame[OF _ assms(2,3)] by meson
qed

lemma absmap_frame:
  assumes "entries m' = entries m" and "strs m' = strs m"
  shows "absmap m' as = absmap m as"
  unfolding absmap_def ekey_frame[OF assms] assms(1) ..

subsection \<open>The rehash step\<close>

text \<open>With one step (\<open>n = 1\<close>) the migration loop \<open>while (--n ...)\<close> is not entered.\<close>

lemma rehashLoop_1 [simp]: "rehashLoop 1 ev d m = Some (False, d, m)"
  by (subst rehashLoop.simps) simp

lemma dictRehash_1:
  "dictRehash 1 d m = Some
     (if \<not> dictIsRehashing d then (0, d, m)
      else if ht_used (ht0 d) = 0
           then (1, d\<lparr>ht0 := ht1 d, ht1 := dictReset, rehashidx := -1\<rparr>, m)
           else (1, d, m))"
  by (simp add: dictRehash_def in_int_def INT_MAX_def)

lemma rehash_step_rep:
  assumes "dict_rep d m bs0 bs1"
  shows "\<exists>d' bs0' bs1'. (if dictIsRehashing d then dictRehashStep d m else Some (d, m)) = Some (d', m) \<and>
    dict_rep d' m bs0' bs1' \<and> concat bs0' @ concat bs1' = concat bs0 @ concat bs1 \<and>
    (bs0 \<noteq> [] \<longrightarrow> bs0' \<noteq> [])"
proof (cases "dictIsRehashing d \<and> ht_used (ht0 d) = 0")
  case True
  then have "bs1 \<noteq> []" "bs0 \<noteq> []" and e: "concat bs0 = []"
    using dict_rep_rehashing[OF assms] dict_rep_used(1)[OF assms] assms
    by (auto simp: dict_rep_def dictInit_def dictIsRehashing_def)
  with assms have "dict_rep (d\<lparr>ht0 := ht1 d, ht1 := dictReset, rehashidx := -1\<rparr>) m bs1 []"
    by (simp add: dict_rep_def)
  with True e \<open>bs1 \<noteq> []\<close> show ?thesis
    by (intro exI[of _ "d\<lparr>ht0 := ht1 d, ht1 := dictReset, rehashidx := -1\<rparr>"] exI[of _ bs1]
        exI[of _ "[]"]) (simp add: dictRehashStep_def dictRehash_1)
next
  case False
  with assms show ?thesis
    by (intro exI[of _ d] exI[of _ bs0] exI[of _ bs1]) (auto simp: dictRehashStep_def dictRehash_1)
qed

subsection \<open>Lookup\<close>

lemma find_table:
  assumes "dict_rep d m bs0 bs1" and "bs0 \<noteq> []" and "int (length k) \<le> INT_MAX"
  shows "ht_find m k (ht0 d) = Some (List.find (\<lambda>a. ekey m a = Some k) (concat bs0))"
    and "bs1 \<noteq> [] \<Longrightarrow> ht_find m k (ht1 d) = Some (List.find (\<lambda>a. ekey m a = Some k) (concat bs1))"
  using assms by (auto simp: dict_rep_def intro!: ht_find_eq)

lemma dictGet_rep:
  assumes "dict_rep d m bs0 bs1" and "cstr m key = Some k" and "int (length k) \<le> INT_MAX"
  shows "\<exists>d' bs0' bs1'. dictGet key d m =
      Some (List.find (\<lambda>a. ekey m a = Some k) (concat bs0 @ concat bs1), d', m) \<and>
    dict_rep d' m bs0' bs1' \<and> concat bs0' @ concat bs1' = concat bs0 @ concat bs1"
proof (cases "dictSize d = 0")
  case True
  then have e: "concat bs0 @ concat bs1 = []" using dictSize_0[OF assms(1)] by simp
  have "dictGet key d m = Some (List.find (\<lambda>a. ekey m a = Some k) (concat bs0 @ concat bs1), d, m)"
    unfolding e using True by (simp add: dictGet_def)
  with assms(1) show ?thesis by metis
next
  case False
  then have "bs0 \<noteq> []"
    using dictSize_0[OF assms(1)] assms(1) by (auto simp: dict_rep_def)
  then obtain d' bs0' bs1' where step:
    "(if dictIsRehashing d then dictRehashStep d m else Some (d, m)) = Some (d', m)"
    "dict_rep d' m bs0' bs1'" "concat bs0' @ concat bs1' = concat bs0 @ concat bs1" "bs0' \<noteq> []"
    using rehash_step_rep[OF assms(1)] by blast
  note f = find_table[OF step(2,4) assms(3)]
  have "dictGet key d m = Some (List.find (\<lambda>a. ekey m a = Some k) (concat bs0' @ concat bs1'), d', m)"
    using False step(1) assms(2) f dict_rep_rehashing[OF step(2)]
    by (auto simp: dictGet_def find_append split: option.splits)
  with step(2,3) show ?thesis by metis
qed

lemma find_SomeD: "List.find P xs = Some x \<Longrightarrow> x \<in> set xs \<and> P x"
  by (metis find_Some_iff nth_mem)

lemma absmap_find:
  "List.find (\<lambda>a. ekey m a = Some k) as = None \<longleftrightarrow> absmap m as k = None"
  "List.find (\<lambda>a. ekey m a = Some k) as = Some a \<Longrightarrow>
     \<exists>e. entries m a = Some e \<and> absmap m as k = Some (de_key e, de_val e)"
  by (auto simp: absmap_def ekey_def bind_eq_Some_conv split: option.splits dest: find_SomeD)


subsection \<open>Growing and insertion\<close>

lemma ht_rep_calloc:
  assumes "2 \<le> j" and "j < 50"
  shows "ht_rep m \<lparr>ht_table = Some (replicate (2 ^ j) NULL), ht_size = 2 ^ j, ht_mask = 2 ^ j - 1,
           ht_used = 0\<rparr> (replicate (2 ^ j) [])"
  using assms by (auto simp: ht_rep_def)

lemma dictExpand_rep:
  assumes "dict_rep d m bs0 []" and "mem_room 1 m"
    and "dictNextPower sz = Some (2 ^ j)" and "2 \<le> j" and "j < 50"
    and "2 ^ j \<noteq> ht_size (ht0 d)"
  shows "\<exists>d' m' bs0' bs1'. dictExpand sz d m = Some (DICT_OK, d', m') \<and>
    dict_rep d' m' bs0' bs1' \<and> bs0' \<noteq> [] \<and> concat bs0' @ concat bs1' = concat bs0 \<and>
    entries m' = entries m \<and> strs m' = strs m \<and> mallocs m' = [] \<and> brk m' = Suc (brk m)"
proof -
  let ?n = "\<lparr>ht_table = Some (replicate (2 ^ j) NULL), ht_size = 2 ^ j, ht_mask = 2 ^ j - 1,
    ht_used = 0\<rparr>" and ?m = "m\<lparr>brk := Suc (brk m)\<rparr>" and ?bs = "replicate (2 ^ j) ([] :: addr list)"
  have lt: "(2::nat) ^ j < 2 ^ 50" by (rule power_strict_increasing) (use assms(5) in auto)
  have u: "unat (2 ^ j :: u64) = 2 ^ j" by (rule unat_pow2) (use assms(5) in simp)
  have ok: "alloc_ok m" "tl (mallocs m) = mallocs m" "mallocs m = []" "Suc (brk m) \<le> MEM_MAX"
    using assms(2) by (auto simp: alloc_ok_def mem_room_def)
  have cal: "calloc (2 ^ j) m = (Some (replicate (2 ^ j) NULL), ?m)"
    using ok(1,2) lt by (simp add: calloc_def u)
  have nr: "\<not> dictIsRehashing d" using dict_rep_rehashing[OF assms(1)] by simp
  have d': "dictExpand sz d m = Some (DICT_OK,
      (if ht_table (ht0 d) = None then d\<lparr>ht0 := ?n\<rparr> else d\<lparr>ht1 := ?n, rehashidx := 0\<rparr>), ?m)"
    using nr assms(3,6) cal by (auto simp: dictExpand_def Let_def)
  have rep: "dict_rep d ?m bs0 []" by (rule dict_rep_frame[OF assms(1)]) (use ok in simp_all)
  have new: "ht_rep ?m ?n ?bs" by (rule ht_rep_calloc[OF assms(4,5)])
  show ?thesis
  proof (cases "bs0 = []")
    case True
    with rep have "d = dictInit" and fr: "all_fresh ?m []" by (simp_all add: dict_rep_def)
    moreover from this have "dict_rep (d\<lparr>ht0 := ?n\<rparr>) ?m ?bs []"
      using new by (simp add: dict_rep_def dictInit_def)
    ultimately show ?thesis
      using d' True ok(3) by (intro exI[of _ "d\<lparr>ht0 := ?n\<rparr>"] exI[of _ ?m] exI[of _ ?bs] exI[of _ "[]"])
        (simp add: dictInit_def dictReset_def)
  next
    case False
    with rep have "ht_rep ?m (ht0 d) bs0" by (simp add: dict_rep_def)
    then have tab: "ht_table (ht0 d) \<noteq> None" by (auto simp: ht_rep_def)
    have "dict_rep (d\<lparr>ht1 := ?n, rehashidx := 0\<rparr>) ?m bs0 ?bs"
      using rep new False by (simp add: dict_rep_def)
    with d' False tab ok(3) show ?thesis
      by (intro exI[of _ "d\<lparr>ht1 := ?n, rehashidx := 0\<rparr>"] exI[of _ ?m] exI[of _ bs0]
          exI[of _ ?bs]) simp
  qed
qed

lemma expand_needed_rep:
  assumes "dict_rep d m bs0 bs1" and "mem_room 1 m"
  shows "\<exists>d' m' bs0' bs1'. dictExpandIfNeeded d m = Some (DICT_OK, d', m') \<and>
    dict_rep d' m' bs0' bs1' \<and> bs0' \<noteq> [] \<and> concat bs0' @ concat bs1' = concat bs0 @ concat bs1 \<and>
    entries m' = entries m \<and> strs m' = strs m \<and> mallocs m' = [] \<and>
    brk m \<le> brk m' \<and> brk m' \<le> Suc (brk m)"
proof -
  have mal: "mallocs m = []" using assms(2) by (simp add: mem_room_def)
  have keep: ?thesis if "dictExpandIfNeeded d m = Some (DICT_OK, d, m)" and "bs0 \<noteq> []"
    using that assms(1) mal by (metis le_SucI order_refl)
  consider (rehash) "bs1 \<noteq> []" | (empty) "bs0 = []" "bs1 = []"
    | (full) "bs0 \<noteq> []" "bs1 = []" "ht_used (ht0 d) \<ge> ht_size (ht0 d)"
    | (fits) "bs0 \<noteq> []" "bs1 = []" "\<not> ht_used (ht0 d) \<ge> ht_size (ht0 d)" by blast
  then show ?thesis
  proof cases
    case rehash
    then have "dictExpandIfNeeded d m = Some (DICT_OK, d, m)"
      using dict_rep_rehashing[OF assms(1)] by (simp add: dictExpandIfNeeded_def)
    moreover have "bs0 \<noteq> []" using rehash assms(1) by (auto simp: dict_rep_def)
    ultimately show ?thesis by (rule keep)
  next
    case empty
    then have d: "d = dictInit" using assms(1) by (simp add: dict_rep_def)
    have np: "dictNextPower DICT_HT_INITIAL_SIZE = Some (2 ^ 2)"
      by (simp add: dictNextPower_def DICT_HT_INITIAL_SIZE_def LONG_MAX_def nextPowerLoop.simps)
    have "\<exists>d' m' bs0' bs1'. dictExpand DICT_HT_INITIAL_SIZE d m = Some (DICT_OK, d', m') \<and>
      dict_rep d' m' bs0' bs1' \<and> bs0' \<noteq> [] \<and> concat bs0' @ concat bs1' = concat bs0 \<and>
      entries m' = entries m \<and> strs m' = strs m \<and> mallocs m' = [] \<and> brk m' = Suc (brk m)"
      by (rule dictExpand_rep[OF _ assms(2) np])
        (use assms(1) empty in \<open>simp_all add: d dictInit_def dictReset_def\<close>)
    moreover have "dictExpandIfNeeded d m = dictExpand DICT_HT_INITIAL_SIZE d m"
      by (simp add: d dictExpandIfNeeded_def dictIsRehashing_def dictInit_def dictReset_def)
    ultimately show ?thesis using empty by fastforce
  next
    case full
    have rep: "ht_rep m (ht0 d) bs0" using assms(1) full by (simp add: dict_rep_def)
    note sz = ht_rep_size[OF rep]
    have len: "length (concat bs0) \<le> MEM_MAX"
      using all_fresh_length[of m "concat bs0"] assms(1) full by (simp add: dict_rep_def)
    have us: "unat (ht_used (ht0 d)) = length (concat bs0)" by (rule dict_rep_used(1)[OF assms(1)])
    have u2: "unat (ht_used (ht0 d) * 2) = 2 * length (concat bs0)"
      using len us by (simp add: unat_word_ariths(2) MEM_MAX_def)
    have "ht_used (ht0 d) * 2 < LONG_MAX"
      using u2 len by (simp add: word_less_nat_alt unat_LONG_MAX MEM_MAX_def)
    from dictNextPower_pow2[OF this] obtain j where j: "2 \<le> j" "j \<le> 63"
      "dictNextPower (ht_used (ht0 d) * 2) = Some (2 ^ j)" "2 * length (concat bs0) \<le> 2 ^ j"
      "j = 2 \<or> 2 ^ (j - 1) < 2 * length (concat bs0)" unfolding u2 by blast
    have "j = 2 \<or> (2::nat) ^ (j - 1) < 2 ^ 49" using j(5) len by (auto simp: MEM_MAX_def)
    moreover have "(2::nat) ^ (j - 1) < 2 ^ 49 \<longleftrightarrow> j - 1 < 49"
      by (rule power_strict_increasing_iff) simp
    ultimately have "j = 2 \<or> j - 1 < 49" by blast
    then have j50: "j < 50" by auto
    have ne: "2 ^ j \<noteq> ht_size (ht0 d)"
    proof
      assume "2 ^ j = ht_size (ht0 d)"
      then have "unat (2 ^ j :: u64) = length bs0" using sz(1) by simp
      then have "2 ^ j = length bs0" using unat_pow2[of j] j50 by simp
      with full(3) j(4) sz(1,3) us show False by (simp add: word_le_nat_alt)
    qed
    from dictExpand_rep[OF _ assms(2) j(3,1) j50 ne] assms(1) full(2)
    have "\<exists>d' m' bs0' bs1'. dictExpand (ht_used (ht0 d) * 2) d m = Some (DICT_OK, d', m') \<and>
      dict_rep d' m' bs0' bs1' \<and> bs0' \<noteq> [] \<and> concat bs0' @ concat bs1' = concat bs0 \<and>
      entries m' = entries m \<and> strs m' = strs m \<and> mallocs m' = [] \<and> brk m' = Suc (brk m)" by simp
    moreover have "dictExpandIfNeeded d m = dictExpand (ht_used (ht0 d) * 2) d m"
      using full sz(5) dict_rep_rehashing[OF assms(1)]
      by (simp add: dictExpandIfNeeded_def dict_can_resize_def)
    ultimately show ?thesis using full by fastforce
  next
    case fits
    have rep: "ht_rep m (ht0 d) bs0" using assms(1) fits by (simp add: dict_rep_def)
    have "dictExpandIfNeeded d m = Some (DICT_OK, d, m)"
      using fits ht_rep_size(5)[OF rep] dict_rep_rehashing[OF assms(1)]
      by (simp add: dictExpandIfNeeded_def)
    then show ?thesis using fits(1) by (rule keep)
  qed
qed


lemma key_index_rep:
  assumes "dict_rep d m bs0 bs1" and "mem_room 1 m" and "cstr m key = Some k"
    and "int (length k) \<le> INT_MAX"
  shows "\<exists>d' m' bs0' bs1'. dictKeyIndex key d m =
      Some (if List.find (\<lambda>a. ekey m a = Some k) (concat bs0 @ concat bs1) = None
            then int (slot (if dictIsRehashing d' then ht1 d' else ht0 d') k) else -1, d', m') \<and>
    dict_rep d' m' bs0' bs1' \<and> bs0' \<noteq> [] \<and> concat bs0' @ concat bs1' = concat bs0 @ concat bs1 \<and>
    entries m' = entries m \<and> strs m' = strs m \<and> mallocs m' = [] \<and>
    brk m \<le> brk m' \<and> brk m' \<le> Suc (brk m)"
proof -
  obtain d' m' bs0' bs1' where ex: "dictExpandIfNeeded d m = Some (DICT_OK, d', m')"
    and rep: "dict_rep d' m' bs0' bs1'" "bs0' \<noteq> []"
    and same: "concat bs0' @ concat bs1' = concat bs0 @ concat bs1"
    and fr: "entries m' = entries m" "strs m' = strs m" "mallocs m' = []"
      "brk m \<le> brk m'" "brk m' \<le> Suc (brk m)"
    using expand_needed_rep[OF assms(1,2)] by blast
  have k: "cstr m' key = Some k" using assms(3) cstr_cong[OF fr(2)] by simp
  have ne: "DICT_OK \<noteq> DICT_ERR" by (simp add: DICT_OK_def DICT_ERR_def)
  note f = find_table[OF rep assms(4), unfolded ekey_frame[OF fr(1,2)]]
  have "dictKeyIndex key d m =
      Some (if List.find (\<lambda>a. ekey m a = Some k) (concat bs0' @ concat bs1') = None
            then int (slot (if dictIsRehashing d' then ht1 d' else ht0 d') k) else -1, d', m')"
    using ex k ne f dict_rep_rehashing[OF rep(1)]
    by (auto simp: dictKeyIndex_def find_append split: option.splits)
  then show ?thesis unfolding same using rep same fr by blast
qed

lemma absmap_iff:
  assumes "distinct (map (ekey m) as)"
  shows "absmap m as k = Some x \<longleftrightarrow>
    (\<exists>a \<in> set as. \<exists>e. entries m a = Some e \<and> cstr m (de_key e) = Some k \<and> x = (de_key e, de_val e))"
proof
  assume "absmap m as k = Some x"
  then show "\<exists>a \<in> set as. \<exists>e. entries m a = Some e \<and> cstr m (de_key e) = Some k \<and> x = (de_key e, de_val e)"
    by (fastforce simp: absmap_def ekey_def bind_eq_Some_conv split: option.splits
        dest!: find_SomeD)
next
  assume "\<exists>a \<in> set as. \<exists>e. entries m a = Some e \<and> cstr m (de_key e) = Some k \<and> x = (de_key e, de_val e)"
  then obtain a e where a: "a \<in> set as" "entries m a = Some e" "cstr m (de_key e) = Some k"
    "x = (de_key e, de_val e)" by blast
  then have ka: "ekey m a = Some k" by (simp add: ekey_def)
  with a(1) have "List.find (\<lambda>a. ekey m a = Some k) as \<noteq> None"
    unfolding find_None_iff by blast
  then obtain b where b: "List.find (\<lambda>a. ekey m a = Some k) as = Some b" by blast
  have "inj_on (ekey m) (set as)" using assms by (simp add: distinct_map)
  from inj_onD[OF this, of b a] have "b = a"
    using ka a(1) find_SomeD[OF b] by metis
  with b a show "absmap m as k = Some x" by (simp add: absmap_def)
qed

lemma absmap_None_iff:
  "absmap m as k = None \<longleftrightarrow> Some k \<notin> ekey m ` set as"
  unfolding absmap_find(1)[symmetric] find_None_iff by (auto simp: image_iff)

lemma set_concat_insert:
  "i < length bs \<Longrightarrow> set (concat (bs[i := a # bs ! i])) = insert a (set (concat bs))"
  using concat_update_Cons_perm[of i bs a] by (metis set_mset_add_mset_insert set_mset_mset)

lemma absmap_store:
  assumes "distinct (map (ekey m) as)" and "a \<notin> set as" and "set bs = insert a (set as)"
    and "cstr m key = Some k" and "Some k \<notin> ekey m ` set as"
    and "distinct bs"
  shows "absmap (store a \<lparr>de_key = key, de_val = v, de_next = p\<rparr> m) bs
      = (absmap m as)(k := Some (key, v))"
    and "distinct (map (ekey (store a \<lparr>de_key = key, de_val = v, de_next = p\<rparr> m)) bs)"
proof -
  let ?m = "store a \<lparr>de_key = key, de_val = v, de_next = p\<rparr> m"
  have inj: "inj_on (ekey ?m) (set bs)"
    using assms(1-5) unfolding assms(3)
    by (auto simp: inj_on_def ekey_store distinct_map image_iff dest: sym)
  with assms(6) show dist: "distinct (map (ekey ?m) bs)" by (simp add: distinct_map)
  have c: "cstr ?m = cstr m" by (rule cstr_cong) (simp add: store_def)
  show "absmap ?m bs = (absmap m as)(k := Some (key, v))"
  proof
    fix k'
    have "absmap ?m bs k' = Some x \<longleftrightarrow> ((absmap m as)(k := Some (key, v))) k' = Some x" for x
      unfolding absmap_iff[OF dist] c entries_store assms(3)
      using assms(2,4,5) absmap_iff[OF assms(1), of k' x]
      by (auto simp: ekey_def image_iff)
    then show "absmap ?m bs k' = ((absmap m as)(k := Some (key, v))) k'"
      by (metis not_Some_eq)
  qed
qed


text \<open>Insertion at the head of a bucket of one table keeps the whole representation.\<close>

lemma dict_rep_insert:
  fixes v :: ptr
  assumes rep: "dict_rep d m bs0 bs1" "bs0 \<noteq> []" and k: "cstr m key = Some k"
    and new: "Some k \<notin> ekey m ` set (concat bs0 @ concat bs1)" and room: "brk m < MEM_MAX"
    and H: "H = (if dictIsRehashing d then ht1 d else ht0 d)"
    and p: "tbl_get H (slot H k) = Some p"
  defines "m' \<equiv> store (brk m) \<lparr>de_key = key, de_val = v, de_next = p\<rparr> (m\<lparr>brk := Suc (brk m)\<rparr>)"
    and "H' \<equiv> (tbl_set (slot H k) (Some (brk m)) H)\<lparr>ht_used := ht_used H + 1\<rparr>"
  shows "dict_refines (if dictIsRehashing d then d\<lparr>ht1 := H'\<rparr> else d\<lparr>ht0 := H'\<rparr>) m'
           ((absmap m (concat bs0 @ concat bs1))(k := Some (key, v)))"
proof -
  let ?as = "concat bs0 @ concat bs1" and ?m = "m\<lparr>brk := Suc (brk m)\<rparr>"
    and ?e = "\<lparr>de_key = key, de_val = v, de_next = p\<rparr>"
  have rep': "dict_rep d ?m bs0 bs1" by (rule dict_rep_frame[OF rep(1)]) (use room in simp_all)
  have k': "cstr ?m key = Some k" using k cstr_cong[of ?m m] by simp
  have ek: "ekey ?m = ekey m" by (rule ekey_frame) simp_all
  have fresh: "all_fresh m ?as" using rep(1) by (simp add: dict_rep_def)
  then have a: "brk m \<notin> set ?as" by (auto simp: all_fresh_def)
  have dist: "distinct (map (ekey ?m) ?as)" "distinct ?as"
    using fresh unfolding ek all_fresh_def by (simp_all only: distinct_map)
  note r = dict_rep_rehashing[OF rep(1)]
  let ?i = "slot H k" and ?ins = "\<lambda>bs. bs[slot H k := brk m # bs ! slot H k]"
  define cs0 where "cs0 = (if bs1 = [] then ?ins bs0 else bs0)"
  define cs1 where "cs1 = (if bs1 = [] then bs1 else ?ins bs1)"
  have Hrep: "ht_rep ?m H (if bs1 = [] then bs0 else bs1)"
    using rep' rep(2) r by (simp add: dict_rep_def H)
  note lt = slot_less[OF Hrep, of k]
  have ins: "ht_rep m' H' (?ins (if bs1 = [] then bs0 else bs1))"
    unfolding m'_def H'_def
    by (rule ht_rep_insert[OF Hrep _ k' p]) (use a in auto)
  have sets: "set (concat cs0 @ concat cs1) = insert (brk m) (set ?as)"
    using lt set_concat_insert[of ?i bs0 "brk m"] set_concat_insert[of ?i bs1 "brk m"]
    unfolding cs0_def cs1_def by (cases "bs1 = []") (simp_all del: set_concat)
  have len: "length (concat cs0 @ concat cs1) = Suc (length ?as)"
    using lt length_concat_update[of ?i bs0 "brk m # bs0 ! ?i"]
      length_concat_update[of ?i bs1 "brk m # bs1 ! ?i"]
    unfolding cs0_def cs1_def by (cases "bs1 = []") simp_all
  have dcs: "distinct (concat cs0 @ concat cs1)"
    using sets len a dist(2) by (metis card_distinct card_insert_disjoint distinct_card
        finite_set)
  note st = absmap_store[OF dist(1) a sets k' _ dcs, folded m'_def]
  have new': "Some k \<notin> ekey ?m ` set ?as" using new unfolding ek .
  have oth: "bs1 \<noteq> [] \<Longrightarrow> ht_rep m' (ht0 d) bs0"
    unfolding m'_def by (rule ht_rep_store_other) (use rep' rep(2) a in \<open>auto simp: dict_rep_def\<close>)
  have "all_fresh m' (concat cs0 @ concat cs1)"
    using st(2)[OF new'] fresh room unfolding all_fresh_def sets
    by (auto simp: m'_def store_def less_Suc_eq)
  moreover have "cs0 \<noteq> []" using rep(2) by (simp add: cs0_def)
  moreover have "bs1 \<noteq> [] \<longleftrightarrow> cs1 \<noteq> []" by (simp add: cs1_def)
  ultimately have "dict_rep (if dictIsRehashing d then d\<lparr>ht1 := H'\<rparr> else d\<lparr>ht0 := H'\<rparr>) m' cs0 cs1"
    using ins oth rep(2) rep(1) r unfolding dict_rep_def
    by (cases "bs1 = []") (simp_all add: cs0_def cs1_def)
  moreover have "absmap m' (concat cs0 @ concat cs1) = (absmap m ?as)(k := Some (key, v))"
    using st(1)[OF new'] absmap_frame[of ?m m ?as] by (simp add: m'_def)
  ultimately show ?thesis unfolding dict_refines_def by metis
qed


subsection \<open>The operations refine an abstract map\<close>

definition key_at :: "dmem \<Rightarrow> ptr \<Rightarrow> byte list \<Rightarrow> bool" where
  "key_at m p k \<longleftrightarrow> cstr m p = Some k \<and> int (length k) \<le> INT_MAX"

lemma dictCreate_refines:
  assumes "mem_room 1 m"
  shows "\<exists>d m'. dictCreate m = (Some d, m') \<and> dict_refines d m' Map.empty \<and>
    strs m' = strs m \<and> mallocs m' = [] \<and> brk m' = Suc (brk m)"
proof -
  have "dict_rep dictInit (m\<lparr>brk := Suc (brk m), mallocs := []\<rparr>) [] []"
    using assms by (simp add: dict_rep_def all_fresh_def mem_room_def)
  moreover have "absmap (m\<lparr>brk := Suc (brk m), mallocs := []\<rparr>) [] = Map.empty"
    by (rule ext) (simp add: absmap_def)
  ultimately have "dict_refines dictInit (m\<lparr>brk := Suc (brk m), mallocs := []\<rparr>) Map.empty"
    unfolding dict_refines_def by (metis append_Nil concat.simps(1))
  with assms show ?thesis
    by (auto simp: dictCreate_def malloc_def alloc_ok_def mem_room_def)
qed

lemma dictGet_refines:
  assumes "dict_refines d m f" and "key_at m key k"
  shows "\<exists>p d'. dictGet key d m = Some (p, d', m) \<and> dict_refines d' m f \<and>
    (case f k of None \<Rightarrow> p = NULL
     | Some (kp, v) \<Rightarrow> \<exists>e. deref m p = Some e \<and> de_key e = kp \<and> de_val e = v)"
proof -
  obtain bs0 bs1 where rep: "dict_rep d m bs0 bs1"
    and f: "f = absmap m (concat bs0 @ concat bs1)"
    using assms(1) by (auto simp: dict_refines_def)
  obtain d' bs0' bs1' where g: "dictGet key d m =
      Some (List.find (\<lambda>a. ekey m a = Some k) (concat bs0 @ concat bs1), d', m)"
    and rep': "dict_rep d' m bs0' bs1'" "concat bs0' @ concat bs1' = concat bs0 @ concat bs1"
    using dictGet_rep[OF rep, of key k] assms(2) by (auto simp: key_at_def)
  have "dict_refines d' m f" unfolding dict_refines_def f using rep' by metis
  moreover have "case f k of None \<Rightarrow> List.find (\<lambda>a. ekey m a = Some k) (concat bs0 @ concat bs1) = NULL
     | Some (kp, v) \<Rightarrow> \<exists>e. deref m (List.find (\<lambda>a. ekey m a = Some k) (concat bs0 @ concat bs1)) =
         Some e \<and> de_key e = kp \<and> de_val e = v"
    using absmap_find[of m k "concat bs0 @ concat bs1"] unfolding f
    by (cases "List.find (\<lambda>a. ekey m a = Some k) (concat bs0 @ concat bs1)")
      (fastforce simp: deref_def split: option.splits)+
  ultimately show ?thesis using g by blast
qed

lemma dictAdd_refines:
  assumes "dict_refines d m f" and "key_at m key k" and "mem_room 2 m"
  shows "\<exists>d' m'. dictAdd key v d m = Some (if f k = None then DICT_OK else DICT_ERR, d', m') \<and>
    dict_refines d' m' (if f k = None then f(k := Some (key, v)) else f) \<and>
    strs m' = strs m \<and> mallocs m' = [] \<and> brk m' \<le> brk m + 2"
proof -
  obtain bs0 bs1 where rep: "dict_rep d m bs0 bs1"
    and f: "f = absmap m (concat bs0 @ concat bs1)"
    using assms(1) by (auto simp: dict_refines_def)
  have k: "cstr m key = Some k" "int (length k) \<le> INT_MAX"
    using assms(2) by (auto simp: key_at_def)
  have room: "mem_room 1 m" using assms(3) by (simp add: mem_room_def)
  obtain d1 cs0 cs1 where step:
    "(if dictIsRehashing d then dictRehashStep d m else Some (d, m)) = Some (d1, m)"
    "dict_rep d1 m cs0 cs1" "concat cs0 @ concat cs1 = concat bs0 @ concat bs1"
    using rehash_step_rep[OF rep] by blast
  obtain d2 m2 es0 es1 where ki: "dictKeyIndex key d1 m =
      Some (if List.find (\<lambda>a. ekey m a = Some k) (concat cs0 @ concat cs1) = None
            then int (slot (if dictIsRehashing d2 then ht1 d2 else ht0 d2) k) else -1, d2, m2)"
    and rep2: "dict_rep d2 m2 es0 es1" "es0 \<noteq> []"
    and same: "concat es0 @ concat es1 = concat cs0 @ concat cs1"
    and fr: "entries m2 = entries m" "strs m2 = strs m" "mallocs m2 = []"
      "brk m \<le> brk m2" "brk m2 \<le> Suc (brk m)"
    using key_index_rep[OF step(2) room k] by blast
  have f2: "f = absmap m2 (concat es0 @ concat es1)"
    unfolding f same step(3) by (rule absmap_frame[OF fr(1,2), symmetric])
  have fk: "List.find (\<lambda>a. ekey m a = Some k) (concat cs0 @ concat cs1) = None \<longleftrightarrow> f k = None"
    unfolding f step(3) by (rule absmap_find(1))
  note ki' = ki[unfolded fk]
  show ?thesis
  proof (cases "f k = None")
    case False
    then have "dictAdd key v d m = Some (DICT_ERR, d2, m2)"
      by (auto simp: dictAdd_def step(1) ki')
    moreover have "dict_refines d2 m2 f" unfolding dict_refines_def using rep2(1) f2 by blast
    ultimately show ?thesis using False fr by auto
  next
    case True
    let ?H = "if dictIsRehashing d2 then ht1 d2 else ht0 d2"
    have Hrep: "ht_rep m2 ?H (if es1 = [] then es0 else es1)"
      using rep2 dict_rep_rehashing[OF rep2(1)] by (simp add: dict_rep_def)
    obtain p where p: "tbl_get ?H (slot ?H k) = Some p"
      using tbl_get_rep[OF Hrep slot_less[OF Hrep]] by blast
    have room2: "brk m2 < MEM_MAX" and m2: "alloc_ok m2" "tl (mallocs m2) = mallocs m2"
      using assms(3) fr by (auto simp: mem_room_def alloc_ok_def)
    let ?m = "store (brk m2) \<lparr>de_key = key, de_val = v, de_next = p\<rparr> (m2\<lparr>brk := Suc (brk m2)\<rparr>)"
      and ?H' = "(tbl_set (slot ?H k) (Some (brk m2)) ?H)\<lparr>ht_used := ht_used ?H + 1\<rparr>"
    have k2: "cstr m2 key = Some k" using k(1) cstr_cong[OF fr(2)] by simp
    have new: "Some k \<notin> ekey m2 ` set (concat es0 @ concat es1)"
      using True unfolding f2 absmap_None_iff .
    have hu: "ht_used (tbl_set i q H) = ht_used H" for i q H by (simp add: tbl_set_def)
    have "dictAdd key v d m =
        Some (DICT_OK, if dictIsRehashing d2 then d2\<lparr>ht1 := ?H'\<rparr> else d2\<lparr>ht0 := ?H'\<rparr>, ?m)"
      using True p m2 by (simp add: dictAdd_def step(1) ki' malloc_def Let_def hu)
    moreover note dict_rep_insert[OF rep2 k2 new room2 refl p, of v, folded f2]
    moreover have "strs ?m = strs m" "mallocs ?m = []" "brk ?m \<le> brk m + 2"
      using fr by (simp_all add: store_def)
    ultimately show ?thesis using True by auto
  qed
qed

subsection \<open>Sizes and hashes\<close>

text \<open>
  \<open>_dictNextPower\<close> returns for every 64-bit argument, always a power of two between 4 and
  \<open>2 ^ 63\<close>; below \<open>LONG_MAX\<close> it is the least such power that is not smaller than the argument.
\<close>

theorem dictNextPower_least:
  "\<exists>j. 2 \<le> j \<and> j \<le> 63 \<and> dictNextPower sz = Some (2 ^ j) \<and>
     (sz < LONG_MAX \<longrightarrow> unat sz \<le> 2 ^ j \<and> (\<forall>i \<ge> 2. unat sz \<le> 2 ^ i \<longrightarrow> j \<le> i))"
proof (cases "sz < LONG_MAX")
  case True
  from dictNextPower_pow2[OF this] obtain j where j: "2 \<le> j" "j \<le> 63"
    "dictNextPower sz = Some (2 ^ j)" "unat sz \<le> 2 ^ j" "j = 2 \<or> 2 ^ (j - 1) < unat sz" by blast
  have "j \<le> i" if "2 \<le> i" "unat sz \<le> 2 ^ i" for i
  proof (rule ccontr)
    assume "\<not> j \<le> i"
    then have "i \<le> j - 1" and "j \<noteq> 2" using that by auto
    then have "(2::nat) ^ i \<le> 2 ^ (j - 1)" by (simp add: power_increasing)
    with j(5) \<open>j \<noteq> 2\<close> that(2) show False by linarith
  qed
  with j show ?thesis by blast
next
  case False
  then have "dictNextPower sz = Some (2 ^ 63)"
    by (simp add: dictNextPower_def not_less LONG_MAX_Suc[simplified])
  with False show ?thesis by (intro exI[of _ 63]) simp
qed

theorem dictNextPower_least_witness:
  "dictNextPower 5 = Some 8 \<and> (5::u64) < LONG_MAX \<and>
   (\<exists>j. dictNextPower 5 = Some (2 ^ j) \<and> unat (5::u64) \<le> 2 ^ j \<and>
      (\<forall>i \<ge> 2. unat (5::u64) \<le> 2 ^ i \<longrightarrow> j \<le> i))"
proof -
  have lt: "(5::u64) < LONG_MAX" by (simp add: LONG_MAX_def word_less_nat_alt)
  have "dictNextPower 5 = Some 8"
    by (simp add: dictNextPower_def DICT_HT_INITIAL_SIZE_def LONG_MAX_def nextPowerLoop.simps
        word_le_nat_alt)
  with lt dictNextPower_least[of 5] show ?thesis by blast
qed

definition hash_poly :: "byte list \<Rightarrow> nat" where
  "hash_poly k = (\<Sum>i < length k. unat (k ! i) * 33 ^ (length k - 1 - i))"

lemma hash_poly_Cons: "hash_poly (b # k) = unat b * 33 ^ length k + hash_poly k"
  by (simp add: hash_poly_def sum.lessThan_Suc_shift del: sum.lessThan_Suc)

lemma unat_hash_step:
  "unat (push_bit 5 h + h + ucast b :: u32) = (unat h * 33 + unat (b :: byte)) mod 2 ^ 32"
proof -
  have "push_bit 5 h + h + ucast b = (of_nat (unat h * 33 + unat b) :: u32)"
    by (simp add: push_bit_eq_mult)
  then show ?thesis by (simp only: unat_of_nat) simp
qed

lemma genHashLoop_poly:
  "unat (genHashLoop h k) = (unat h * 33 ^ length k + hash_poly k) mod 2 ^ 32"
proof (induction k arbitrary: h)
  case Nil
  have "unat h < 2 ^ LENGTH(32)" by (rule unsigned_less)
  then show ?case by (simp add: hash_poly_def)
next
  case (Cons b k)
  have "unat (genHashLoop h (b # k)) =
      ((unat h * 33 + unat b) mod 2 ^ 32 * 33 ^ length k + hash_poly k) mod 2 ^ 32"
    by (simp only: genHashLoop.simps Cons.IH unat_hash_step)
  also have "\<dots> = ((unat h * 33 + unat b) * 33 ^ length k + hash_poly k) mod 2 ^ 32"
    by (metis mod_add_left_eq mod_mult_left_eq)
  also have "\<dots> = (unat h * 33 ^ length (b # k) + hash_poly (b # k)) mod 2 ^ 32"
    by (simp add: hash_poly_Cons algebra_simps)
  finally show ?case .
qed

text \<open>
  \<open>_dictGenHash\<close> is the polynomial hash of base 33 with seed 5381, reduced modulo \<open>2 ^ 32\<close>:
  the wrap-around of the 32-bit accumulator never makes it depend on the order of the reductions.
\<close>

theorem dictGenHash_poly:
  "unat (dictGenHash k) =
     (5381 * 33 ^ length k + (\<Sum>i < length k. unat (k ! i) * 33 ^ (length k - 1 - i))) mod 2 ^ 32"
  by (simp add: dictGenHash_def genHashLoop_poly hash_poly_def)

subsection \<open>A sample memory\<close>

text \<open>Forty one-letter strings: the addresses \<open>a\<close> and \<open>a + 20\<close> hold the same content.\<close>

definition demo_mem :: dmem where
  "demo_mem = \<lparr>entries = (\<lambda>_. None),
     strs = (\<lambda>a. if a < 40 then Some [word_of_nat (97 + a mod 20)] else None),
     brk = 100, mallocs = []\<rparr>"

lemmas dict_eval = dictCreate_def malloc_def alloc_ok_def demo_mem_def MEM_MAX_def dictInit_def
  dictReset_def dictAdd_def dictGet_def dictSize_def dictIsRehashing_def dictKeyIndex_def
  dictExpandIfNeeded_def dictExpand_def calloc_def dictNextPower_def DICT_HT_INITIAL_SIZE_def
  LONG_MAX_def nextPowerLoop.simps DICT_OK_def DICT_ERR_def dict_can_resize_def ht_find_def
  strlen_int_def INT_MAX_def tbl_get_def tbl_set_def slot_def dictGenHash_def chain_find.simps
  deref_def cstr_def store_def dictRehashStep_def dictRehash_1 word_le_nat_alt

lemma demo_mem_room: "n \<le> 1000 \<Longrightarrow> mem_room n demo_mem"
  by (simp add: mem_room_def demo_mem_def MEM_MAX_def)

lemma demo_mem_key: "a < 40 \<Longrightarrow> key_at demo_mem (Some a) [word_of_nat (97 + a mod 20)]"
  by (simp add: key_at_def demo_mem_def cstr_def INT_MAX_def)

end
