(* ===== verification/Dict_Delete.thy ===== *)
theory Dict_Delete
  imports Dict_Refinement
begin

text \<open>
  Deletion (\<^verbatim>\<open>dictDel\<close> of \<^verbatim>\<open>lib/dict.c\<close>) while no rehash is in progress.
\<close>

definition kptr :: "dmem \<Rightarrow> addr \<Rightarrow> ptr option" where
  "kptr m a = map_option de_key (entries m a)"

lemma del_walk_miss:
  assumes "chain (entries m) p as" and "\<forall>a \<in> set as. kptr m a \<noteq> Some key"
  shows "del_walk m key prev p = Some (if as = [] then prev else Some (last as), NULL)"
  using assms
proof (induction as arbitrary: p prev)
  case Nil
  then show ?case by (simp add: del_walk.simps)
next
  case (Cons a as)
  then show ?case by (subst del_walk.simps) (auto simp: deref_def kptr_def)
qed

lemma del_walk_hit:
  assumes "chain (entries m) p (xs @ a # ys)" and "\<forall>b \<in> set xs. kptr m b \<noteq> Some key"
    and "kptr m a = Some key"
  shows "del_walk m key prev p = Some (if xs = [] then prev else Some (last xs), Some a)"
  using assms
proof (induction xs arbitrary: p prev)
  case Nil
  then show ?case by (subst del_walk.simps) (auto simp: deref_def kptr_def)
next
  case (Cons b xs)
  then show ?case by (subst del_walk.simps) (auto simp: deref_def kptr_def)
qed

lemma chain_split:
  "chain E p (xs @ a # ys) \<Longrightarrow>
     \<exists>e. E a = Some e \<and> chain E (Some a) (a # ys) \<and> chain E (de_next e) ys"
  by (induction xs arbitrary: p) auto

text \<open>Taking a cell out behind its predecessor.\<close>

lemma chain_unlink_mid:
  assumes "chain E p (xs @ q # a # ys)" and "distinct (xs @ q # a # ys)"
    and "E a = Some e" and "E q = Some pe"
  shows "chain (E(q := Some (pe\<lparr>de_next := de_next e\<rparr>), a := None)) p (xs @ q # ys)"
  using assms by (induction xs arbitrary: p) auto

lemma bucket_distinct:
  assumes "distinct (concat bs)" and "i < length bs"
  shows "distinct (bs ! i)"
  using assms by (simp add: distinct_concat_iff)

lemma bucket_disjoint:
  assumes "ht_rep m H bs" and "i < length bs" and "j < length bs" and "i \<noteq> j"
  shows "set (bs ! i) \<inter> set (bs ! j) = {}"
proof (rule ccontr)
  assume "set (bs ! i) \<inter> set (bs ! j) \<noteq> {}"
  then obtain a where a: "a \<in> set (bs ! i)" "a \<in> set (bs ! j)" by blast
  obtain k k' where "ekey m a = Some k" "slot H k = i" "ekey m a = Some k'" "slot H k' = j"
    using ht_rep_bucket[OF assms(1,2) a(1)] ht_rep_bucket[OF assms(1,3) a(2)] by metis
  with assms(4) show False by simp
qed

definition kv :: "dmem \<Rightarrow> addr \<Rightarrow> (ptr \<times> ptr) option" where
  "kv m a = map_option (\<lambda>e. (de_key e, de_val e)) (entries m a)"

lemma ekey_kv: "ekey m a = Option.bind (kv m a) (\<lambda>(k, v). cstr m k)"
  by (cases "entries m a") (simp_all add: ekey_def kv_def)

lemma absmap_kv: "absmap m as k = Option.bind (List.find (\<lambda>a. ekey m a = Some k) as) (kv m)"
  by (simp add: absmap_def kv_def split: option.splits)

lemma kv_unlink:
  "entries m q = Some pe \<Longrightarrow> b \<noteq> a \<Longrightarrow>
     kv (free a (store q (pe\<lparr>de_next := n\<rparr>) m)) b = kv m b"
  by (auto simp: kv_def free_def store_def)

lemma concat_update_remove:
  assumes "i < length bs" and "bs ! i = xs @ a # ys"
  shows "mset (concat bs) = add_mset a (mset (concat (bs[i := xs @ ys])))"
  using assms
proof (induction bs arbitrary: i)
  case (Cons b bs)
  then show ?case by (cases i) auto
qed simp

lemma ht_rep_unlink:
  assumes rep: "ht_rep m H bs" and dist: "distinct (concat bs)" and i: "i < length bs"
    and b: "bs ! i = xs @ a # ys"
  shows "\<exists>H' m'. unlink (if xs = [] then NULL else Some (last xs)) a i H m = Some (H', m') \<and>
    ht_rep m' H' (bs[i := xs @ ys]) \<and> (\<forall>c. c \<noteq> a \<longrightarrow> kv m' c = kv m c) \<and>
    strs m' = strs m \<and> mallocs m' = mallocs m \<and> brk m' = brk m"
proof -
  obtain t where t: "ht_table H = Some t" "length t = length bs"
    and ch: "\<And>j. j < length bs \<Longrightarrow> chain (entries m) (t ! j) (bs ! j)"
    using rep by (auto simp: ht_rep_def)
  note chi = ch[OF i, unfolded b]
  have di: "distinct (xs @ a # ys)" using bucket_distinct[OF dist i] b by simp
  obtain e where e: "entries m a = Some e" "chain (entries m) (de_next e) ys"
    using chain_split[OF chi] by blast
  have other: "a \<notin> set (bs ! j) \<and> (\<forall>q \<in> set xs. q \<notin> set (bs ! j))" if "j < length bs" "j \<noteq> i" for j
    using bucket_disjoint[OF rep i that(1)] that(2) b by auto
  have len: "length (concat bs) = Suc (length (concat (bs[i := xs @ ys])))"
    using length_concat_update[OF i, of "xs @ ys"] b by simp
  have used: "ht_used H - 1 = of_nat (length (concat (bs[i := xs @ ys])))"
    using rep unfolding ht_rep_def len by simp
  have finish: "ht_rep m' H' (bs[i := xs @ ys])"
    if H': "ht_table H' = Some t'" "length t' = length t" "ht_size H' = ht_size H"
        "ht_mask H' = ht_mask H" "ht_used H' = ht_used H - 1"
      and ch': "\<And>j. j < length bs \<Longrightarrow> chain (entries m') (t' ! j) (bs[i := xs @ ys] ! j)"
      and kv': "\<And>c. c \<noteq> a \<Longrightarrow> kv m' c = kv m c" and st: "strs m' = strs m" for m' H' t'
  proof -
    have sl: "slot H' k = slot H k" for k by (simp add: slot_def H'(4))
    have "\<exists>k. ekey m' c = Some k \<and> slot H' k = j"
      if j: "j < length bs" "c \<in> set (bs[i := xs @ ys] ! j)" for j c
    proof -
      have c: "c \<in> set (bs ! j)" "c \<noteq> a"
        using j b i other[of j] di by (cases "j = i"; auto)+
      obtain k where "ekey m c = Some k" "slot H k = j" by (rule ht_rep_bucket[OF rep j(1) c(1)])
      with c(2) show ?thesis by (simp add: ekey_kv kv' cstr_cong[OF st] sl)
    qed
    with rep ch' H' t(2) used show ?thesis unfolding ht_rep_def by simp
  qed
  show ?thesis
  proof (cases "xs = []")
    case True
    let ?H = "(tbl_set i (de_next e) H)\<lparr>ht_used := ht_used H - 1\<rparr>" and ?m = "free a m"
    have u: "unlink NULL a i H m = Some (?H, ?m)"
      using e(1) by (simp add: unlink_def deref_def tbl_set_def)
    have "ht_rep ?m ?H (bs[i := xs @ ys])"
    proof (rule finish[where t' = "t[i := de_next e]"])
      fix j assume j: "j < length bs"
      show "chain (entries ?m) (t[i := de_next e] ! j) (bs[i := xs @ ys] ! j)"
        using ch[OF j] other[OF j] e(2) di True t(2) i
        by (cases "j = i") (auto simp: free_def)
    qed (use t in \<open>auto simp: tbl_set_def free_def kv_def\<close>)
    with u True show ?thesis by (auto simp: free_def kv_def)
  next
    case False
    then obtain zs q where xs: "xs = zs @ [q]" by (meson rev_exhaust)
    have "chain (entries m) (t ! i) (zs @ q # a # ys)" using chi xs by simp
    then obtain pe where pe: "entries m q = Some pe" using chain_split by blast
    let ?H = "H\<lparr>ht_used := ht_used H - 1\<rparr>" and ?m = "free a (store q (pe\<lparr>de_next := de_next e\<rparr>) m)"
    have u: "unlink (Some q) a i H m = Some (?H, ?m)"
      using e(1) pe by (simp add: unlink_def deref_def)
    have kv': "c \<noteq> a \<Longrightarrow> kv ?m c = kv m c" for c by (rule kv_unlink[OF pe])
    have em: "entries ?m = (entries m)(q := Some (pe\<lparr>de_next := de_next e\<rparr>), a := None)"
      by (simp add: free_def store_def)
    have "ht_rep ?m ?H (bs[i := xs @ ys])"
    proof (rule finish[where t' = t])
      fix j assume j: "j < length bs"
      show "chain (entries ?m) (t ! j) (bs[i := xs @ ys] ! j)"
        using ch[OF j] other[OF j] chain_unlink_mid[of "entries m" "t ! i" zs q a ys e pe]
          chi di e(1) pe i xs unfolding em by (cases "j = i") auto
    qed (use t kv' in \<open>auto simp: free_def store_def\<close>)
    with u xs kv' show ?thesis by (auto simp: free_def store_def)
  qed
qed

lemma kptr_kv: "kptr m a = map_option fst (kv m a)"
  by (cases "entries m a") (simp_all add: kptr_def kv_def)

lemma kptr_ekey: "kptr m a = Some key \<Longrightarrow> cstr m key = Some k \<Longrightarrow> ekey m a = Some k"
  by (auto simp: kptr_def ekey_def)

lemma find_distinct:
  assumes "distinct (map (ekey m) as)" and "a \<in> set as" and "ekey m a = Some k"
  shows "List.find (\<lambda>a. ekey m a = Some k) as = Some a"
proof -
  have "List.find (\<lambda>a. ekey m a = Some k) as \<noteq> None"
    unfolding find_None_iff using assms(2,3) by blast
  then obtain b where b: "List.find (\<lambda>a. ekey m a = Some k) as = Some b" by blast
  have "inj_on (ekey m) (set as)" using assms(1) by (simp add: distinct_map)
  from inj_onD[OF this, of b a] have "b = a" using assms(2,3) find_SomeD[OF b] by metis
  with b show ?thesis by simp
qed

text \<open>Removing one cell from the list of entries removes its key from the map.\<close>

lemma absmap_remove:
  assumes dist: "distinct (map (ekey m) as)" and a: "mset as = add_mset a (mset bs)"
    and k: "ekey m a = Some k" and kv': "\<forall>c. c \<noteq> a \<longrightarrow> kv m' c = kv m c" and st: "strs m' = strs m"
  shows "absmap m' bs = (absmap m as)(k := None)" and "distinct (map (ekey m') bs)"
proof -
  have sets: "set as = insert a (set bs)" using a by (metis set_mset_add_mset_insert set_mset_mset)
  have "distinct as" using dist by (simp add: distinct_map)
  moreover have "mset (a # bs) = mset as" using a by simp
  ultimately have dab: "distinct (a # bs)" by (metis mset_eq_imp_distinct_iff)
  then have ek: "ekey m' c = ekey m c" if "c \<in> set bs" for c
    using that kv' by (auto simp: ekey_kv cstr_cong[OF st])
  have inj: "inj_on (ekey m) (insert a (set bs))" using dist sets by (simp add: distinct_map)
  have "distinct (map (ekey m) bs)"
    using dab inj by (auto simp: distinct_map intro: inj_on_subset)
  then show dist': "distinct (map (ekey m') bs)" using ek by (simp cong: map_cong)
  have kb: "ekey m c \<noteq> Some k" if "c \<in> set bs" for c
    using inj_onD[OF inj, of c a] k that dab by auto
  show "absmap m' bs = (absmap m as)(k := None)"
  proof
    fix k'
    show "absmap m' bs k' = ((absmap m as)(k := None)) k'"
    proof (cases "\<exists>c \<in> set bs. ekey m c = Some k'")
      case True
      then obtain c where c: "c \<in> set bs" "ekey m c = Some k'" by blast
      then have "k' \<noteq> k" "c \<noteq> a" "c \<in> set as" using kb dab sets by auto
      with c find_distinct[OF dist _ c(2)] find_distinct[OF dist' c(1), of k'] ek kv'
      show ?thesis by (simp add: absmap_kv)
    next
      case False
      then have "absmap m' bs k' = None" unfolding absmap_None_iff using ek by (force simp: image_iff)
      moreover have "k' \<noteq> k \<Longrightarrow> absmap m as k' = None"
        unfolding absmap_None_iff sets using False k by (auto simp: image_iff)
      ultimately show ?thesis by simp
    qed
  qed
qed

text \<open>The two cases of a table that is not empty: the walk of the bucket meets the key pointer, or not.\<close>

lemma dictDel_hit:
  assumes rep: "dict_rep d m bs []" and ne: "dictSize d \<noteq> 0" "bs \<noteq> []"
    and k: "cstr m key = Some k" "int (length k) \<le> INT_MAX"
    and hit: "\<exists>a \<in> set (bs ! slot (ht0 d) k). kptr m a = Some key"
  shows "\<exists>a d' m'. dictDel key d m = Some (Some a, d', m') \<and>
    dict_refines d' m' ((absmap m (concat bs))(k := None)) \<and> deref m' (Some a) = None \<and>
    (\<exists>e. deref m (Some a) = Some e \<and> de_key e = key \<and> absmap m (concat bs) k = Some (de_key e, de_val e))"
proof -
  let ?i = "slot (ht0 d) k"
  have H: "ht_rep m (ht0 d) bs" and nr: "\<not> dictIsRehashing d" and fresh: "all_fresh m (concat bs)"
    using rep ne(2) dict_rep_rehashing[OF rep] by (simp_all add: dict_rep_def)
  then have dist: "distinct (map (ekey m) (concat bs))" "distinct (concat bs)"
    by (simp_all only: all_fresh_def distinct_map)
  note lt = slot_less[OF H, of k]
  obtain p where p: "tbl_get (ht0 d) ?i = Some p" "chain (entries m) p (bs ! ?i)"
    using tbl_get_rep[OF H lt] by blast
  obtain xs a ys where sp: "bs ! ?i = xs @ a # ys" "kptr m a = Some key" "\<forall>b \<in> set xs. kptr m b \<noteq> Some key"
    using split_list_first_prop[OF hit] by blast
  obtain H' m' where u: "unlink (if xs = [] then NULL else Some (last xs)) a ?i (ht0 d) m = Some (H', m')"
    and H': "ht_rep m' H' (bs[?i := xs @ ys])"
    and fr: "\<forall>c. c \<noteq> a \<longrightarrow> kv m' c = kv m c" "strs m' = strs m" "brk m' = brk m"
    using ht_rep_unlink[OF H dist(2) lt sp(1)] by blast
  have del: "dictDel key d m = Some (Some a, d\<lparr>ht0 := H'\<rparr>, m')"
    using ne nr k p(1) u del_walk_hit[OF p(2)[unfolded sp(1)] sp(3,2), of NULL]
    by (simp add: dictDel_def strlen_int_def)
  note ms = concat_update_remove[OF lt sp(1)]
  have sets: "set (concat bs) = insert a (set (concat (bs[?i := xs @ ys])))"
    using ms by (metis set_mset_add_mset_insert set_mset_mset)
  have ka: "ekey m a = Some k" by (rule kptr_ekey[OF sp(2) k(1)])
  note rem = absmap_remove[OF dist(1) ms ka fr(1,2)]
  have "all_fresh m' (concat (bs[?i := xs @ ys]))"
    using fresh rem(2) fr(3) sets unfolding all_fresh_def by auto
  moreover have "ht1 d = dictReset" "rehashidx d = -1" using rep ne(2) by (auto simp: dict_rep_def)
  ultimately have "dict_rep (d\<lparr>ht0 := H'\<rparr>) m' (bs[?i := xs @ ys]) []"
    using H' ne(2) by (simp add: dict_rep_def)
  then have "dict_refines (d\<lparr>ht0 := H'\<rparr>) m' ((absmap m (concat bs))(k := None))"
    unfolding dict_refines_def using rem(1) by (metis append_Nil2 concat.simps(1))
  moreover have "a \<in> set (concat bs)" using sets by blast
  from find_distinct[OF dist(1) this ka] have "absmap m (concat bs) k = kv m a" by (simp add: absmap_kv)
  moreover obtain e where "entries m a = Some e" "de_key e = key" using sp(2) by (auto simp: kptr_def)
  moreover have "deref m' (Some a) = None" using u
    by (auto simp: unlink_def deref_def free_def bind_eq_Some_conv)
  ultimately show ?thesis using del by (auto simp: kv_def deref_def)
qed

lemma dictDel_miss:
  assumes rep: "dict_rep d m bs []" and ne: "dictSize d \<noteq> 0" "bs \<noteq> []"
    and k: "cstr m key = Some k" "int (length k) \<le> INT_MAX"
    and miss: "\<not> (\<exists>a \<in> set (bs ! slot (ht0 d) k). kptr m a = Some key)"
  shows "dictDel key d m = Some (NULL, d, m)" and "absmap m (concat bs) k \<noteq> Some (key, v)"
proof -
  let ?i = "slot (ht0 d) k"
  have H: "ht_rep m (ht0 d) bs" and nr: "\<not> dictIsRehashing d"
    using rep ne(2) dict_rep_rehashing[OF rep] by (simp_all add: dict_rep_def)
  obtain p where p: "tbl_get (ht0 d) ?i = Some p" "chain (entries m) p (bs ! ?i)"
    using tbl_get_rep[OF H slot_less[OF H, of k]] by blast
  have "\<forall>a \<in> set (bs ! ?i). kptr m a \<noteq> Some key" using miss by blast
  from del_walk_miss[OF p(2) this, of NULL] show "dictDel key d m = Some (NULL, d, m)"
    using ne nr k p(1) by (auto simp: dictDel_def strlen_int_def)
  show "absmap m (concat bs) k \<noteq> Some (key, v)"
  proof
    assume "absmap m (concat bs) k = Some (key, v)"
    then obtain a where a: "a \<in> set (concat bs)" "ekey m a = Some k" "kv m a = Some (key, v)"
      by (auto simp: absmap_kv bind_eq_Some_conv dest!: find_SomeD)
    from a(1) obtain j where j: "j < length bs" "a \<in> set (bs ! j)" unfolding in_concat_nth by blast
    obtain k' where "ekey m a = Some k'" "slot (ht0 d) k' = j" by (rule ht_rep_bucket[OF H j])
    with a(2) miss j a(3) show False by (auto simp: kptr_kv)
  qed
qed

lemma dictDel_result:
  assumes ref: "dict_refines d m f" and nr: "\<not> dictIsRehashing d" and key: "key_at m key k"
  shows "\<exists>p d' m'. dictDel key d m = Some (p, d', m') \<and>
    (if \<exists>v. f k = Some (key, v)
     then dict_refines d' m' (f(k := None)) \<and>
          (\<exists>e. deref m p = Some e \<and> f k = Some (de_key e, de_val e)) \<and> deref m' p = None
     else p = NULL \<and> d' = d \<and> m' = m)"
proof -
  obtain bs0 bs1 where rep: "dict_rep d m bs0 bs1" and f: "f = absmap m (concat bs0 @ concat bs1)"
    using ref by (auto simp: dict_refines_def)
  have b1: "bs1 = []" using dict_rep_rehashing[OF rep] nr by simp
  have k: "cstr m key = Some k" "int (length k) \<le> INT_MAX" using key by (auto simp: key_at_def)
  show ?thesis
  proof (cases "dictSize d = 0")
    case True
    then have "f k = None" using dictSize_0[OF rep] b1 unfolding f absmap_None_iff by auto
    with True show ?thesis by (simp add: dictDel_def)
  next
    case False
    moreover from this have "bs0 \<noteq> []" using dictSize_0[OF rep] b1 by auto
    ultimately show ?thesis
      using dictDel_hit[OF rep[unfolded b1] _ _ k] dictDel_miss[OF rep[unfolded b1] _ _ k]
      by (cases "\<exists>a \<in> set (bs0 ! slot (ht0 d) k). kptr m a = Some key") (fastforce simp: f b1)+
  qed
qed


text \<open>
  C16.  While no rehash is in progress, \<open>dictDel\<close> removes the entry stored under exactly this key
  pointer and nothing else: the cell it returns held that key and its value and is freed, and the
  table then refines the map without the key.  When the content is absent, or present under
  another pointer with the same content, it returns \<open>NULL\<close> and changes nothing.
\<close>

theorem dictDel_removes:
  assumes ref: "dict_refines d m f" and nr: "\<not> dictIsRehashing d" and key: "key_at m key k"
  shows "\<exists>p d' m'. dictDel key d m = Some (p, d', m') \<and>
    (if \<exists>v. f k = Some (key, v)
     then dict_refines d' m' (f(k := None)) \<and>
          (\<exists>e. deref m p = Some e \<and> f k = Some (de_key e, de_val e)) \<and> deref m' p = None
     else p = NULL \<and> d' = d \<and> m' = m)"
  by (rule dictDel_result[OF assms])

theorem dictDel_removes_witness:
  "\<exists>d m p d' m'. dictAdd (Some 0) (Some 50) dictInit demo_mem = Some (DICT_OK, d, m) \<and>
     \<not> dictIsRehashing d \<and> dictDel (Some 0) d m = Some (p, d', m') \<and> p \<noteq> NULL \<and>
     deref m' p = None \<and> dict_refines d' m' Map.empty \<and>
     dictDel (Some 20) d m = Some (NULL, d, m)"
proof -
  have "dict_rep dictInit demo_mem [] []"
    by (simp add: dict_rep_def all_fresh_def demo_mem_def MEM_MAX_def)
  then have "dict_refines dictInit demo_mem Map.empty"
    unfolding dict_refines_def by (intro exI[of _ "[]"]) (simp add: absmap_def fun_eq_iff)
  from dictAdd_refines[OF this demo_mem_key[of 0] demo_mem_room, of "Some 50"]
  obtain d m where a: "dictAdd (Some 0) (Some 50) dictInit demo_mem = Some (DICT_OK, d, m)"
    "dict_refines d m [[word_of_nat 97] \<mapsto> (Some 0, Some 50)]" "strs m = strs demo_mem" by auto
  have nr: "\<not> dictIsRehashing d" using a(1) by (auto simp: dict_eval)
  have k: "key_at m = key_at demo_mem" by (intro ext) (simp add: key_at_def cstr_cong[OF a(3)])
  from dictDel_removes[OF a(2) nr, of "Some 0" "[word_of_nat 97]"]
    demo_mem_key[of 0] obtain p d' m' where del: "dictDel (Some 0) d m = Some (p, d', m')"
    "dict_refines d' m' Map.empty" "deref m' p = None" "p \<noteq> NULL"
    by (cases "deref m p") (auto simp: k deref_def split: option.splits)
  from dictDel_removes[OF a(2) nr, of "Some 20" "[word_of_nat 97]"] demo_mem_key[of 20]
  have "dictDel (Some 20) d m = Some (NULL, d, m)" by (auto simp: k)
  with a(1) nr del show ?thesis by blast
qed

end
