(* ===== verification/Dict_Store.thy ===== *)
theory Dict_Store
  imports Dict_Delete
begin

text \<open>
  The hash table as its clients see it: an interface (locale \<open>kv_store\<close>) of an insert-if-absent
  operation and a lookup over C strings, the laws the table promises, what follows for any sequence
  of client calls, and the interpretation on \<^verbatim>\<open>dictAdd\<close> and \<^verbatim>\<open>dictGet\<close> of \<^verbatim>\<open>lib/dict.c\<close>.
  The last section states what the code does where the table is being rehashed.
\<close>

subsection \<open>Client calls and their specification\<close>

datatype store_op = StAdd ptr ptr | StGet ptr

datatype store_res = Added int | Got "(ptr \<times> ptr) option"

fun op_key :: "store_op \<Rightarrow> ptr" where
  "op_key (StAdd p v) = p"
| "op_key (StGet p) = p"

fun store_run :: "(ptr \<Rightarrow> ptr \<Rightarrow> 's \<Rightarrow> (int \<times> 's) option) \<Rightarrow>
    (ptr \<Rightarrow> 's \<Rightarrow> ((ptr \<times> ptr) option \<times> 's) option) \<Rightarrow>
    store_op list \<Rightarrow> 's \<Rightarrow> (store_res list \<times> 's) option" where
  "store_run add get [] s = Some ([], s)"
| "store_run add get (StAdd p v # ops) s = do {
     (r, s) \<leftarrow> add p v s;
     (rs, s) \<leftarrow> store_run add get ops s;
     Some (Added r # rs, s)
   }"
| "store_run add get (StGet p # ops) s = do {
     (r, s) \<leftarrow> get p s;
     (rs, s) \<leftarrow> store_run add get ops s;
     Some (Got r # rs, s)
   }"

text \<open>The abstract map: the first insertion under a key content wins.\<close>

fun spec_run :: "(ptr \<Rightarrow> byte list) \<Rightarrow> store_op list \<Rightarrow> (byte list \<Rightarrow> (ptr \<times> ptr) option) \<Rightarrow>
    store_res list \<times> (byte list \<Rightarrow> (ptr \<times> ptr) option)" where
  "spec_run c [] f = ([], f)"
| "spec_run c (StAdd p v # ops) f =
     (if f (c p) = None
      then (let (rs, g) = spec_run c ops (f(c p := Some (p, v))) in (Added DICT_OK # rs, g))
      else (let (rs, g) = spec_run c ops f in (Added DICT_ERR # rs, g)))"
| "spec_run c (StGet p # ops) f = (let (rs, g) = spec_run c ops f in (Got (f (c p)) # rs, g))"

locale kv_lookup =
  fixes rel :: "'s \<Rightarrow> (byte list \<Rightarrow> (ptr \<times> ptr) option) \<Rightarrow> bool"
    and get :: "ptr \<Rightarrow> 's \<Rightarrow> ((ptr \<times> ptr) option \<times> 's) option"
    and key_of :: "'s \<Rightarrow> ptr \<Rightarrow> byte list \<Rightarrow> bool"
    and room :: "nat \<Rightarrow> 's \<Rightarrow> bool"
  assumes get_law: "rel s f \<Longrightarrow> key_of s p k \<Longrightarrow> room n s \<Longrightarrow>
      \<exists>s'. get p s = Some (f k, s') \<and> rel s' f \<and> key_of s' = key_of s \<and> room n s'"
    and room_less: "room (Suc n) s \<Longrightarrow> room n s"

locale kv_store = kv_lookup rel get key_of room
  for rel :: "'s \<Rightarrow> (byte list \<Rightarrow> (ptr \<times> ptr) option) \<Rightarrow> bool" and get key_of room +
  fixes add :: "ptr \<Rightarrow> ptr \<Rightarrow> 's \<Rightarrow> (int \<times> 's) option"
  assumes add_law: "rel s f \<Longrightarrow> key_of s p k \<Longrightarrow> room (Suc n) s \<Longrightarrow>
      \<exists>s'. add p v s = Some (if f k = None then DICT_OK else DICT_ERR, s') \<and>
        rel s' (if f k = None then f(k := Some (p, v)) else f) \<and>
        key_of s' = key_of s \<and> room n s'"
begin

lemma run_refines:
  assumes "rel s f" and "room (length ops) s" and "\<forall>x \<in> set ops. key_of s (op_key x) (c (op_key x))"
  shows "\<exists>s'. store_run add get ops s = Some (fst (spec_run c ops f), s') \<and>
    rel s' (snd (spec_run c ops f))"
  using assms
proof (induction ops arbitrary: s f)
  case Nil
  then show ?case by simp
next
  case (Cons x ops)
  show ?case
  proof (cases x)
    case (StAdd p v)
    with Cons.prems obtain s' where a: "add p v s = Some (if f (c p) = None then DICT_OK else DICT_ERR, s')"
      "rel s' (if f (c p) = None then f(c p := Some (p, v)) else f)" "key_of s' = key_of s"
      "room (length ops) s'"
      using add_law[of s f p "c p" "length ops" v] by auto
    from Cons.IH[OF a(2,4)] Cons.prems(3) a(1,3) show ?thesis
      by (auto simp: StAdd split: prod.splits)
  next
    case (StGet p)
    with Cons.prems obtain s' where a: "get p s = Some (f (c p), s')"
      "rel s' f" "key_of s' = key_of s" "room (length ops) s'"
      using get_law[of s f p "c p" "length ops"] room_less by auto
    from Cons.IH[OF a(2,4)] Cons.prems(3) a(1,3) show ?thesis
      by (auto simp: StGet split: prod.splits)
  qed
qed

text \<open>What a client that inserts and later looks up relies on.\<close>

lemma add_then_get:
  assumes "rel s f" and "f k = None" and "key_of s p k" and "key_of s q k" and "room 2 s"
  shows "\<exists>s1 s2. add p v s = Some (DICT_OK, s1) \<and> get q s1 = Some (Some (p, v), s2)"
proof -
  from assms(5) have "room (Suc 1) s" by (simp add: numeral_2_eq_2)
  from add_law[OF assms(1,3) this, of v] assms(2) obtain s1 where s1:
    "add p v s = Some (DICT_OK, s1)" "rel s1 (f(k := Some (p, v)))" "key_of s1 = key_of s" "room 1 s1"
    by auto
  have "key_of s1 q k" using assms(4) s1(3) by simp
  from get_law[OF s1(2) this s1(4)] s1(1) show ?thesis by auto
qed

end

subsection \<open>The table as a store\<close>

definition dict_add :: "ptr \<Rightarrow> ptr \<Rightarrow> dict \<times> dmem \<Rightarrow> (int \<times> dict \<times> dmem) option" where
  "dict_add p v s = dictAdd p v (fst s) (snd s)"

text \<open>A lookup and the two fields the caller reads from the entry it returns.\<close>

definition dict_get :: "ptr \<Rightarrow> dict \<times> dmem \<Rightarrow> ((ptr \<times> ptr) option \<times> dict \<times> dmem) option" where
  "dict_get p s = do {
     (e, d, m) \<leftarrow> dictGet p (fst s) (snd s);
     (case e of None \<Rightarrow> Some (None, d, m)
      | Some _ \<Rightarrow> do { e \<leftarrow> deref m e; Some (Some (de_key e, de_val e), d, m) })
   }"

text \<open>The lookup keeps its contract on every table, growing or not.\<close>

lemma dict_get_law:
  assumes "dict_refines (fst s) (snd s) f" and "key_at (snd s) p k" and room: "mem_room n (snd s)"
  shows "\<exists>d'. dict_get p s = Some (f k, d', snd s) \<and> dict_refines d' (snd s) f"
proof -
  from dictGet_refines[OF assms(1,2)] obtain q d' where
    "dictGet p (fst s) (snd s) = Some (q, d', snd s)" "dict_refines d' (snd s) f"
    "case f k of None \<Rightarrow> q = NULL
     | Some (kp, v) \<Rightarrow> \<exists>e. deref (snd s) q = Some e \<and> de_key e = kp \<and> de_val e = v" by blast
  then show ?thesis by (auto simp: dict_get_def deref_def split: option.splits)
qed

lemma dict_add_law:
  assumes "dict_refines (fst s) (snd s) f" and "key_at (snd s) p k" and "mem_room (2 * Suc n) (snd s)"
  shows "\<exists>d' m'. dict_add p v s = Some (if f k = None then DICT_OK else DICT_ERR, d', m') \<and>
    dict_refines d' m' (if f k = None then f(k := Some (p, v)) else f) \<and> key_at m' = key_at (snd s) \<and>
    mem_room (2 * n) m'"
proof -
  from assms(3) have "mem_room 2 (snd s)" by (simp add: mem_room_def)
  from dictAdd_refines[OF assms(1,2) this, of v] assms(3) obtain d' m' where
    a: "dictAdd p v (fst s) (snd s) = Some (if f k = None then DICT_OK else DICT_ERR, d', m')"
    "dict_refines d' m' (if f k = None then f(k := Some (p, v)) else f)" "mem_room (2 * n) m'"
    "strs m' = strs (snd s)" by (auto simp: mem_room_def)
  have "key_at m' = key_at (snd s)" by (intro ext) (simp add: key_at_def cstr_cong[OF a(4)])
  with a show ?thesis by (simp add: dict_add_def)
qed

interpretation ds: kv_store
  "\<lambda>s. dict_refines (fst s) (snd s)" dict_get "\<lambda>s. key_at (snd s)" "\<lambda>n s. mem_room (2 * n) (snd s)" dict_add
proof (unfold_locales, goal_cases)
  case (1 s f p k n)
  from dict_get_law[OF this] 1(3) show ?case by fastforce
next
  case (3 s f p k n v)
  from dict_add_law[OF this, of v] show ?case by fastforce
qed (simp add: mem_room_def)

text \<open>
  C1.  Any sequence of \<open>dictAdd\<close> and \<open>dictGet\<close> calls on a table fresh from \<open>dictCreate\<close>
  returns normally (no undefined behaviour, no divergence) and answers exactly like an abstract map
  from key contents in which the first insertion under a content wins and later ones report
  \<open>DICT_ERR\<close>; this covers the growth of the table and the incremental rehash state, as long as
  allocations succeed and the keys are readable strings.
\<close>

theorem dict_calls_refine_map:
  assumes "mem_room (1 + 2 * length ops) m"
    and "\<forall>x \<in> set ops. key_at m (op_key x) (c (op_key x))"
  shows "\<exists>d m' s. dictCreate m = (Some d, m') \<and>
    store_run dict_add dict_get ops (d, m') = Some (fst (spec_run c ops Map.empty), s)"
proof -
  have "mem_room 1 m" using assms(1) by (simp add: mem_room_def)
  from dictCreate_refines[OF this] obtain d m' where d: "dictCreate m = (Some d, m')"
    "dict_refines d m' Map.empty" "strs m' = strs m" "mallocs m' = []" "brk m' = Suc (brk m)"
    by blast
  have "key_at m' = key_at m" by (intro ext) (simp add: key_at_def cstr_cong[OF d(3)])
  then have "\<forall>x \<in> set ops. key_at (snd (d, m')) (op_key x) (c (op_key x))" using assms(2) by simp
  moreover have "mem_room (2 * length ops) (snd (d, m'))"
    using assms(1) d(4,5) by (simp add: mem_room_def)
  ultimately show ?thesis
    using ds.run_refines[of "(d, m')" Map.empty ops c] d(1,2) by auto
qed

theorem dict_calls_refine_map_witness:
  "\<exists>d m s. dictCreate demo_mem = (Some d, m) \<and>
     store_run dict_add dict_get
       [StAdd (Some 0) (Some 50), StAdd (Some 20) (Some 51), StGet (Some 20), StGet (Some 1)] (d, m) =
     Some ([Added 1, Added 0, Got (Some (Some 0, Some 50)), Got None], s)"
proof -
  let ?ops = "[StAdd (Some 0) (Some 50), StAdd (Some 20) (Some 51), StGet (Some 20), StGet (Some 1)]"
    and ?c = "\<lambda>p. (case p of None \<Rightarrow> [] | Some a \<Rightarrow> [word_of_nat (97 + a mod 20) :: byte])"
  have "mem_room (1 + 2 * length ?ops) demo_mem" by (rule demo_mem_room) simp
  moreover have "\<forall>x \<in> set ?ops. key_at demo_mem (op_key x) (?c (op_key x))"
    using demo_mem_key[of 0] demo_mem_key[of 20] demo_mem_key[of 1] by simp
  ultimately show ?thesis
    using dict_calls_refine_map[of ?ops demo_mem ?c] by (simp add: DICT_OK_def DICT_ERR_def)
qed

subsection \<open>The table while it is rehashing\<close>

lemma key_index_rehashing:
  "dictIsRehashing d \<Longrightarrow> dictKeyIndex p d m = Some (i, d', m') \<Longrightarrow> d' = d \<and> m' = m"
  by (auto simp: dictKeyIndex_def dictExpandIfNeeded_def bind_eq_Some_conv split: if_splits)

lemma rehash_step_idle:
  "dictIsRehashing d \<Longrightarrow> ht_used (ht0 d) \<noteq> 0 \<Longrightarrow> dictRehashStep d m = Some (d, m)"
  by (simp add: dictRehashStep_def dictRehash_1)

lemma add_while_rehashing:
  assumes "dictIsRehashing d" and "ht_used (ht0 d) \<noteq> 0" and "dict_add p v (d, m) = Some (r, s')"
  shows "ht0 (fst s') = ht0 d \<and> rehashidx (fst s') = rehashidx d"
proof -
  obtain i d1 m1 where ki: "dictKeyIndex p d m = Some (i, d1, m1)"
    using assms by (auto simp: dict_add_def dictAdd_def rehash_step_idle bind_eq_Some_conv)
  with key_index_rehashing[OF assms(1) ki] assms show ?thesis
    by (auto simp: dict_add_def dictAdd_def rehash_step_idle Let_def bind_eq_Some_conv
        split: if_splits prod.splits)
qed

lemma get_while_rehashing:
  assumes "dictIsRehashing d" and "ht_used (ht0 d) \<noteq> 0" and "dict_get p (d, m) = Some (r, s')"
  shows "fst s' = d"
  using assms
  by (auto simp: dict_get_def dictGet_def rehash_step_idle bind_eq_Some_conv
      split: if_splits option.splits)

lemma run_step_while_rehashing:
  assumes "dictIsRehashing (fst s)" and "ht_used (ht0 (fst s)) \<noteq> 0"
    and "store_run dict_add dict_get (x # ops) s = Some (rs, s')"
  shows "\<exists>s1 rs1. store_run dict_add dict_get ops s1 = Some (rs1, s') \<and>
    ht0 (fst s1) = ht0 (fst s) \<and> rehashidx (fst s1) = rehashidx (fst s)"
proof (cases x)
  case (StAdd p v)
  with assms(3) obtain r s1 rs1 where "dict_add p v s = Some (r, s1)"
    "store_run dict_add dict_get ops s1 = Some (rs1, s')"
    by (auto simp: bind_eq_Some_conv)
  with add_while_rehashing[OF assms(1,2), of p v "snd s"] show ?thesis
    by (intro exI[of _ s1] exI[of _ rs1]) simp
next
  case (StGet p)
  with assms(3) obtain r s1 rs1 where "dict_get p s = Some (r, s1)"
    "store_run dict_add dict_get ops s1 = Some (rs1, s')"
    by (auto simp: bind_eq_Some_conv)
  with get_while_rehashing[OF assms(1,2), of p "snd s"] show ?thesis
    by (intro exI[of _ s1] exI[of _ rs1]) simp
qed

text \<open>
  C38.  Once a table is rehashing with entries left in the old table, no sequence of insertions and
  lookups ever moves one of them: the incremental step \<open>dictRehash(d, 1)\<close> counts down before its
  first test, so its loop body is never entered, and the old table and \<open>rehashidx\<close> stay as they are.
\<close>

theorem rehash_step_never_migrates:
  assumes "dictIsRehashing (fst s)" and "ht_used (ht0 (fst s)) \<noteq> 0"
    and "store_run dict_add dict_get ops s = Some (rs, s')"
  shows "ht0 (fst s') = ht0 (fst s) \<and> rehashidx (fst s') = rehashidx (fst s)"
  using assms
proof (induction ops arbitrary: s rs)
  case Nil
  then show ?case by simp
next
  case (Cons x ops)
  obtain s1 rs1 where s1: "store_run dict_add dict_get ops s1 = Some (rs1, s')"
    "ht0 (fst s1) = ht0 (fst s) \<and> rehashidx (fst s1) = rehashidx (fst s)"
    using run_step_while_rehashing[OF Cons.prems] by blast
  with Cons.prems Cons.IH[OF _ _ s1(1)] show ?case by (simp add: dictIsRehashing_def)
qed

definition five_adds :: "store_op list" where
  "five_adds = [StAdd (Some 0) (Some 50), StAdd (Some 1) (Some 51), StAdd (Some 2) (Some 52),
     StAdd (Some 3) (Some 53), StAdd (Some 4) (Some 54)]"

theorem rehash_step_never_migrates_witness:
  "\<exists>s r s'. store_run dict_add dict_get five_adds (dictInit, demo_mem) =
       Some ([Added 1, Added 1, Added 1, Added 1, Added 1], s) \<and>
     dictIsRehashing (fst s) \<and> ht_used (ht0 (fst s)) = 4 \<and>
     store_run dict_add dict_get [StAdd (Some 5) (Some 55), StGet (Some 5)] s = Some (r, s') \<and>
     ht0 (fst s') = ht0 (fst s)"
proof -
  have "\<exists>s r s'. store_run dict_add dict_get five_adds (dictInit, demo_mem) =
       Some ([Added 1, Added 1, Added 1, Added 1, Added 1], s) \<and>
     dictIsRehashing (fst s) \<and> ht_used (ht0 (fst s)) = 4 \<and>
     store_run dict_add dict_get [StAdd (Some 5) (Some 55), StGet (Some 5)] s = Some (r, s')"
    by (simp add: five_adds_def dict_eval dict_add_def dict_get_def)
  then show ?thesis using rehash_step_never_migrates by fastforce
qed

text \<open>The last entry a failed walk has passed is there.\<close>

lemma del_walk_prev:
  assumes "del_walk m key prev p = Some (prev', NULL)"
  shows "prev' = prev \<or> deref m prev' \<noteq> None"
proof -
  have "(case r of (prev', x) \<Rightarrow> x = NULL \<longrightarrow> prev' = prev \<or> deref m prev' \<noteq> None)"
    if "del_walk m key prev p = Some r" for r
  proof (rule del_walk.raw_induct[OF _ that, of "\<lambda>m key prev p r.
      case r of (prev', x) \<Rightarrow> x = NULL \<longrightarrow> prev' = prev \<or> deref m prev' \<noteq> None"])
    fix walk m key prev p r
    assume ih: "\<And>m key prev p r. walk m key prev p = Some r \<Longrightarrow>
        case r of (prev', x) \<Rightarrow> x = NULL \<longrightarrow> prev' = prev \<or> deref m prev' \<noteq> None"
      and run: "(case p of None \<Rightarrow> Some (prev, NULL)
        | Some a \<Rightarrow> do { e \<leftarrow> deref m p;
            if key = de_key e then Some (prev, p) else walk m key p (de_next e) }) = Some r"
    show "case r of (prev', x) \<Rightarrow> x = NULL \<longrightarrow> prev' = prev \<or> deref m prev' \<noteq> None"
    proof (cases p)
      case (Some a)
      with run obtain e where "deref m p = Some e"
        "(if key = de_key e then Some (prev, p) else walk m key p (de_next e)) = Some r"
        by (auto simp: bind_eq_Some_conv)
      with ih[of m key p "de_next e" r] Some show ?thesis by (auto split: if_splits)
    qed (use run in auto)
  qed
  from this[OF assms] show ?thesis by simp
qed

text \<open>
  C39.  Deleting an entry of the new table while the table is rehashing leaves a dangling bucket.  Let
  the key's bucket of the old table hold entries, none of them under this key pointer, and let the
  entry \<open>a\<close> of the key be the first one of its bucket of the new table.  \<open>prevEntry\<close> still points into
  the old table, so the cell is unlinked there: \<open>dictDel\<close> frees \<open>a\<close>, but the bucket of the new table
  still points at it, and every later lookup that comes to this bucket reads freed memory.
\<close>

theorem dictDel_while_rehashing_dangles:
  assumes re: "dictIsRehashing d" "ht_used (ht0 d) \<noteq> 0" "dictSize d \<noteq> 0"
    and k: "cstr m key = Some k" "int (length k) \<le> INT_MAX"
    and old: "tbl_get (ht0 d) (slot (ht0 d) k) = Some p" "del_walk m key NULL p = Some (Some q, NULL)"
    and new: "tbl_get (ht1 d) (slot (ht1 d) k) = Some (Some a)" "deref m (Some a) = Some e" "de_key e = key"
  shows "\<exists>d' m'. dictDel key d m = Some (Some a, d', m') \<and> deref m' (Some a) = None \<and>
    tbl_get (ht1 d') (slot (ht1 d') k) = Some (Some a) \<and>
    (\<forall>key' k'. cstr m' key' = Some k' \<and> ht_find m' k' (ht0 d') = Some NULL \<and>
       slot (ht1 d') k' = slot (ht1 d') k \<and> dictSize d' \<noteq> 0 \<longrightarrow> dictGet key' d' m' = None)"
proof -
  obtain pe where pe: "deref m (Some q) = Some pe" using del_walk_prev[OF old(2)] by auto
  let ?H = "(ht1 d)\<lparr>ht_used := ht_used (ht1 d) - 1\<rparr>" and ?m = "free a (store q (pe\<lparr>de_next := de_next e\<rparr>) m)"
  have un: "unlink (Some q) a i (ht1 d) m = Some (?H, ?m)" for i
    using pe new(2) by (simp add: unlink_def)
  have walk: "del_walk m key (Some q) (Some a) = Some (Some q, Some a)"
    using new(2,3) by (subst del_walk.simps) simp
  let ?d = "d\<lparr>ht1 := ?H\<rparr>"
  have del: "dictDel key d m = Some (Some a, ?d, ?m)"
    using re k old new(1) un walk by (simp add: dictDel_def rehash_step_idle strlen_int_def)
  have gone: "deref ?m (Some a) = None" by (simp add: deref_def free_def)
  have same: "tbl_get ?H i = tbl_get (ht1 d) i" "slot ?H x = slot (ht1 d) x" for i x
    by (simp_all add: tbl_get_def slot_def)
  have "dictIsRehashing ?d" using re(1) by (simp add: dictIsRehashing_def)
  have "dictGet key' ?d ?m = None" if "cstr ?m key' = Some k'" "ht_find ?m k' (ht0 ?d) = Some NULL"
    "slot (ht1 ?d) k' = slot (ht1 ?d) k" "dictSize ?d \<noteq> 0" for key' k'
  proof -
    have "chain_find ?m k' (Some a) = None" using gone by (subst chain_find.simps) simp
    then have "ht_find ?m k' (ht1 ?d) = None"
      using that(3) new(1) by (simp add: ht_find_def same strlen_int_def)
    with that re(2) \<open>dictIsRehashing ?d\<close> show ?thesis
      by (simp add: dictGet_def rehash_step_idle)
  qed
  with del gone new(1) same show ?thesis by (intro exI[of _ ?d] exI[of _ ?m]) simp
qed

text \<open>The fifth key of a table is deleted and looked up again.\<close>

theorem dictDel_while_rehashing_dangles_witness:
  "\<exists>s a d' m'. store_run dict_add dict_get five_adds (dictInit, demo_mem) =
       Some ([Added 1, Added 1, Added 1, Added 1, Added 1], s) \<and>
     dictDel (Some 4) (fst s) (snd s) = Some (Some a, d', m') \<and> deref m' (Some a) = None \<and>
     tbl_get (ht1 d') (slot (ht1 d') [word_of_nat 101]) = Some (Some a)"
proof -
  have "\<exists>s p q a e. store_run dict_add dict_get five_adds (dictInit, demo_mem) =
       Some ([Added 1, Added 1, Added 1, Added 1, Added 1], s) \<and>
     dictIsRehashing (fst s) \<and> ht_used (ht0 (fst s)) \<noteq> 0 \<and> dictSize (fst s) \<noteq> 0 \<and>
     cstr (snd s) (Some 4) = Some [word_of_nat 101] \<and>
     tbl_get (ht0 (fst s)) (slot (ht0 (fst s)) [word_of_nat 101]) = Some p \<and>
     del_walk (snd s) (Some 4) NULL p = Some (Some q, NULL) \<and>
     tbl_get (ht1 (fst s)) (slot (ht1 (fst s)) [word_of_nat 101]) = Some (Some a) \<and>
     deref (snd s) (Some a) = Some e \<and> de_key e = Some 4"
    by (simp add: five_adds_def dict_eval dict_add_def del_walk.simps)
  then obtain s p q a e where s: "store_run dict_add dict_get five_adds (dictInit, demo_mem) =
       Some ([Added 1, Added 1, Added 1, Added 1, Added 1], s)"
    "dictIsRehashing (fst s)" "ht_used (ht0 (fst s)) \<noteq> 0" "dictSize (fst s) \<noteq> 0"
     "cstr (snd s) (Some 4) = Some [word_of_nat 101]"
     "tbl_get (ht0 (fst s)) (slot (ht0 (fst s)) [word_of_nat 101]) = Some p"
     "del_walk (snd s) (Some 4) NULL p = Some (Some q, NULL)"
     "tbl_get (ht1 (fst s)) (slot (ht1 (fst s)) [word_of_nat 101]) = Some (Some a)"
     "deref (snd s) (Some a) = Some e" "de_key e = Some 4" by blast
  have "int (length [word_of_nat 101 :: byte]) \<le> INT_MAX" by (simp add: INT_MAX_def)
  from dictDel_while_rehashing_dangles[OF s(2-5) this s(6-10)] s(1) show ?thesis by blast
qed

text \<open>
  A rehash of more than one step loses keys: \<open>_dictKeyIndex\<close> finds the entry being moved in
  the old table and answers \<open>-1\<close>, so the entry goes to the bucket of the old mask; after the
  rehash has finished, a key that was found before is reported absent.
\<close>

theorem dictRehash_many_loses_key:
  "\<exists>d m s e d' m'. dictCreate demo_mem = (Some d, m) \<and>
     store_run dict_add dict_get five_adds (d, m) =
       Some ([Added 1, Added 1, Added 1, Added 1, Added 1], s) \<and>
     dictGet (Some 0) (fst s) (snd s) = Some (Some e, fst s, snd s) \<and>
     dictRehash 100 (fst s) (snd s) = Some (1, d', m') \<and> \<not> dictIsRehashing d' \<and>
     dictGet (Some 0) d' m' = Some (NULL, d', m')"
  by (simp add: five_adds_def dict_eval dict_add_def dictRehash_def rehashLoop.simps
      skip_empty.simps move_chain.simps in_int_def)

end
