(* ===== verification/Dict_Small.thy ===== *)
theory Dict_Small
  imports Dict_Store
begin

text \<open>
  The hash table of \<^verbatim>\<open>lib/dict.c\<close> with all three operations, as long as it keeps its first four
  buckets: an interface (locale \<open>kv_bounded\<close>) of a map of bounded size with deletion, and its
  interpretation.  As long as every call of \<open>dictAdd\<close>, successful or not, finds fewer than four entries, the
  table never starts a rehash, and the deletion is safe.
\<close>

subsection \<open>Client calls with deletion\<close>

datatype map_op = OpAdd ptr ptr | OpGet ptr | OpDel ptr

datatype map_res = RAdd int | RGet "(ptr \<times> ptr) option" | RDel bool

fun map_key :: "map_op \<Rightarrow> ptr" where
  "map_key (OpAdd p v) = p" | "map_key (OpGet p) = p" | "map_key (OpDel p) = p"

fun map_run :: "(ptr \<Rightarrow> ptr \<Rightarrow> 's \<Rightarrow> (int \<times> 's) option) \<Rightarrow>
    (ptr \<Rightarrow> 's \<Rightarrow> ((ptr \<times> ptr) option \<times> 's) option) \<Rightarrow> (ptr \<Rightarrow> 's \<Rightarrow> (bool \<times> 's) option) \<Rightarrow>
    map_op list \<Rightarrow> 's \<Rightarrow> (map_res list \<times> 's) option" where
  "map_run add get del [] s = Some ([], s)"
| "map_run add get del (x # ops) s = do {
     (r, s) \<leftarrow> (case x of
         OpAdd p v \<Rightarrow> map_option (apfst RAdd) (add p v s)
       | OpGet p \<Rightarrow> map_option (apfst RGet) (get p s)
       | OpDel p \<Rightarrow> map_option (apfst RDel) (del p s));
     (rs, s) \<leftarrow> map_run add get del ops s;
     Some (r # rs, s)
   }"

text \<open>
  The abstract map: the first insertion under a content wins; a deletion needs the very pointer that
  was inserted.
\<close>

fun spec_step :: "(ptr \<Rightarrow> byte list) \<Rightarrow> map_op \<Rightarrow> (byte list \<Rightarrow> (ptr \<times> ptr) option) \<Rightarrow>
    map_res \<times> (byte list \<Rightarrow> (ptr \<times> ptr) option)" where
  "spec_step c (OpAdd p v) f =
     (if f (c p) = None then (RAdd DICT_OK, f(c p := Some (p, v))) else (RAdd DICT_ERR, f))"
| "spec_step c (OpGet p) f = (RGet (f (c p)), f)"
| "spec_step c (OpDel p) f =
     (if map_option fst (f (c p)) = Some p then (RDel True, f(c p := None)) else (RDel False, f))"

fun spec_steps :: "(ptr \<Rightarrow> byte list) \<Rightarrow> map_op list \<Rightarrow> (byte list \<Rightarrow> (ptr \<times> ptr) option) \<Rightarrow>
    map_res list \<times> (byte list \<Rightarrow> (ptr \<times> ptr) option)" where
  "spec_steps c [] f = ([], f)"
| "spec_steps c (x # ops) f = (case spec_step c x f of (r, f) \<Rightarrow>
     (case spec_steps c ops f of (rs, f) \<Rightarrow> (r # rs, f)))"

text \<open>
  Every attempt to insert finds fewer than \<open>cap\<close> entries; the attempt counts even if the content is there
  already, because the code grows the table before it looks for the key.
\<close>

fun fits :: "nat \<Rightarrow> (ptr \<Rightarrow> byte list) \<Rightarrow> map_op list \<Rightarrow> (byte list \<Rightarrow> (ptr \<times> ptr) option) \<Rightarrow> bool" where
  "fits cap c [] f = True"
| "fits cap c (x # ops) f = ((case x of OpAdd _ _ \<Rightarrow> card (dom f) < cap | _ \<Rightarrow> True) \<and>
     fits cap c ops (snd (spec_step c x f)))"

locale kv_bounded = kv_lookup rel get key_of room
  for rel :: "'s \<Rightarrow> (byte list \<Rightarrow> (ptr \<times> ptr) option) \<Rightarrow> bool" and get key_of room +
  fixes add :: "ptr \<Rightarrow> ptr \<Rightarrow> 's \<Rightarrow> (int \<times> 's) option"
    and del :: "ptr \<Rightarrow> 's \<Rightarrow> (bool \<times> 's) option"
    and cap :: nat
  assumes add_law: "rel s f \<Longrightarrow> key_of s p k \<Longrightarrow> room (Suc n) s \<Longrightarrow> card (dom f) < cap \<Longrightarrow>
      \<exists>s'. add p v s = Some (if f k = None then DICT_OK else DICT_ERR, s') \<and>
        rel s' (if f k = None then f(k := Some (p, v)) else f) \<and>
        key_of s' = key_of s \<and> room n s'"
    and del_law: "rel s f \<Longrightarrow> key_of s p k \<Longrightarrow> room n s \<Longrightarrow>
      \<exists>s'. del p s = Some (map_option fst (f k) = Some p, s') \<and>
        rel s' (if map_option fst (f k) = Some p then f(k := None) else f) \<and>
        key_of s' = key_of s \<and> room n s'"
begin

lemma step_refines:
  assumes "rel s f" and "room (Suc n) s" and "key_of s (map_key x) (c (map_key x))" and "fits cap c [x] f"
  shows "\<exists>s'. (case x of
         OpAdd p v \<Rightarrow> map_option (apfst RAdd) (add p v s)
       | OpGet p \<Rightarrow> map_option (apfst RGet) (get p s)
       | OpDel p \<Rightarrow> map_option (apfst RDel) (del p s)) = Some (fst (spec_step c x f), s') \<and>
    rel s' (snd (spec_step c x f)) \<and> key_of s' = key_of s \<and> room n s'"
proof (cases x)
  case (OpAdd p v)
  with add_law[OF assms(1) _ assms(2), of p "c p" v] assms(3,4) show ?thesis by auto
next
  case (OpGet p)
  with get_law[OF assms(1) _ room_less[OF assms(2)], of p "c p"] assms(3) show ?thesis by auto
next
  case (OpDel p)
  with del_law[OF assms(1) _ room_less[OF assms(2)], of p "c p"] assms(3) obtain s' where
    "del p s = Some (map_option fst (f (c p)) = Some p, s')"
    "rel s' (if map_option fst (f (c p)) = Some p then f(c p := None) else f)"
    "key_of s' = key_of s" "room n s'" by auto
  then show ?thesis
    by (cases "map_option fst (f (c p)) = Some p") (simp_all add: OpDel)
qed

lemma run_refines:
  assumes "rel s f" and "room (length ops) s" and "\<forall>x \<in> set ops. key_of s (map_key x) (c (map_key x))"
    and "fits cap c ops f"
  shows "\<exists>s'. map_run add get del ops s = Some (fst (spec_steps c ops f), s') \<and>
    rel s' (snd (spec_steps c ops f))"
  using assms
proof (induction ops arbitrary: s f)
  case Nil
  then show ?case by simp
next
  case (Cons x ops)
  have "room (Suc (length ops)) s" "key_of s (map_key x) (c (map_key x))" "fits cap c [x] f"
    using Cons.prems(2-4) by simp_all
  from step_refines[OF Cons.prems(1) this] obtain s1 where s1: "(case x of
         OpAdd p v \<Rightarrow> map_option (apfst RAdd) (add p v s)
       | OpGet p \<Rightarrow> map_option (apfst RGet) (get p s)
       | OpDel p \<Rightarrow> map_option (apfst RDel) (del p s)) = Some (fst (spec_step c x f), s1)"
    "rel s1 (snd (spec_step c x f))" "key_of s1 = key_of s" "room (length ops) s1" by blast
  have "\<forall>x \<in> set ops. key_of s1 (map_key x) (c (map_key x))" "fits cap c ops (snd (spec_step c x f))"
    using Cons.prems(3,4) s1(3) by simp_all
  from Cons.IH[OF s1(2,4) this] s1(1) show ?case by (auto split: prod.splits)
qed

end

subsection \<open>The table with its first buckets\<close>

text \<open>Whether \<open>dictDel\<close> found an entry; the cell it returns has been freed.\<close>

definition dict_del :: "ptr \<Rightarrow> dict \<times> dmem \<Rightarrow> (bool \<times> dict \<times> dmem) option" where
  "dict_del p s = do {
     (e, d, m) \<leftarrow> dictDel p (fst s) (snd s);
     Some (e \<noteq> NULL, d, m)
   }"

definition first_buckets :: "dict \<Rightarrow> bool" where
  "first_buckets d \<longleftrightarrow> \<not> dictIsRehashing d \<and> ht_size (ht0 d) \<in> {0, DICT_HT_INITIAL_SIZE}"

lemma card_dom_size:
  assumes "dict_refines d m f"
  shows "card (dom f) = unat (dictSize d)"
proof -
  obtain bs0 bs1 where rep: "dict_rep d m bs0 bs1" and f: "f = absmap m (concat bs0 @ concat bs1)"
    using assms by (auto simp: dict_refines_def)
  let ?as = "concat bs0 @ concat bs1"
  have dist: "distinct (map (ekey m) ?as)" using rep by (simp add: dict_rep_def all_fresh_def)
  have key: "ekey m a \<noteq> None" if "a \<in> set ?as" for a
    using that rep ht_rep_ekey[of m "ht0 d" bs0 a] ht_rep_ekey[of m "ht1 d" bs1 a]
    by (auto simp: dict_rep_def split: if_splits)
  have dom: "k \<in> dom f \<longleftrightarrow> Some k \<in> ekey m ` set ?as" for k
    unfolding f domIff absmap_None_iff by (rule not_not)
  have "Some ` dom f = ekey m ` set ?as"
  proof (intro set_eqI iffI)
    fix x assume "x \<in> Some ` dom f"
    then show "x \<in> ekey m ` set ?as" using dom by (elim imageE) simp
  next
    fix x assume x: "x \<in> ekey m ` set ?as"
    with key obtain k where "x = Some k" by (metis imageE not_None_eq)
    with x dom show "x \<in> Some ` dom f" by simp
  qed
  then have "card (Some ` dom f) = card (set (map (ekey m) ?as))" by (simp only: set_map)
  also have "\<dots> = length ?as" using distinct_card[OF dist] by simp
  finally show ?thesis using dict_rep_used(3)[OF rep] by (simp add: card_image)
qed

text \<open>A table that has only been created has no array.\<close>

lemma no_size_no_table:
  assumes "dict_refines d m f" and "ht_size (ht0 d) = 0"
  shows "ht_table (ht0 d) = None"
  using assms ht_rep_size(5)[of m "ht0 d"]
  by (auto simp: dict_refines_def dict_rep_def dictInit_def dictReset_def split: if_splits)

lemma get_keeps_dict: "first_buckets d \<Longrightarrow> dictGet p d m = Some (q, d', m') \<Longrightarrow> d' = d"
  by (auto simp: dictGet_def first_buckets_def bind_eq_Some_conv split: if_splits)

lemma expand_first_buckets:
  assumes "dict_refines d m f" and "first_buckets d" and "card (dom f) < 4"
    and "dictExpandIfNeeded d m = Some (r, d', m')"
  shows "first_buckets d'"
proof (cases "ht_size (ht0 d) = 0")
  case True
  with assms(2,4) no_size_no_table[OF assms(1)] show ?thesis
    by (auto simp: dictExpandIfNeeded_def dictExpand_def first_buckets_def dictIsRehashing_def
        dictNextPower_def nextPowerLoop.simps DICT_HT_INITIAL_SIZE_def LONG_MAX_def Let_def
        bind_eq_Some_conv split: if_splits prod.splits)
next
  case False
  have "ht_used (ht1 d) = 0"
    using assms(1,2) by (auto simp: dict_refines_def dict_rep_def first_buckets_def dictIsRehashing_def
        dictInit_def dictReset_def split: if_splits)
  then have "unat (ht_used (ht0 d)) < 4"
    using card_dom_size[OF assms(1)] assms(3) by (simp add: dictSize_def)
  then have "\<not> ht_used (ht0 d) \<ge> ht_size (ht0 d)"
    using assms(2) False by (auto simp: first_buckets_def DICT_HT_INITIAL_SIZE_def word_le_nat_alt)
  with assms(2,4) False show ?thesis
    by (auto simp: dictExpandIfNeeded_def first_buckets_def)
qed

lemma add_first_buckets:
  assumes "dict_refines d m f" and "first_buckets d" and "card (dom f) < 4"
    and "dictAdd p v d m = Some (r, d', m')"
  shows "first_buckets d'"
proof -
  have nr: "\<not> dictIsRehashing d" using assms(2) by (simp add: first_buckets_def)
  from assms(4) nr obtain i d1 m1 where ki: "dictKeyIndex p d m = Some (i, d1, m1)"
    by (auto simp: dictAdd_def bind_eq_Some_conv)
  then obtain r1 m2 where "dictExpandIfNeeded d m = Some (r1, d1, m2)"
    by (auto simp: dictKeyIndex_def bind_eq_Some_conv split: if_splits)
  note fb = expand_first_buckets[OF assms(1-3) this]
  then have "\<not> dictIsRehashing d1" by (simp add: first_buckets_def)
  with assms(4) nr fb show ?thesis
    by (auto simp: dictAdd_def ki first_buckets_def dictIsRehashing_def tbl_set_def Let_def bind_eq_Some_conv
        split: if_splits prod.splits)
qed

lemma unlink_keeps:
  "unlink prev a i H m = Some (H', m') \<Longrightarrow>
     ht_size H' = ht_size H \<and> strs m' = strs m \<and> mallocs m' = mallocs m \<and> brk m' = brk m"
  by (auto simp: unlink_def tbl_set_def store_def free_def bind_eq_Some_conv split: option.splits)

lemma dictDel_cases:
  assumes "\<not> dictIsRehashing d" and "dictDel p d m = Some (q, d', m')"
  obtains "d' = d" "m' = m" | prev a i H where "unlink prev a i (ht0 d) m = Some (H, m')" "d' = d\<lparr>ht0 := H\<rparr>"
proof (cases "dictSize d = 0")
  case True
  with assms(2) that(1) show thesis by (simp add: dictDel_def)
next
  case False
  with assms obtain k b where kb: "cstr m p = Some k" "tbl_get (ht0 d) (slot (ht0 d) k) = Some b"
    by (auto simp: dictDel_def bind_eq_Some_conv)
  with assms False obtain prev entry where w: "del_walk m p NULL b = Some (prev, entry)"
    by (auto simp: dictDel_def bind_eq_Some_conv)
  show thesis
  proof (cases entry)
    case None
    with assms False kb w that(1) show thesis by (auto simp: dictDel_def bind_eq_Some_conv)
  next
    case (Some a)
    with assms False kb w that(2)[of prev a "slot (ht0 d) k"] show thesis
      by (auto simp: dictDel_def bind_eq_Some_conv)
  qed
qed

lemma del_first_buckets:
  assumes "first_buckets d" and "dictDel p d m = Some (q, d', m')"
  shows "first_buckets d' \<and> strs m' = strs m \<and> mallocs m' = mallocs m \<and> brk m' = brk m"
proof -
  have nr: "\<not> dictIsRehashing d" using assms(1) by (simp add: first_buckets_def)
  from nr assms(2) show ?thesis
    by (cases rule: dictDel_cases) (use assms(1) in \<open>auto simp: first_buckets_def dictIsRehashing_def dest: unlink_keeps\<close>)
qed

definition small_refines :: "dict \<times> dmem \<Rightarrow> (byte list \<Rightarrow> (ptr \<times> ptr) option) \<Rightarrow> bool" where
  "small_refines s f \<longleftrightarrow> dict_refines (fst s) (snd s) f \<and> first_buckets (fst s)"

interpretation sm: kv_bounded small_refines dict_get "\<lambda>s. key_at (snd s)" "\<lambda>n s. mem_room (2 * n) (snd s)"
  dict_add dict_del "unat DICT_HT_INITIAL_SIZE"
proof (unfold_locales, goal_cases)
  case (1 s f p k n)
  then have r: "dict_refines (fst s) (snd s) f" "first_buckets (fst s)" by (simp_all add: small_refines_def)
  from dict_get_law[OF r(1) 1(2,3)] obtain d' where
    d': "dict_get p s = Some (f k, d', snd s)" "dict_refines d' (snd s) f" by blast
  then have "d' = fst s" using get_keeps_dict[OF r(2)]
    by (auto simp: dict_get_def bind_eq_Some_conv split: option.splits)
  with d' r 1(3) show ?case
    by (intro exI[of _ "(d', snd s)"]) (simp add: small_refines_def)
next
  case (3 s f p k n v)
  then have r: "dict_refines (fst s) (snd s) f" "first_buckets (fst s)" by (simp_all add: small_refines_def)
  from dict_add_law[OF r(1) 3(2,3), of v] obtain d' m' where
    a: "dict_add p v s = Some (if f k = None then DICT_OK else DICT_ERR, d', m')"
    "dict_refines d' m' (if f k = None then f(k := Some (p, v)) else f)" "key_at m' = key_at (snd s)"
    "mem_room (2 * n) m'" by blast
  have "card (dom f) < 4" using 3(4) by (simp add: DICT_HT_INITIAL_SIZE_def)
  from add_first_buckets[OF r this, of p v] a(1) have "first_buckets d'" by (simp add: dict_add_def)
  with a show ?case by (intro exI[of _ "(d', m')"]) (simp add: small_refines_def)
next
  case (4 s f p k n)
  then have r: "dict_refines (fst s) (snd s) f" "first_buckets (fst s)" by (simp_all add: small_refines_def)
  then have "\<not> dictIsRehashing (fst s)" by (simp add: first_buckets_def)
  from dictDel_result[OF r(1) this 4(2)] obtain q d' m' where
    d: "dictDel p (fst s) (snd s) = Some (q, d', m')" and
    res: "if \<exists>v. f k = Some (p, v)
     then dict_refines d' m' (f(k := None)) \<and> (\<exists>e. deref (snd s) q = Some e \<and> f k = Some (de_key e, de_val e)) \<and>
       deref m' q = None
     else q = NULL \<and> d' = fst s \<and> m' = snd s" by blast
  note same = del_first_buckets[OF r(2) d]
  have "cstr m' = cstr (snd s)" using same by (intro cstr_cong) simp
  then have key: "key_at m' = key_at (snd s)" by (intro ext) (simp only: key_at_def)
  have room: "mem_room (2 * n) m'" using same 4(3) by (simp add: mem_room_def)
  show ?case
  proof (cases "map_option fst (f k) = Some p")
    case True
    then have "\<exists>v. f k = Some (p, v)" by auto
    with res have "dict_refines d' m' (f(k := None))" "q \<noteq> NULL" by (auto simp: deref_def split: option.splits)
    with d True key room same show ?thesis
      by (intro exI[of _ "(d', m')"]) (simp add: dict_del_def small_refines_def)
  next
    case False
    then have "\<not> (\<exists>v. f k = Some (p, v))" by auto
    with res have "q = NULL" "d' = fst s" "m' = snd s" by simp_all
    with d False r 4(3) show ?thesis
      by (intro exI[of _ s]) (simp add: dict_del_def small_refines_def)
  qed
qed (simp add: mem_room_def)

text \<open>
  C4.  With deletion: any sequence of \<open>dictAdd\<close>, \<open>dictGet\<close> and \<open>dictDel\<close> calls on a fresh table in which
  every call of \<open>dictAdd\<close>, also one that is going to fail, finds fewer than four entries, returns normally
  and answers exactly like an abstract map in which the first insertion under a content wins and a
  deletion removes a content only if it is given the very pointer it was inserted under.
\<close>

theorem small_table_refines_map:
  assumes "mem_room (1 + 2 * length ops) m"
    and "\<forall>x \<in> set ops. key_at m (map_key x) (c (map_key x))"
    and "fits (unat DICT_HT_INITIAL_SIZE) c ops Map.empty"
  shows "\<exists>d m' s. dictCreate m = (Some d, m') \<and>
    map_run dict_add dict_get dict_del ops (d, m') = Some (fst (spec_steps c ops Map.empty), s)"
proof -
  have "mem_room 1 m" using assms(1) by (simp add: mem_room_def)
  from dictCreate_refines[OF this] obtain d m' where d: "dictCreate m = (Some d, m')"
    "dict_refines d m' Map.empty" "strs m' = strs m" "mallocs m' = []" "brk m' = Suc (brk m)"
    by blast
  have "d = dictInit" using d(1) by (auto simp: dictCreate_def split: prod.splits option.splits)
  then have "small_refines (d, m') Map.empty"
    using d(2) by (simp add: small_refines_def first_buckets_def dictIsRehashing_def dictInit_def dictReset_def)
  moreover have "key_at m' = key_at m" by (intro ext) (simp add: key_at_def cstr_cong[OF d(3)])
  then have "\<forall>x \<in> set ops. key_at (snd (d, m')) (map_key x) (c (map_key x))" using assms(2) by simp
  moreover have "mem_room (2 * length ops) (snd (d, m'))"
    using assms(1) d(4,5) by (simp add: mem_room_def)
  ultimately show ?thesis
    using sm.run_refines[of "(d, m')" Map.empty ops c] assms(3) d(1) by auto
qed

theorem small_table_refines_map_witness:
  "\<exists>d m s. dictCreate demo_mem = (Some d, m) \<and>
     map_run dict_add dict_get dict_del
       [OpAdd (Some 0) (Some 50), OpDel (Some 20), OpGet (Some 20), OpDel (Some 0), OpGet (Some 0)] (d, m) =
     Some ([RAdd 1, RDel False, RGet (Some (Some 0, Some 50)), RDel True, RGet None], s)"
proof -
  let ?ops = "[OpAdd (Some 0) (Some 50), OpDel (Some 20), OpGet (Some 20), OpDel (Some 0), OpGet (Some 0)]"
    and ?c = "\<lambda>p. (case p of None \<Rightarrow> [] | Some a \<Rightarrow> [word_of_nat (97 + a mod 20) :: byte])"
  have "mem_room (1 + 2 * length ?ops) demo_mem" by (rule demo_mem_room) simp
  moreover have "\<forall>x \<in> set ?ops. key_at demo_mem (map_key x) (?c (map_key x))"
    using demo_mem_key[of 0] demo_mem_key[of 20] by simp
  ultimately show ?thesis
    using small_table_refines_map[of ?ops demo_mem ?c] by (simp add: DICT_OK_def DICT_HT_INITIAL_SIZE_def)
qed

text \<open>
  The condition is needed: a fifth \<open>dictAdd\<close> starts a rehash even if its key is present, and then the
  calls go wrong although the table has never held more than four entries.
\<close>

theorem fifth_add_breaks_deletion:
  "\<exists>d m. dictCreate demo_mem = (Some d, m) \<and>
     map_run dict_add dict_get dict_del
       [OpAdd (Some 0) (Some 50), OpAdd (Some 1) (Some 51), OpAdd (Some 2) (Some 52), OpAdd (Some 3) (Some 53),
        OpAdd (Some 0) (Some 50), OpDel (Some 3), OpAdd (Some 4) (Some 54), OpDel (Some 4), OpGet (Some 4)] (d, m) = None"
  by (simp add: dict_eval dict_add_def dict_get_def dict_del_def dictDel_def del_walk.simps unlink_def free_def)

end
