(* ===== verification/Posix.thy ===== *)
theory Posix
  imports Net_Prelude
begin

text \<open>
  The operating system as the programs see it.  A process runs in a \<open>world\<close>: for every descriptor
  the stream of things that reading it will bring, the coming answers to all other system calls,
  the thread's \<open>errno\<close>, and the trace of what the process did.  The streams and the answers are
  arbitrary, so a statement about all worlds is a statement about all behaviours of the network and
  the kernel; an exhausted script is a call that blocks.
\<close>

subsection \<open>Errors, descriptors and calls\<close>

definition EINTR :: int where "EINTR = 4"
definition EBADF :: int where "EBADF = 9"
definition EAGAIN :: int where "EAGAIN = 11"
definition ECONNRESET :: int where "ECONNRESET = 104"

definition STDIN_FILENO :: int where "STDIN_FILENO = 0"

text \<open>
  What reading a stream socket brings next: a segment of bytes, a failed call with its \<open>errno\<close>,
  or the end of the stream (which stays).
\<close>

datatype rx = RxData "byte list" | RxErr int | RxEof

datatype answer = AOk int | AErr int | AReady "(int \<times> nat) list"

datatype sysc =
    Socket string string
  | Setsockopt int string
  | Fcntl int string
  | Bind int int
  | Listen int int
  | Accept int
  | Connect int "byte list" int
  | Close int
  | Shutdown int
  | Signal string string
  | EpollCreate
  | EpollCtl int string int nat
  | Fork
  | Sleep int
  | Chdir "byte list"
  | ThreadCreate
  | Select int
  | Waitpid

datatype event =
    ESys sysc int
  | ERead int "byte list"
  | EWrite int "byte list" int
  | EPrint "byte list"
  | ECall nat ptr

record world =
  rx :: "int \<Rightarrow> rx list"
  answers :: "answer list"
  errno :: int
  trace :: "event list"

type_synonym 'a io = "world \<Rightarrow> 'a outcome \<times> world"

definition ret :: "'a \<Rightarrow> 'a io" where
  "ret x w = (Ret x, w)"

definition bnd :: "'a io \<Rightarrow> ('a \<Rightarrow> 'b io) \<Rightarrow> 'b io" where
  "bnd m f w = (case m w of
     (Ret x, w) \<Rightarrow> f x w
   | (Exit c, w) \<Rightarrow> (Exit c, w)
   | (Blocked, w) \<Rightarrow> (Blocked, w)
   | (Fault e, w) \<Rightarrow> (Fault e, w))"

text \<open>\<open>error(1, ...)\<close> and \<open>exit(c)\<close> end the process; \<open>error(0, ...)\<close> only prints.\<close>

definition die :: "int \<Rightarrow> 'a io" where
  "die c w = (Exit c, w)"

definition fault :: "fault \<Rightarrow> 'a io" where
  "fault e w = (Fault e, w)"

definition get_errno :: "int io" where
  "get_errno w = (Ret (errno w), w)"

definition log_event :: "event \<Rightarrow> world \<Rightarrow> world" where
  "log_event e w = w\<lparr>trace := trace w @ [e]\<rparr>"

definition print :: "byte list \<Rightarrow> unit io" where
  "print bs w = (Ret (), log_event (EPrint bs) w)"

text \<open>The \<open>%d\<close> of a format.\<close>

fun dec_nat :: "nat \<Rightarrow> byte list" where
  "dec_nat n = (if n < 10 then [of_nat (48 + n)] else dec_nat (n div 10) @ [of_nat (48 + n mod 10)])"

declare dec_nat.simps [simp del]

definition dec :: "int \<Rightarrow> byte list" where
  "dec i = (if i < 0 then [45] else []) @ dec_nat (nat \<bar>i\<bar>)"

subsection \<open>Reading a stream\<close>

text \<open>One \<open>read\<close> or \<open>recv\<close> of at most \<open>n\<close> bytes; \<open>None\<close> is a call that blocks for ever.\<close>

fun rx_read :: "nat \<Rightarrow> rx list \<Rightarrow> ((int + byte list) \<times> rx list) option" where
  "rx_read n [] = None"
| "rx_read n (RxErr e # xs) = Some (Inl e, xs)"
| "rx_read n (RxEof # xs) = Some (Inr [], RxEof # xs)"
| "rx_read n (RxData bs # xs) =
     (if bs = [] then rx_read n xs
      else Some (Inr (take n bs), if length bs \<le> n then xs else RxData (drop n bs) # xs))"

text \<open>The call returns the C result and the bytes it stored in the buffer.\<close>

definition sys_read :: "int \<Rightarrow> nat \<Rightarrow> (int \<times> byte list) io" where
  "sys_read fd n w = (case rx_read n (rx w fd) of
     None \<Rightarrow> (Blocked, w)
   | Some (Inl e, xs) \<Rightarrow> (Ret (-1, []), w\<lparr>rx := (rx w)(fd := xs), errno := e\<rparr>)
   | Some (Inr bs, xs) \<Rightarrow>
       (Ret (int (length bs), bs), log_event (ERead fd bs) (w\<lparr>rx := (rx w)(fd := xs)\<rparr>)))"

subsection \<open>Writing and all other calls\<close>

text \<open>A \<open>write\<close> or \<open>send\<close> accepts a prefix of the bytes, as many as the answer says.\<close>

definition sys_write :: "int \<Rightarrow> byte list \<Rightarrow> int io" where
  "sys_write fd bs w = (case answers w of
     [] \<Rightarrow> (Blocked, w)
   | AErr e # as \<Rightarrow> (Ret (-1), log_event (EWrite fd bs (-1)) (w\<lparr>answers := as, errno := e\<rparr>))
   | AOk n # as \<Rightarrow> (let r = max 0 (min n (int (length bs)))
       in (Ret r, log_event (EWrite fd bs r) (w\<lparr>answers := as\<rparr>)))
   | AReady _ # as \<Rightarrow> (let r = int (length bs)
       in (Ret r, log_event (EWrite fd bs r) (w\<lparr>answers := as\<rparr>))))"

definition sys :: "sysc \<Rightarrow> int io" where
  "sys c w = (case answers w of
     [] \<Rightarrow> (Blocked, w)
   | AErr e # as \<Rightarrow> (Ret (-1), log_event (ESys c (-1)) (w\<lparr>answers := as, errno := e\<rparr>))
   | AOk n # as \<Rightarrow> (Ret (max 0 n), log_event (ESys c (max 0 n)) (w\<lparr>answers := as\<rparr>))
   | AReady rs # as \<Rightarrow> (Ret (int (length rs)), log_event (ESys c (int (length rs))) (w\<lparr>answers := as\<rparr>)))"

text \<open>
  \<open>poll\<close>, \<open>select\<close> and \<open>epoll_wait\<close>: the result and what is ready, as pairs of a descriptor (for
  \<open>poll\<close>: an index of the array) and its event bits.
\<close>

definition sys_wait :: "(int \<times> (int \<times> nat) list) io" where
  "sys_wait w = (case answers w of
     [] \<Rightarrow> (Blocked, w)
   | AErr e # as \<Rightarrow> (Ret (-1, []), w\<lparr>answers := as, errno := e\<rparr>)
   | AOk n # as \<Rightarrow> (Ret (0, []), w\<lparr>answers := as\<rparr>)
   | AReady rs # as \<Rightarrow> (Ret (int (length rs), rs), w\<lparr>answers := as\<rparr>))"

text \<open>A \<open>select\<close> with a timeout in seconds, which the trace shows; a result of 0 is a timeout.\<close>

definition sys_select :: "int \<Rightarrow> (int \<times> (int \<times> nat) list) io" where
  "sys_select sec = bnd sys_wait (\<lambda>(r, rs) w. (Ret (r, rs), log_event (ESys (Select sec) r) w))"

text \<open>The event bits reported for one descriptor.\<close>

definition revents :: "(int \<times> nat) list \<Rightarrow> int \<Rightarrow> nat" where
  "revents rs i = (case map_of rs i of None \<Rightarrow> 0 | Some e \<Rightarrow> e)"

subsection \<open>What the trace shows\<close>

fun bytes_read :: "int \<Rightarrow> event list \<Rightarrow> byte list" where
  "bytes_read fd [] = []"
| "bytes_read fd (ERead fd' bs # es) = (if fd = fd' then bs else []) @ bytes_read fd es"
| "bytes_read fd (_ # es) = bytes_read fd es"

text \<open>The bytes the kernel accepted.\<close>

fun bytes_sent :: "int \<Rightarrow> event list \<Rightarrow> byte list" where
  "bytes_sent fd [] = []"
| "bytes_sent fd (EWrite fd' bs r # es) =
     (if fd = fd' then take (nat r) bs else []) @ bytes_sent fd es"
| "bytes_sent fd (_ # es) = bytes_sent fd es"

fun prints :: "event list \<Rightarrow> byte list list" where
  "prints [] = []"
| "prints (EPrint bs # es) = bs # prints es"
| "prints (_ # es) = prints es"

text \<open>The messages written to a descriptor, each as it was handed to the kernel.\<close>

fun writes :: "int \<Rightarrow> event list \<Rightarrow> byte list list" where
  "writes fd [] = []"
| "writes fd (EWrite fd' bs r # es) = (if fd = fd' then [bs] else []) @ writes fd es"
| "writes fd (_ # es) = writes fd es"

lemma writes_append [simp]: "writes fd (xs @ ys) = writes fd xs @ writes fd ys"
  by (induction xs rule: writes.induct) auto

lemma prints_append [simp]: "prints (xs @ ys) = prints xs @ prints ys"
  by (induction xs rule: prints.induct) auto

lemma bytes_read_append [simp]: "bytes_read fd (xs @ ys) = bytes_read fd xs @ bytes_read fd ys"
  by (induction xs rule: bytes_read.induct) auto

lemma bytes_sent_append [simp]: "bytes_sent fd (xs @ ys) = bytes_sent fd xs @ bytes_sent fd ys"
  by (induction xs rule: bytes_sent.induct) auto

subsection \<open>Streams up to segmentation\<close>

text \<open>
  A clean stream brings only data and interrupted calls; its payload is what an application
  protocol is about, and is independent of how TCP cut it into segments.
\<close>

definition clean :: "rx list \<Rightarrow> bool" where
  "clean xs \<longleftrightarrow> (\<forall>x \<in> set xs. x = RxErr EINTR \<or> (\<exists>bs. x = RxData bs))"

fun payload :: "rx list \<Rightarrow> byte list" where
  "payload [] = []"
| "payload (RxData bs # xs) = bs @ payload xs"
| "payload (_ # xs) = payload xs"

text \<open>What one reader can still take from a stream: it shrinks with every call but the last.\<close>

fun rx_weight :: "rx list \<Rightarrow> nat" where
  "rx_weight [] = 0"
| "rx_weight (RxData bs # xs) = Suc (length bs) + rx_weight xs"
| "rx_weight (_ # xs) = Suc (rx_weight xs)"

lemma clean_simps [simp]:
  "clean []" "clean (RxData bs # xs) = clean xs" "clean (RxErr EINTR # xs) = clean xs"
  "\<not> clean (RxEof # xs)"
  by (auto simp: clean_def)

lemma clean_append [simp]: "clean (xs @ ys) \<longleftrightarrow> clean xs \<and> clean ys"
  by (auto simp: clean_def)

lemma payload_append [simp]: "payload (xs @ ys) = payload xs @ payload ys"
  by (induction xs rule: payload.induct) auto

lemma rx_read_weight_err: "rx_read n xs = Some (Inl e, ys) \<Longrightarrow> rx_weight ys < rx_weight xs"
  by (induction n xs rule: rx_read.induct) (auto split: if_splits)

lemma rx_read_weight_data:
  "rx_read n xs = Some (Inr bs, ys) \<Longrightarrow> bs \<noteq> [] \<Longrightarrow> rx_weight ys < rx_weight xs"
  by (induction n xs rule: rx_read.induct) (auto split: if_splits)

lemma rx_read_eof: "rx_read n xs = Some (Inr [], ys) \<Longrightarrow> rx_weight ys \<le> rx_weight xs"
  by (induction n xs rule: rx_read.induct) (auto split: if_splits)

lemma rx_read_length: "rx_read n xs = Some (Inr bs, ys) \<Longrightarrow> length bs \<le> n"
  by (induction n xs rule: rx_read.induct) (auto split: if_splits)

lemma rx_weight_append [simp]: "rx_weight (xs @ ys) = rx_weight xs + rx_weight ys"
  by (induction xs rule: rx_weight.induct) auto

text \<open>Reading a clean prefix of a stream: an interruption, some data, or the prefix is used up.\<close>

lemma rx_read_clean:
  assumes "clean xs" and "0 < n"
  shows "(\<exists>ys. rx_read n (xs @ zs) = Some (Inl EINTR, ys @ zs) \<and> clean ys \<and>
        payload ys = payload xs \<and> rx_weight ys < rx_weight xs) \<or>
    (\<exists>bs ys. rx_read n (xs @ zs) = Some (Inr bs, ys @ zs) \<and> bs \<noteq> [] \<and> length bs \<le> n \<and>
        clean ys \<and> payload xs = bs @ payload ys \<and> rx_weight ys < rx_weight xs) \<or>
    (payload xs = [] \<and> rx_read n (xs @ zs) = rx_read n zs)"
  using assms
proof (induction n xs rule: rx_read.induct)
  case (4 n bs xs)
  show ?case
  proof (cases "bs = []")
    case False
    with 4 show ?thesis
      by (cases "length bs \<le> n") (auto intro!: exI[of _ "take n bs"] exI[of _ "RxData (drop n bs) # xs"])
  qed (use 4 in fastforce)
qed (auto simp: clean_def)

text \<open>A stream that brings only data for now.\<close>

definition data_only :: "rx list \<Rightarrow> bool" where
  "data_only xs \<longleftrightarrow> (\<forall>x \<in> set xs. \<exists>bs. x = RxData bs)"

lemma rx_read_data:
  assumes "data_only xs" and "0 < n"
  shows "(\<exists>bs ys. rx_read n (xs @ zs) = Some (Inr bs, ys @ zs) \<and> bs \<noteq> [] \<and> data_only ys \<and>
        payload xs = bs @ payload ys \<and> rx_weight ys < rx_weight xs) \<or>
    (payload xs = [] \<and> rx_read n (xs @ zs) = rx_read n zs)"
  using assms
proof (induction n xs rule: rx_read.induct)
  case (4 n bs xs)
  show ?case
  proof (cases "bs = []")
    case False
    with 4 show ?thesis
      by (cases "length bs \<le> n")
        (auto simp: data_only_def intro!: exI[of _ "take n bs"] exI[of _ "RxData (drop n bs) # xs"])
  qed (use 4 in \<open>fastforce simp: data_only_def\<close>)
qed (auto simp: data_only_def)

text \<open>The stream of \<open>fd\<close> brings the bytes \<open>bs\<close>, cut in whatever way, and then \<open>zs\<close>.\<close>

definition brings :: "world \<Rightarrow> int \<Rightarrow> byte list \<Rightarrow> rx list \<Rightarrow> bool" where
  "brings w fd bs zs \<longleftrightarrow> (\<exists>xs. rx w fd = xs @ zs \<and> data_only xs \<and> payload xs = bs)"

lemma rx_read_byte:
  assumes "data_only xs" and "payload xs = b # bs"
  shows "\<exists>ys. rx_read (Suc 0) (xs @ zs) = Some (Inr [b], ys @ zs) \<and> data_only ys \<and> payload ys = bs"
  using rx_read_data[OF assms(1) zero_less_Suc[of 0], of zs]
proof (elim disjE exE conjE)
  fix cs ys
  assume r: "rx_read (Suc 0) (xs @ zs) = Some (Inr cs, ys @ zs)" "cs \<noteq> []" "data_only ys" "payload xs = cs @ payload ys"
  then have "cs = [b]" using rx_read_length[OF r(1)] assms(2) by (cases cs) auto
  with r assms(2) show ?thesis by (intro exI[of _ ys]) simp
qed (use assms(2) in simp_all)

subsection \<open>Loops over the world\<close>

text \<open>A recursive call after a bind happens in the world the first action leaves.\<close>

lemma bnd_cong [fundef_cong]:
  assumes "m w = m' w'" and "\<And>x v. m' w' = (Ret x, v) \<Longrightarrow> f x v = f' x v"
  shows "bnd m f w = bnd m' f' w'"
  using assms by (auto simp: bnd_def split: prod.splits outcome.splits)

lemma bnd_Ret [simp]: "m w = (Ret x, v) \<Longrightarrow> bnd m f w = f x v"
  by (simp add: bnd_def)

lemma bnd_Exit [simp]: "m w = (Exit c, v) \<Longrightarrow> bnd m f w = (Exit c, v)"
  by (simp add: bnd_def)

lemma bnd_Fault [simp]: "m w = (Fault e, v) \<Longrightarrow> bnd m f w = (Fault e, v)"
  by (simp add: bnd_def)

lemma bnd_Blocked [simp]: "m w = (Blocked, v) \<Longrightarrow> bnd m f w = (Blocked, v)"
  by (simp add: bnd_def)

lemma if_io [simp]:
  "(if b then f else g) w = (if b then f w else g w)" for f :: "world \<Rightarrow> 'a outcome \<times> world"
  by simp

lemma bnd_RetE:
  assumes "bnd m f w = (Ret y, w')"
  obtains x v where "m w = (Ret x, v)" "f x v = (Ret y, w')"
  using assms by (auto simp: bnd_def split: prod.splits outcome.splits)

lemma io_simps [simp]:
  "ret x w = (Ret x, w)" "die c w = (Exit c, w)" "fault e w = (Fault e, w)"
  "get_errno w = (Ret (errno w), w)" "print bs w = (Ret (), log_event (EPrint bs) w)"
  by (simp_all add: ret_def die_def fault_def get_errno_def print_def)

lemma log_event_simps [simp]:
  "rx (log_event e w) = rx w" "answers (log_event e w) = answers w" "errno (log_event e w) = errno w"
  "trace (log_event e w) = trace w @ [e]"
  by (simp_all add: log_event_def)

lemma rx_sys: "sys c w = (r, w') \<Longrightarrow> rx w' = rx w"
  by (auto simp: sys_def Let_def split: list.splits answer.splits)

lemma rx_sys_write: "sys_write fd bs w = (r, w') \<Longrightarrow> rx w' = rx w"
  by (auto simp: sys_write_def Let_def split: list.splits answer.splits)

text \<open>A computation that does not touch the world.\<close>

definition of_outcome :: "'a outcome \<Rightarrow> 'a io" where
  "of_outcome r w = (r, w)"

lemma of_outcome_simps [simp]: "of_outcome r w = (r, w)"
  by (simp add: of_outcome_def)

text \<open>Actions that read nothing.\<close>

definition keeps_rx :: "'a io \<Rightarrow> bool" where
  "keeps_rx m \<longleftrightarrow> (\<forall>w r w'. m w = (r, w') \<longrightarrow> rx w' = rx w)"

lemma keeps_rxD: "keeps_rx m \<Longrightarrow> m w = (r, w') \<Longrightarrow> rx w' = rx w"
  by (simp add: keeps_rx_def)

lemma keeps_rx_bnd:
  assumes "keeps_rx m" and "\<And>x. keeps_rx (f x)"
  shows "keeps_rx (bnd m f)"
  unfolding keeps_rx_def
proof (intro allI impI)
  fix w r w'
  assume b: "bnd m f w = (r, w')"
  obtain o1 v where m: "m w = (o1, v)" by (cases "m w")
  from keeps_rxD[OF assms(1) m] have v: "rx v = rx w" .
  show "rx w' = rx w"
  proof (cases o1)
    case (Ret x)
    then have "f x v = (r, w')" using b m by simp
    from keeps_rxD[OF assms(2) this] v show ?thesis by simp
  qed (use b m v in simp_all)
qed

lemma keeps_rx_basic:
  "keeps_rx (ret x)" "keeps_rx (die c)" "keeps_rx (fault e)" "keeps_rx (print bs)" "keeps_rx get_errno"
  "keeps_rx (sys c')" "keeps_rx (sys_write fd bs)"
  by (auto simp: keeps_rx_def dest: rx_sys rx_sys_write)

lemma keeps_rx_more:
  "keeps_rx (of_outcome r)" "keeps_rx f \<Longrightarrow> keeps_rx g \<Longrightarrow> keeps_rx (if b then f else g)"
  by (simp_all add: keeps_rx_def)

declare keeps_rx_bnd [io_intros] keeps_rx_basic [io_intros] keeps_rx_more [io_intros]

lemma answers_sys_write: "sys_write fd bs w = (Ret r, w') \<Longrightarrow> length (answers w') < length (answers w)"
  by (auto simp: sys_write_def Let_def split: list.splits answer.splits)

lemma answers_sys_wait: "sys_wait w = (Ret x, w') \<Longrightarrow> length (answers w') < length (answers w)"
  by (auto simp: sys_wait_def split: list.splits answer.splits)

lemma answers_sys_select:
  assumes "sys_select sec w = (Ret x, w')"
  shows "length (answers w') < length (answers w)"
proof -
  from assms obtain y v where "sys_wait w = (Ret y, v)" "answers w' = answers v"
    unfolding sys_select_def by (auto elim!: bnd_RetE split: prod.splits)
  then show ?thesis using answers_sys_wait by metis
qed

lemma answers_sys_read: "sys_read fd n w = (x, w') \<Longrightarrow> answers w' = answers w"
  by (auto simp: sys_read_def split: option.splits sum.splits)

lemma answers_sys: "sys c w = (Ret r, w') \<Longrightarrow> length (answers w') < length (answers w)"
  by (auto simp: sys_def Let_def split: list.splits answer.splits)

lemma sys_write_result:
  assumes "sys_write fd bs w = (Ret r, v)"
  shows "(r = -1 \<or> 0 \<le> r) \<and> r \<le> int (length bs) \<and>
    bytes_sent fd (trace v) = bytes_sent fd (trace w) @ take (nat r) bs"
proof (cases "answers w")
  case (Cons a as)
  with assms show ?thesis by (cases a) (auto simp: sys_write_def Let_def)
qed (use assms in \<open>simp add: sys_write_def\<close>)

lemma sys_read_cases:
  assumes "sys_read fd n w = (Ret (r, bs), w')"
  shows "(r = -1 \<and> bs = []) \<or> (r = int (length bs) \<and> length bs \<le> n)"
  using assms
  by (auto simp: sys_read_def dest: rx_read_length split: option.splits sum.splits)

lemma rx_weight_sys_read:
  assumes "sys_read fd n w = (Ret (r, bs), w')" and "0 < r"
  shows "rx_weight (rx w' fd) < rx_weight (rx w fd)"
  using assms rx_read_weight_data[of n "rx w fd"]
  by (auto simp: sys_read_def split: option.splits sum.splits)

text \<open>No action adds to the answers that are left.\<close>

definition shrinks :: "'a io \<Rightarrow> bool" where
  "shrinks m \<longleftrightarrow> (\<forall>w r w'. m w = (r, w') \<longrightarrow> length (answers w') \<le> length (answers w))"

lemma shrinksD: "shrinks m \<Longrightarrow> m w = (r, w') \<Longrightarrow> length (answers w') \<le> length (answers w)"
  by (simp add: shrinks_def)

lemma shrinks_bnd:
  assumes "shrinks m" and "\<And>x. shrinks (f x)"
  shows "shrinks (bnd m f)"
  unfolding shrinks_def
proof (intro allI impI)
  fix w r w'
  assume b: "bnd m f w = (r, w')"
  obtain o1 v where m: "m w = (o1, v)" by (cases "m w")
  from shrinksD[OF assms(1) m] have v: "length (answers v) \<le> length (answers w)" .
  show "length (answers w') \<le> length (answers w)"
  proof (cases o1)
    case (Ret x)
    then have "f x v = (r, w')" using b m by simp
    from shrinksD[OF assms(2) this] v show ?thesis by linarith
  qed (use b m v in simp_all)
qed

lemma shrinks_basic:
  "shrinks (ret x)" "shrinks (die c)" "shrinks (fault e)" "shrinks (print bs)" "shrinks get_errno"
  "shrinks (sys c')" "shrinks (sys_write fd bs)" "shrinks (sys_read fd n)"
proof -
  show "shrinks (sys c')"
    by (auto simp: shrinks_def sys_def Let_def split: list.splits answer.splits)
  show "shrinks (sys_write fd bs)"
    by (auto simp: shrinks_def sys_write_def Let_def split: list.splits answer.splits)
  show "shrinks (sys_read fd n)" by (auto simp: shrinks_def dest: answers_sys_read)
qed (auto simp: shrinks_def)

lemma shrinks_more:
  "shrinks (of_outcome r)" "shrinks f \<Longrightarrow> shrinks g \<Longrightarrow> shrinks (if b then f else g)"
  by (simp_all add: shrinks_def)

declare shrinks_bnd [io_intros] shrinks_basic [io_intros] shrinks_more [io_intros]

text \<open>
  How many answers an action may use up: with that many it does not block.
\<close>

definition needs :: "nat \<Rightarrow> 'a io \<Rightarrow> bool" where
  "needs n m \<longleftrightarrow> (\<forall>w r w'. n \<le> length (answers w) \<longrightarrow> m w = (r, w') \<longrightarrow>
     r \<noteq> Blocked \<and> length (answers w) \<le> length (answers w') + n)"

lemma needsD:
  assumes "needs n m" and "n \<le> length (answers w)" and "m w = (r, w')"
  shows "r \<noteq> Blocked" and "length (answers w) \<le> length (answers w') + n"
  using assms unfolding needs_def by blast+

lemma needs_bnd:
  assumes "needs a m" and "\<And>x. needs b (f x)"
  shows "needs (a + b) (bnd m f)"
  unfolding needs_def
proof (intro allI impI)
  fix w r w'
  assume n: "a + b \<le> length (answers w)" and run: "bnd m f w = (r, w')"
  obtain r1 v where m: "m w = (r1, v)" by (cases "m w")
  have 1: "r1 \<noteq> Blocked" "length (answers w) \<le> length (answers v) + a"
    using needsD[OF assms(1) _ m] n by simp_all
  show "r \<noteq> Blocked \<and> length (answers w) \<le> length (answers w') + (a + b)"
  proof (cases r1)
    case (Ret x)
    then have "f x v = (r, w')" using m run by simp
    from needsD[OF assms(2) _ this] 1 n show ?thesis by auto
  qed (use 1 m run in auto)
qed

lemma needs_mono:
  assumes "needs a m" and "a \<le> b"
  shows "needs b m"
  unfolding needs_def
proof (intro allI impI)
  fix w r w'
  assume "b \<le> length (answers w)" and "m w = (r, w')"
  with needsD[OF assms(1), of w r w'] assms(2)
  show "r \<noteq> Blocked \<and> length (answers w) \<le> length (answers w') + b" by simp
qed

lemma needs_basic:
  "needs 0 (ret x)" "needs 0 (die c)" "needs 0 (fault e)" "needs 0 (print bs)" "needs 0 get_errno"
  "needs 1 (sys c')" "needs 1 (sys_write fd bs)"
proof -
  show "needs 1 (sys c')"
    by (auto simp: needs_def sys_def Let_def split: list.splits answer.splits)
  show "needs 1 (sys_write fd bs)"
    by (auto simp: needs_def sys_write_def Let_def split: list.splits answer.splits)
qed (simp_all add: needs_def)

text \<open>A stream that ends is read to its end: every read returns and shortens what is before it.\<close>

lemma rx_read_before_eof:
  "0 < n \<Longrightarrow> RxEof \<notin> set xs \<Longrightarrow>
     rx_read n (xs @ [RxEof]) = Some (Inr [], [RxEof]) \<or>
     (\<exists>y ys. rx_read n (xs @ [RxEof]) = Some (y, ys @ [RxEof]) \<and> RxEof \<notin> set ys \<and> y \<noteq> Inr [] \<and>
        rx_weight ys < rx_weight xs)"
proof (induction n xs rule: rx_read.induct)
  case (4 n bs xs)
  show ?case
  proof (cases "bs = []")
    case True
    with 4 show ?thesis by fastforce
  next
    case False
    with 4 show ?thesis
      by (cases "length bs \<le> n") (auto intro: exI[of _ "RxData (drop n bs) # xs"] exI[of _ xs])
  qed
qed auto

lemma sys_read_before_eof:
  assumes "rx w fd = xs @ [RxEof]" and "RxEof \<notin> set xs" and "0 < n"
  obtains bs v where "sys_read fd n w = (Ret (0, bs), v)" "answers v = answers w"
  | r bs v ys where "sys_read fd n w = (Ret (r, bs), v)" "answers v = answers w" "r \<noteq> 0"
      "rx v fd = ys @ [RxEof]" "RxEof \<notin> set ys" "rx_weight ys < rx_weight xs"
proof -
  from rx_read_before_eof[OF assms(3,2)] show thesis
  proof (elim disjE exE conjE)
    assume "rx_read n (xs @ [RxEof]) = Some (Inr [], [RxEof])"
    then show thesis using that(1) assms(1) by (auto simp: sys_read_def)
  next
    fix y ys
    assume y: "rx_read n (xs @ [RxEof]) = Some (y, ys @ [RxEof])" "RxEof \<notin> set ys" "y \<noteq> Inr []"
      "rx_weight ys < rx_weight xs"
    show thesis
    proof (cases y)
      case (Inl e)
      have "sys_read fd n w = (Ret (-1, []), w\<lparr>rx := (rx w)(fd := ys @ [RxEof]), errno := e\<rparr>)"
        using y(1) Inl assms(1) by (simp add: sys_read_def)
      from that(2)[OF this] y(2,4) show thesis by simp
    next
      case (Inr bs)
      have "sys_read fd n w = (Ret (int (length bs), bs),
          log_event (ERead fd bs) (w\<lparr>rx := (rx w)(fd := ys @ [RxEof])\<rparr>))"
        using y(1) Inr assms(1) by (simp add: sys_read_def)
      from that(2)[OF this] y(2-4) Inr show thesis by simp
    qed
  qed
qed

end
