(* ===== verification/Common_IO.thy ===== *)
theory Common_IO
  imports Posix
begin

text \<open>
  The shared routines of \<^verbatim>\<open>lib/common.h\<close>: \<open>readn\<close>, and the byte order conversions and line input
  of the C library that the protocols use.
\<close>

subsection \<open>Byte order\<close>

text \<open>The host is little-endian; \<open>htonl\<close> and \<open>ntohl\<close> reverse the four bytes of a word.\<close>

definition store32 :: "u32 \<Rightarrow> byte list" where
  "store32 x = [ucast x, ucast (drop_bit 8 x), ucast (drop_bit 16 x), ucast (drop_bit 24 x)]"

fun load32 :: "byte list \<Rightarrow> u32" where
  "load32 [a, b, c, d] =
     ucast a OR push_bit 8 (ucast b) OR push_bit 16 (ucast c) OR push_bit 24 (ucast d)"
| "load32 _ = 0"

definition htonl :: "u32 \<Rightarrow> u32" where "htonl x = load32 (rev (store32 x))"
definition ntohl :: "u32 \<Rightarrow> u32" where "ntohl x = load32 (rev (store32 x))"

lemma length_store32 [simp]: "length (store32 x) = 4"
  by (simp add: store32_def)

lemma byte_bit_high [simp]:
  "\<not> bit (b :: byte) (8 + n)" "\<not> bit (b :: byte) (16 + n)" "\<not> bit (b :: byte) (24 + n)"
  by (auto dest: bit_imp_le_length)

lemma load_store32 [simp]: "load32 (store32 x) = x"
proof (rule bit_word_eqI)
  fix n
  assume "n < LENGTH(32)"
  then consider "n < 8" | "8 \<le> n" "n < 16" | "16 \<le> n" "n < 24" | "24 \<le> n" "n < 32" by fastforce
  then show "bit (load32 (store32 x)) n = bit x n"
    by cases (auto simp: store32_def bit_or_iff bit_push_bit_iff bit_ucast_iff bit_drop_bit_eq)
qed

lemma store_load32:
  assumes "length bs = 4"
  shows "store32 (load32 bs) = bs"
proof -
  obtain a b c d where bs: "bs = [a, b, c, d]"
    using assms by (auto simp: length_Suc_conv eval_nat_numeral)
  show ?thesis unfolding bs
    by (auto simp: store32_def intro!: bit_word_eqI
        simp: bit_or_iff bit_push_bit_iff bit_ucast_iff bit_drop_bit_eq not_le not_less)
qed

lemma ntohl_htonl [simp]: "ntohl (htonl x) = x"
  by (simp add: ntohl_def htonl_def store_load32)

subsection \<open>\<open>readn\<close>\<close>

text \<open>
  The loop keeps the number of bytes still wanted (an \<open>int\<close>) and has appended what it read to the
  buffer; the result says whether a \<open>read\<close> failed.
\<close>

function readn_loop :: "int \<Rightarrow> int \<Rightarrow> byte list \<Rightarrow> (bool \<times> int \<times> byte list) io" where
  "readn_loop fd len buf w =
     (if len > 0 then
        (case sys_read fd (nat len) w of
          (Ret (r, bs), w') \<Rightarrow>
            (if r < 0 then
               (if errno w' = EINTR then readn_loop fd len buf w' else (Ret (True, len, buf), w'))
             else if r = 0 then (Ret (False, len, buf), w')
             else readn_loop fd (len - r) (buf @ bs) w')
        | (Exit c, w') \<Rightarrow> (Exit c, w')
        | (Blocked, w') \<Rightarrow> (Blocked, w')
        | (Fault e, w') \<Rightarrow> (Fault e, w'))
      else (Ret (False, len, buf), w))"
  by pat_completeness auto
termination
proof (relation "measure (\<lambda>(fd, len, buf, w). rx_weight (rx w fd))", goal_cases)
  case 1
  show ?case by simp
next
  case (2 fd len buf w x w' y r bs)
  then show ?case
    by (auto simp: sys_read_def log_event_def dest!: rx_read_weight_err
        split: option.splits sum.splits prod.splits)
next
  case (3 fd len buf w x w' y r bs)
  then show ?case
    by (auto simp: sys_read_def log_event_def dest!: rx_read_weight_data
        split: option.splits sum.splits prod.splits)
qed

declare readn_loop.simps [simp del]

text \<open>
  The result is a \<open>size_t\<close>; the bytes are the part of the buffer that was written.
\<close>

definition readn :: "int \<Rightarrow> u64 \<Rightarrow> (u64 \<times> byte list) io" where
  "readn fd sz = bnd (readn_loop fd (sint (ucast sz :: u32)) [])
     (\<lambda>(failed, len, buf). ret (if failed then -1 else sz - word_of_int len, buf))"

text \<open>The conversion of that result to the \<open>int\<close> variable of a caller.\<close>

definition size_to_int :: "u64 \<Rightarrow> int" where
  "size_to_int x = sint (ucast x :: u32)"

subsection \<open>What \<open>readn\<close> brings\<close>

text \<open>Everything but the stream of this descriptor, \<open>errno\<close> and the trace is untouched,
  and nothing is printed.\<close>

definition only_reads :: "int \<Rightarrow> world \<Rightarrow> world \<Rightarrow> bool" where
  "only_reads fd w w' \<longleftrightarrow> (\<forall>f. f \<noteq> fd \<longrightarrow> rx w' f = rx w f) \<and> answers w' = answers w \<and>
     prints (trace w') = prints (trace w)"

lemma only_reads_refl [simp]: "only_reads fd w w"
  by (simp add: only_reads_def)

lemma only_reads_trans: "only_reads fd w w' \<Longrightarrow> only_reads fd w' w'' \<Longrightarrow> only_reads fd w w''"
  by (simp add: only_reads_def)

text \<open>
  One iteration while the clean prefix \<open>xs\<close> of the stream lasts: the loop goes on in a world where
  the prefix is lighter, with the data moved to the buffer.
\<close>

lemma readn_loop_step:
  assumes "clean xs" and "rx w fd = xs @ zs" and "0 < k"
    and "\<not> (payload xs = [] \<and> rx_read k (xs @ zs) = rx_read k zs)"
  shows "\<exists>bs ys w'. readn_loop fd (int k) buf w = readn_loop fd (int (k - length bs)) (buf @ bs) w' \<and>
    length bs \<le> k \<and> clean ys \<and> payload xs = bs @ payload ys \<and> rx_weight ys < rx_weight xs \<and>
    rx w' fd = ys @ zs \<and> only_reads fd w w'"
proof -
  from rx_read_clean[OF assms(1,3), of zs] assms(4)
  consider (intr) ys where "rx_read k (rx w fd) = Some (Inl EINTR, ys @ zs)" "clean ys"
      "payload ys = payload xs" "rx_weight ys < rx_weight xs"
    | (data) bs ys where "rx_read k (rx w fd) = Some (Inr bs, ys @ zs)" "bs \<noteq> []" "length bs \<le> k"
      "clean ys" "payload xs = bs @ payload ys" "rx_weight ys < rx_weight xs"
    unfolding assms(2) by blast
  then show ?thesis
  proof cases
    case intr
    let ?w = "w\<lparr>rx := (rx w)(fd := ys @ zs), errno := EINTR\<rparr>"
    have "readn_loop fd (int k) buf w = readn_loop fd (int k) buf ?w"
      using assms(3) intr(1) by (subst readn_loop.simps) (simp add: sys_read_def)
    with intr show ?thesis
      by (intro exI[of _ "[]"] exI[of _ ys] exI[of _ ?w]) (simp add: only_reads_def)
  next
    case data
    let ?w = "log_event (ERead fd bs) (w\<lparr>rx := (rx w)(fd := ys @ zs)\<rparr>)"
    have "readn_loop fd (int k) buf w = readn_loop fd (int k - int (length bs)) (buf @ bs) ?w"
      using assms(3) data(1,2) by (subst readn_loop.simps) (simp add: sys_read_def)
    also have "int k - int (length bs) = int (k - length bs)" using data(3) by simp
    finally have eq: "readn_loop fd (int k) buf w = readn_loop fd (int (k - length bs)) (buf @ bs) ?w" .
    have "rx ?w fd = ys @ zs \<and> only_reads fd w ?w" by (simp add: only_reads_def log_event_def)
    with eq data(3-6) show ?thesis by blast
  qed
qed

lemma readn_loop_full:
  assumes "clean xs" and "rx w fd = xs @ zs" and "k \<le> length (payload xs)"
  shows "\<exists>ys w'. readn_loop fd (int k) buf w = (Ret (False, 0, buf @ take k (payload xs)), w') \<and>
    clean ys \<and> payload ys = drop k (payload xs) \<and> rx w' fd = ys @ zs \<and> only_reads fd w w'"
  using assms
proof (induction "rx_weight xs" arbitrary: xs w k buf rule: less_induct)
  case less
  show ?case
  proof (cases "k = 0")
    case True
    then have "readn_loop fd (int k) buf w = (Ret (False, 0, buf), w)"
      by (subst readn_loop.simps) simp
    with True less.prems show ?thesis by (metis append_Nil2 drop0 only_reads_refl take0)
  next
    case False
    with less.prems have "0 < k" "\<not> (payload xs = [] \<and> rx_read k (xs @ zs) = rx_read k zs)" by auto
    from readn_loop_step[OF less.prems(1,2) this, of buf] obtain bs ys w' where st:
      "readn_loop fd (int k) buf w = readn_loop fd (int (k - length bs)) (buf @ bs) w'"
      "length bs \<le> k" "clean ys" "payload xs = bs @ payload ys" "rx_weight ys < rx_weight xs"
      "rx w' fd = ys @ zs" "only_reads fd w w'" by blast
    have "k - length bs \<le> length (payload ys)" using less.prems(3) st(4) by simp
    from less.hyps[OF st(5,3,6) this, of "buf @ bs"] obtain ys' w'' where r:
      "readn_loop fd (int (k - length bs)) (buf @ bs) w' =
         (Ret (False, 0, (buf @ bs) @ take (k - length bs) (payload ys)), w'')"
      "clean ys'" "payload ys' = drop (k - length bs) (payload ys)" "rx w'' fd = ys' @ zs"
      "only_reads fd w' w''" by blast
    have "(buf @ bs) @ take (k - length bs) (payload ys) = buf @ take k (payload xs)"
      and "drop (k - length bs) (payload ys) = drop k (payload xs)"
      using st(2,4) by simp_all
    then show ?thesis using r st(1) only_reads_trans[OF st(7) r(5)] by auto
  qed
qed

lemma readn_result:
  assumes "int n \<le> INT_MAX" and "readn_loop fd (int n) [] w = (Ret (failed, len, buf), w')"
  shows "readn fd (of_nat n) w = (Ret (if failed then -1 else of_nat n - word_of_int len, buf), w')"
proof -
  have "sint (ucast (of_nat n :: u64) :: u32) = int n"
    using assms(1) by (simp add: unsigned_of_nat signed_of_nat signed_take_bit_int_eq_self
        take_bit_nat_eq_self INT_MAX_def)
  with assms(2) show ?thesis by (simp add: readn_def bnd_def ret_def)
qed

lemma readn_full:
  assumes "clean xs" and "rx w fd = xs @ zs" and "n \<le> length (payload xs)" and "int n \<le> INT_MAX"
  shows "\<exists>ys w'. readn fd (of_nat n) w = (Ret (of_nat n, take n (payload xs)), w') \<and>
    clean ys \<and> payload ys = drop n (payload xs) \<and> rx w' fd = ys @ zs \<and> only_reads fd w w'"
  using readn_loop_full[OF assms(1-3), of "[]"] readn_result[OF assms(4)] by fastforce

text \<open>
  C9.  Whatever segments and interruptions deliver the bytes, \<open>readn\<close> of at most \<open>INT_MAX\<close> bytes
  returns exactly the first \<open>n\<close> bytes of the stream once they are available, and leaves the rest of
  the stream, all other descriptors and all other answers untouched.
\<close>

theorem readn_delivers_exactly:
  assumes "clean xs" and "rx w fd = xs @ zs" and "n \<le> length (payload xs)" and "int n \<le> INT_MAX"
  shows "\<exists>ys w'. readn fd (of_nat n) w = (Ret (of_nat n, take n (payload xs)), w') \<and>
    clean ys \<and> payload ys = drop n (payload xs) \<and> rx w' fd = ys @ zs \<and> only_reads fd w w'"
  by (rule readn_full[OF assms])

text \<open>A stream that ends, or fails with something else than an interruption, before \<open>k\<close> bytes.\<close>

lemma readn_loop_short:
  assumes "clean xs" and "rx w fd = xs @ z # zs" and "length (payload xs) < k"
    and "z = RxEof \<or> (\<exists>e. z = RxErr e \<and> e \<noteq> EINTR)"
  shows "\<exists>w'. readn_loop fd (int k) buf w =
      (Ret (z \<noteq> RxEof, int (k - length (payload xs)), buf @ payload xs), w') \<and>
    rx w' fd = (if z = RxEof then RxEof # zs else zs) \<and> only_reads fd w w'"
  using assms(1-3)
proof (induction "rx_weight xs" arbitrary: xs w k buf rule: less_induct)
  case less
  have k: "0 < k" using less.prems(3) by simp
  show ?case
  proof (cases "payload xs = [] \<and> rx_read k (xs @ z # zs) = rx_read k (z # zs)")
    case True
    with assms(4) k less.prems(2) show ?thesis
      by (subst readn_loop.simps) (auto simp: sys_read_def only_reads_def log_event_def)
  next
    case False
    from readn_loop_step[OF less.prems(1,2) k False, of buf] obtain bs ys w' where st:
      "readn_loop fd (int k) buf w = readn_loop fd (int (k - length bs)) (buf @ bs) w'"
      "length bs \<le> k" "clean ys" "payload xs = bs @ payload ys" "rx_weight ys < rx_weight xs"
      "rx w' fd = ys @ z # zs" "only_reads fd w w'" by blast
    have "length (payload ys) < k - length bs" using less.prems(3) st(4) by simp
    from less.hyps[OF st(5,3,6) this, of "buf @ bs"] show ?thesis
      using st(1,4) only_reads_trans[OF st(7)] by auto
  qed
qed

lemma readn_short:
  assumes "clean xs" and "rx w fd = xs @ z # zs" and "length (payload xs) < n"
    and "int n \<le> INT_MAX" and "z = RxEof \<or> (\<exists>e. z = RxErr e \<and> e \<noteq> EINTR)"
  shows "\<exists>w'. readn fd (of_nat n) w =
      (Ret (if z = RxEof then of_nat (length (payload xs)) else -1, payload xs), w') \<and>
    rx w' fd = (if z = RxEof then RxEof # zs else zs) \<and> only_reads fd w w'"
proof -
  have "(of_nat n :: u64) - word_of_int (int (n - length (payload xs))) =
      of_nat (length (payload xs))"
    using assms(3) by (simp add: of_nat_diff)
  with readn_result[OF assms(4)] readn_loop_short[OF assms(1-3,5), of "[]"] show ?thesis
    by fastforce
qed

text \<open>
  C29.  When the peer closes before \<open>n\<close> bytes have come, \<open>readn\<close> returns the bytes that did come
  and their number; when a call fails with anything but \<open>EINTR\<close>, it returns \<open>(size_t) -1\<close>.
\<close>

theorem readn_short_stream:
  assumes "clean xs" and "rx w fd = xs @ z # zs" and "length (payload xs) < n"
    and "int n \<le> INT_MAX" and "z = RxEof \<or> (\<exists>e. z = RxErr e \<and> e \<noteq> EINTR)"
  shows "\<exists>w'. readn fd (of_nat n) w =
      (Ret (if z = RxEof then of_nat (length (payload xs)) else -1, payload xs), w') \<and>
    rx w' fd = (if z = RxEof then RxEof # zs else zs) \<and> only_reads fd w w'"
  by (rule readn_short[OF assms])

subsection \<open>Line input\<close>

text \<open>
  \<open>fgets(buf, n, stdin)\<close> on the remaining input: at most \<open>n - 1\<close> bytes, up to and including a
  newline; \<open>None\<close> is the null result at the end of the input.
\<close>

fun line_split :: "nat \<Rightarrow> byte list \<Rightarrow> byte list \<times> byte list" where
  "line_split 0 inp = ([], inp)"
| "line_split (Suc n) [] = ([], [])"
| "line_split (Suc n) (b # inp) =
     (if b = 10 then ([b], inp) else (let (l, r) = line_split n inp in (b # l, r)))"

definition fgets :: "nat \<Rightarrow> byte list \<Rightarrow> (byte list \<times> byte list) option" where
  "fgets n inp = (if inp = [] then None else Some (line_split (n - 1) inp))"

text \<open>The bytes before the first NUL: what \<open>strlen\<close> and \<open>%s\<close> see.\<close>

definition cstring :: "byte list \<Rightarrow> byte list" where
  "cstring bs = takeWhile (\<lambda>b. b \<noteq> 0) bs"

text \<open>Bytes stored at the start of a buffer, over what it held.\<close>

definition lay :: "byte list \<Rightarrow> byte list \<Rightarrow> byte list" where
  "lay bs buf = bs @ drop (length bs) buf"

text \<open>\<open>strncmp(cmd, word, strlen(word)) == 0\<close>.\<close>

definition starts_with :: "byte list \<Rightarrow> byte list \<Rightarrow> bool" where
  "starts_with cmd word \<longleftrightarrow> take (length word) cmd = word"

lemma line_split_step:
  "0 < n \<Longrightarrow> line_split n [] = ([], [])"
  "0 < n \<Longrightarrow> line_split n (b # inp) =
     (if b = 10 then ([b], inp) else (let (l, r) = line_split (n - 1) inp in (b # l, r)))"
  by (cases n; simp)+

lemma line_split_append: "line_split n inp = (l, r) \<Longrightarrow> inp = l @ r"
  by (induction n inp arbitrary: l r rule: line_split.induct) (auto split: if_splits prod.splits)

lemma line_split_length: "line_split n inp = (l, r) \<Longrightarrow> length l \<le> n"
  by (induction n inp arbitrary: l r rule: line_split.induct) (auto split: if_splits prod.splits)

lemma line_split_nonempty: "line_split (Suc n) (b # inp) = (l, r) \<Longrightarrow> l \<noteq> []"
  by (auto split: if_splits prod.splits)

lemma fgets_Some:
  assumes "fgets n inp = Some (l, r)" and "2 \<le> n"
  shows "inp = l @ r" and "length l < n" and "l \<noteq> []" and "length r < length inp"
proof -
  obtain b inp' k where inp: "inp = b # inp'" and n: "n - 1 = Suc k"
    using assms by (cases inp; cases "n - 1") (auto simp: fgets_def)
  have sp: "line_split (n - 1) inp = (l, r)" using assms by (auto simp: fgets_def split: if_splits)
  from line_split_append[OF sp] show app: "inp = l @ r" .
  from line_split_length[OF sp] assms(2) show "length l < n" by simp
  from line_split_nonempty sp show "l \<noteq> []" unfolding inp n by blast
  with app show "length r < length inp" by simp
qed

lemma line_split_line: "10 \<notin> set l \<Longrightarrow> length l < n \<Longrightarrow> line_split n (l @ 10 # rest) = (l @ [10], rest)"
proof (induction l arbitrary: n)
  case Nil
  then show ?case by (cases n) auto
next
  case (Cons b l)
  then show ?case by (cases n) auto
qed

lemma fgets_line: "10 \<notin> set l \<Longrightarrow> length l + 2 \<le> n \<Longrightarrow> fgets n (l @ 10 # rest) = Some (l @ [10], rest)"
  by (simp add: fgets_def line_split_line)

lemma cstring_id: "0 \<notin> set bs \<Longrightarrow> cstring bs = bs"
  by (auto simp: cstring_def takeWhile_eq_all_conv)

lemma cstring_append: "0 \<notin> set bs \<Longrightarrow> cstring (bs @ cs) = bs @ cstring cs"
  unfolding cstring_def by (rule takeWhile_append2) auto

lemma cstring_NUL [simp]: "0 \<notin> set bs \<Longrightarrow> cstring (bs @ 0 # cs) = bs"
  by (simp add: cstring_append) (simp add: cstring_def)

text \<open>A small stream for the witnesses: two segments cut by an interruption, then the end.\<close>

definition demo_world :: world where
  "demo_world = \<lparr>rx = (\<lambda>fd. if fd = 5
      then [RxData [1, 2], RxErr EINTR, RxData [3, 4, 5], RxEof] else []),
     answers = [], errno = 0, trace = []\<rparr>"

theorem readn_delivers_exactly_witness:
  "\<exists>w'. readn 5 (of_nat 4) demo_world = (Ret (of_nat 4, [1, 2, 3, 4]), w') \<and>
     answers w' = [] \<and> rx w' 7 = []"
proof -
  let ?xs = "[RxData [1, 2], RxErr EINTR, RxData [3, 4, 5]]"
  have "rx demo_world 5 = ?xs @ [RxEof]" by (simp add: demo_world_def)
  from readn_delivers_exactly[OF _ this, of 4] obtain w' where
    "readn 5 (of_nat 4) demo_world = (Ret (of_nat 4, take 4 (payload ?xs)), w')"
    "only_reads 5 demo_world w'" by (auto simp: INT_MAX_def)
  then show ?thesis by (auto simp: only_reads_def demo_world_def)
qed

theorem readn_short_stream_witness:
  "\<exists>w'. readn 5 (of_nat 10) demo_world = (Ret (of_nat 5, [1, 2, 3, 4, 5]), w') \<and>
     rx w' 5 = [RxEof]"
proof -
  let ?xs = "[RxData [1, 2], RxErr EINTR, RxData [3, 4, 5]]"
  have "rx demo_world 5 = ?xs @ RxEof # []" by (simp add: demo_world_def)
  from readn_short_stream[OF _ this, of 10] show ?thesis by (auto simp: INT_MAX_def)
qed

subsection \<open>Bounds\<close>

text \<open>Whatever the peer sends, the loop stores exactly what it no longer wants.\<close>

lemma readn_loop_bound:
  "readn_loop fd len buf w = (Ret (failed, len', buf'), w') \<Longrightarrow> 0 \<le> len \<Longrightarrow>
     0 \<le> len' \<and> int (length buf') + len' = int (length buf) + len"
proof (induction fd len buf w rule: readn_loop.induct)
  case (1 fd len buf w)
  show ?case
  proof (cases "len > 0")
    case False
    with "1.prems" show ?thesis by (subst (asm) readn_loop.simps) auto
  next
    case True
    then obtain r bs w1 where rd: "sys_read fd (nat len) w = (Ret (r, bs), w1)"
      using "1.prems"(1) by (subst (asm) readn_loop.simps) (auto split: prod.splits outcome.splits)
    then have r: "r < 0 \<or> r = int (length bs) \<and> length bs \<le> nat len"
      by (auto simp: sys_read_def dest!: rx_read_length split: option.splits sum.splits)
    show ?thesis
    proof (cases "r \<le> 0 \<and> \<not> (r < 0 \<and> errno w1 = EINTR)")
      case True
      with rd \<open>len > 0\<close> "1.prems" show ?thesis
        by (subst (asm) readn_loop.simps) (auto split: if_splits)
    next
      case more: False
      show ?thesis
      proof (cases "r < 0")
        case True
        with more have e: "errno w1 = EINTR" by auto
        have "readn_loop fd len buf w1 = (Ret (failed, len', buf'), w')"
          using "1.prems"(1) rd True e \<open>len > 0\<close> by (subst (asm) readn_loop.simps) auto
        from "1.IH"(1)[OF \<open>len > 0\<close> rd[symmetric] refl refl True e this "1.prems"(2)]
        show ?thesis .
      next
        case False
        with r more have r': "r = int (length bs)" "0 < r" "r \<le> len" using True by auto
        have "readn_loop fd (len - r) (buf @ bs) w1 = (Ret (failed, len', buf'), w')"
          using "1.prems"(1) rd r' True by (subst (asm) readn_loop.simps) auto
        with "1.IH"(2)[OF True rd[symmetric] refl refl] r' show ?thesis by simp
      qed
    qed
  qed
qed

lemma readn_bound:
  assumes "readn fd (of_nat n) w = (Ret (r, buf), w')" and "int n \<le> INT_MAX"
  shows "length buf \<le> n \<and> (r = -1 \<or> r = of_nat (length buf))"
proof -
  obtain failed len w'' where l: "readn_loop fd (int n) [] w = (Ret (failed, len, buf), w'')"
    using assms unfolding readn_def
    by (auto simp: bnd_def ret_def unsigned_of_nat signed_of_nat signed_take_bit_int_eq_self
        take_bit_nat_eq_self INT_MAX_def split: prod.splits outcome.splits)
  from readn_loop_bound[OF l] have b: "0 \<le> len" "int (length buf) + len = int n" by simp_all
  from readn_result[OF assms(2) l] assms(1)
  have "r = (if failed then -1 else of_nat n - word_of_int len)" by simp
  moreover have "len = int (n - length buf)" "length buf \<le> n" using b by auto
  ultimately show ?thesis by (auto simp: of_nat_diff)
qed

end
