(* ===== verification/Framing.thy ===== *)
theory Framing
  imports Common_IO
begin

text \<open>
  The length-prefixed messages of \<^verbatim>\<open>chap-16\<close>: the client of
  \<^verbatim>\<open>tcp_explicit_length_client.c\<close> and the server of \<^verbatim>\<open>tcp_explicit_length_server.c\<close>.
\<close>

subsection \<open>The client\<close>

text \<open>The first \<open>sizeof(length) + sizeof(type) + n\<close> bytes of the \<open>message\<close> structure.\<close>

definition frame :: "byte list \<Rightarrow> byte list" where
  "frame buf = (let n = length (cstring buf)
     in store32 (htonl (of_nat n)) @ store32 1 @ take n buf)"

function client_loop :: "int \<Rightarrow> byte list \<Rightarrow> unit io" where
  "client_loop fd inp = (case fgets 128 inp of
     None \<Rightarrow> ret ()
   | Some (buf, rest) \<Rightarrow>
       bnd (print (bytes ''sending bytes: '' @ cstring buf)) (\<lambda>_.
       bnd (sys_write fd (frame buf)) (\<lambda>r. if r < 0 then die 1 else client_loop fd rest)))"
  by pat_completeness auto
termination
  by (relation "measure (\<lambda>(fd, inp). length inp)") (auto dest: fgets_Some(4))

declare client_loop.simps [simp del]

definition explicit_length_client_main :: "nat \<Rightarrow> byte list \<Rightarrow> byte list \<Rightarrow> int io" where
  "explicit_length_client_main argc ip inp =
     (if argc \<noteq> 2 then die 1
      else bnd (sys (Socket ''AF_INET'' ''SOCK_STREAM'')) (\<lambda>fd.
        if fd < 0 then die 1
        else bnd (sys (Connect fd ip 8016)) (\<lambda>r.
        if r < 0 then die 1
        else bnd (client_loop fd inp) (\<lambda>_. ret 0))))"

subsection \<open>The server\<close>

text \<open>The result and the bytes stored at the start of the caller's buffer.\<close>

definition read_message :: "int \<Rightarrow> nat \<Rightarrow> (int \<times> byte list) io" where
  "read_message fd cap =
     bnd (readn fd 4) (\<lambda>(r, lb).
     let rc = size_to_int r in
     if (word_of_int rc :: u64) \<noteq> 4 then ret (if rc < 0 then -1 else 0, [])
     else let msg_length = ntohl (load32 lb) in
     bnd (readn fd 4) (\<lambda>(r, tb).
     let rc = size_to_int r in
     if (word_of_int rc :: u64) \<noteq> 4 then ret (if rc < 0 then -1 else 0, [])
     else if unat msg_length > cap then ret (-1, [])
     else bnd (readn fd (ucast msg_length)) (\<lambda>(r, bs).
     let rc = size_to_int r in
     if (word_of_int rc :: u32) \<noteq> msg_length then ret (if rc < 0 then -1 else 0, bs)
     else ret (rc, bs))))"

text \<open>
  One turn of the server's loop on its 128-byte buffer and its counter: a failed or empty message
  ends the process, else the buffer is printed up to its first NUL.
\<close>

definition overlay :: "byte list \<Rightarrow> byte list \<Rightarrow> byte list" where
  "overlay bs buf = bs @ drop (length bs) buf"

definition server_turn :: "int \<Rightarrow> byte list \<times> int \<Rightarrow> (byte list \<times> int) io" where
  "server_turn fd st = (let (buf, count) = st in
     bnd (read_message fd 128) (\<lambda>(n, bs).
     let buf = overlay bs buf in
     if n < 0 then die 1
     else if n = 0 then die 1
     else if 0 \<in> set buf
          then bnd (print (bytes ''received '' @ dec n @ bytes '' bytes: '' @ cstring buf))
                 (\<lambda>_. ret (buf, count + 1))
          else fault OutOfBounds))"

fun server_turns :: "nat \<Rightarrow> int \<Rightarrow> byte list \<times> int \<Rightarrow> (byte list \<times> int) io" where
  "server_turns 0 fd st = ret st"
| "server_turns (Suc k) fd st = bnd (server_turn fd st) (server_turns k fd)"

text \<open>Start-up: the listening socket, the signal dispositions and one accepted connection.\<close>

definition explicit_length_server_start :: "int io" where
  "explicit_length_server_start =
     bnd (sys (Socket ''AF_INET'' ''SOCK_STREAM'')) (\<lambda>listen_fd.
     if listen_fd < 0 then die 1
     else bnd (sys (Setsockopt listen_fd ''SO_REUSEADDR'')) (\<lambda>_.
     bnd (sys (Bind listen_fd 8016)) (\<lambda>r. if r < 0 then die 1
     else bnd (sys (Listen listen_fd 128)) (\<lambda>r. if r < 0 then die 1
     else bnd (sys (Signal ''SIGPIPE'' ''SIG_IGN'')) (\<lambda>_.
     bnd (sys (Signal ''SIGINT'' ''sigint_handle'')) (\<lambda>_.
     bnd (sys (Accept listen_fd)) (\<lambda>conn_fd. if conn_fd < 0 then die 1
     else ret conn_fd)))))))"

text \<open>The handler of \<open>SIGINT\<close> reports the counter that \<open>server_turn\<close> advances.\<close>

definition explicit_length_server_sigint :: "int \<Rightarrow> unit io" where
  "explicit_length_server_sigint msgs =
     bnd (print (bytes ''\<newline>received count: '' @ dec msgs @ bytes '' \<newline>'')) (\<lambda>_. die 0)"

definition explicit_length_server_main :: "nat \<Rightarrow> byte list \<Rightarrow> (byte list \<times> int) io" where
  "explicit_length_server_main k buf =
     bnd explicit_length_server_start (\<lambda>conn_fd. server_turns k conn_fd (buf, 0))"

subsection \<open>One message\<close>

lemma size_to_int_of_nat [simp]:
  "int n \<le> INT_MAX \<Longrightarrow> size_to_int (of_nat n) = int n"
  by (simp add: size_to_int_def unsigned_of_nat signed_of_nat signed_take_bit_int_eq_self
      take_bit_nat_eq_self INT_MAX_def)

lemma size_to_int_4 [simp]: "size_to_int 4 = 4"
  using size_to_int_of_nat[of 4] by (simp add: INT_MAX_def)

lemma read_message_frame:
  assumes "clean xs" and "rx w fd = xs @ zs" and "payload xs = frame buf @ rest"
    and "0 \<notin> set buf" and "length buf \<le> cap" and "cap \<le> 128"
  shows "\<exists>ys w'. read_message fd cap w = (Ret (int (length buf), buf), w') \<and>
    clean ys \<and> payload ys = rest \<and> rx w' fd = ys @ zs \<and> only_reads fd w w'"
proof -
  let ?n = "length buf" and ?hdr = "store32 (htonl (of_nat (length buf)))"
  have fr: "frame buf = ?hdr @ store32 1 @ buf"
    using assms(4) by (simp add: frame_def cstring_id)
  have "4 \<le> length (payload xs)" by (simp add: assms(3) fr)
  from readn_full[OF assms(1,2) this] obtain ys1 w1 where r1:
    "readn fd 4 w = (Ret (4, ?hdr), w1)" "clean ys1" "payload ys1 = store32 1 @ buf @ rest"
    "rx w1 fd = ys1 @ zs" "only_reads fd w w1" by (auto simp: assms(3) fr INT_MAX_def)
  have "4 \<le> length (payload ys1)" by (simp add: r1(3))
  from readn_full[OF r1(2,4) this] obtain ys2 w2 where r2:
    "readn fd 4 w1 = (Ret (4, store32 1), w2)" "clean ys2" "payload ys2 = buf @ rest"
    "rx w2 fd = ys2 @ zs" "only_reads fd w1 w2" by (auto simp: r1(3) INT_MAX_def)
  have n: "unat (of_nat ?n :: u32) = ?n" "ucast (of_nat ?n :: u32) = (of_nat ?n :: u64)"
    using assms(5,6) by (simp_all add: unat_of_nat unsigned_of_nat take_bit_nat_eq_self)
  have "?n \<le> length (payload ys2)" by (simp add: r2(3))
  moreover have i: "int ?n \<le> INT_MAX" using assms(5,6) by (simp add: INT_MAX_def)
  ultimately obtain ys3 w3 where r3:
    "readn fd (of_nat ?n) w2 = (Ret (of_nat ?n, buf), w3)" "clean ys3" "payload ys3 = rest"
    "rx w3 fd = ys3 @ zs" "only_reads fd w2 w3"
    using readn_full[OF r2(2,4), of ?n] by (auto simp: r2(3))
  have "read_message fd cap w = (Ret (int ?n, buf), w3)"
    using r1(1) r2(1) r3(1) n i assms(5) by (simp add: read_message_def bnd_def ret_def Let_def)
  with r3 r1(5) r2(5) show ?thesis using only_reads_trans by blast
qed

subsection \<open>The whole exchange\<close>

text \<open>The lines the client reads, and the messages a server reads one after the other.\<close>

function client_lines :: "byte list \<Rightarrow> byte list list" where
  "client_lines inp = (case fgets 128 inp of None \<Rightarrow> [] | Some (buf, rest) \<Rightarrow> buf # client_lines rest)"
  by pat_completeness auto
termination
  by (relation "measure length") (auto dest: fgets_Some(4))

declare client_lines.simps [simp del]

fun read_messages :: "nat \<Rightarrow> int \<Rightarrow> byte list list io" where
  "read_messages 0 fd = ret []"
| "read_messages (Suc k) fd = bnd (read_message fd 128) (\<lambda>(n, bs).
     if n \<le> 0 then ret [] else bnd (read_messages k fd) (\<lambda>ms. ret (bs # ms)))"

lemma client_lines_split:
  "concat (client_lines inp) = inp \<and> (\<forall>l \<in> set (client_lines inp). l \<noteq> [] \<and> length l < 128)"
proof (induction inp rule: client_lines.induct)
  case (1 inp)
  show ?case
  proof (cases "fgets 128 inp")
    case None
    then have "inp = []" by (simp add: fgets_def split: if_splits)
    with None show ?thesis by (simp add: client_lines.simps)
  next
    case (Some p)
    obtain buf rest where p: "p = (buf, rest)" by (cases p)
    note s = fgets_Some[OF Some[unfolded p]]
    have "client_lines inp = buf # client_lines rest"
      by (subst client_lines.simps) (simp add: Some p)
    with "1.IH"[OF Some p[symmetric]] s show ?thesis by simp
  qed
qed

lemma client_lines_no_NUL: "0 \<notin> set inp \<Longrightarrow> l \<in> set (client_lines inp) \<Longrightarrow> 0 \<notin> set l"
  using client_lines_split[of inp] by (metis UN_I set_concat)

text \<open>A send is complete when the answer accepts at least the bytes offered.\<close>

lemma client_loop_sends:
  assumes "answers w = map AOk ns" and "length ns = length (client_lines inp)"
    and "\<forall>n \<in> set ns. 136 \<le> n"
  shows "\<exists>w'. client_loop fd inp w = (Ret (), w') \<and>
    bytes_sent fd (trace w') = bytes_sent fd (trace w) @ concat (map frame (client_lines inp))"
  using assms
proof (induction inp arbitrary: w ns rule: client_lines.induct)
  case (1 inp)
  show ?case
  proof (cases "fgets 128 inp")
    case None
    then show ?thesis by (simp add: client_loop.simps client_lines.simps ret_def)
  next
    case (Some p)
    obtain buf rest where p: "p = (buf, rest)" by (cases p)
    have cl: "client_lines inp = buf # client_lines rest"
      by (subst client_lines.simps) (simp add: Some p)
    with "1.prems" obtain n ns' where ns: "ns = n # ns'" "136 \<le> n" "length ns' = length (client_lines rest)"
      by (cases ns) auto
    let ?u = "log_event (EPrint (bytes ''sending bytes: '' @ cstring buf)) w"
    let ?w = "log_event (EWrite fd (frame buf) (int (length (frame buf)))) (?u\<lparr>answers := map AOk ns'\<rparr>)"
    have "length (cstring buf) \<le> length buf" by (simp add: cstring_def length_takeWhile_le)
    then have len: "int (length (frame buf)) \<le> 136"
      using fgets_Some(2)[OF Some[unfolded p]] by (simp add: frame_def Let_def)
    have wr: "sys_write fd (frame buf) ?u = (Ret (int (length (frame buf))), ?w)"
      using "1.prems"(1) ns len by (simp add: sys_write_def Let_def log_event_def)
    have "answers ?w = map AOk ns'" "\<forall>n \<in> set ns'. 136 \<le> n" using "1.prems"(3) ns by (simp_all add: log_event_def)
    from "1.IH"[OF Some p[symmetric] this(1) ns(3) this(2)] obtain w' where
      "client_loop fd rest ?w = (Ret (), w')"
      "bytes_sent fd (trace w') = bytes_sent fd (trace ?w) @ concat (map frame (client_lines rest))" by blast
    then show ?thesis
      by (subst client_loop.simps) (simp add: Some p wr cl)
  qed
qed

lemma read_messages_frames:
  assumes "clean xs" and "rx w fd = xs @ zs" and "payload xs = concat (map frame ms) @ rest"
    and "\<forall>m \<in> set ms. m \<noteq> [] \<and> length m \<le> 128 \<and> 0 \<notin> set m"
  shows "\<exists>ys w'. read_messages (length ms) fd w = (Ret ms, w') \<and>
    clean ys \<and> payload ys = rest \<and> rx w' fd = ys @ zs \<and> only_reads fd w w'"
  using assms
proof (induction ms arbitrary: w xs)
  case Nil
  then show ?case by (auto simp: ret_def)
next
  case (Cons m ms)
  have m: "payload xs = frame m @ concat (map frame ms) @ rest" "0 \<notin> set m" "length m \<le> 128"
    "m \<noteq> []" using Cons.prems by auto
  from read_message_frame[OF Cons.prems(1,2) m(1-3)] obtain ys w1 where r:
    "read_message fd 128 w = (Ret (int (length m), m), w1)" "clean ys"
    "payload ys = concat (map frame ms) @ rest" "rx w1 fd = ys @ zs" "only_reads fd w w1" by blast
  from Cons.IH[OF r(2,4,3)] Cons.prems(4) obtain ys' w' where
    "read_messages (length ms) fd w1 = (Ret ms, w')" "clean ys'" "payload ys' = rest"
    "rx w' fd = ys' @ zs" "only_reads fd w1 w'" by auto
  with r m(4) only_reads_trans[OF r(5)] show ?case by (auto simp: bnd_def ret_def)
qed

text \<open>
  C7.  Round trip: if every \<open>send\<close> is complete and the input has no NUL byte, then whatever
  segments and interruptions deliver the bytes the client has sent, the server's \<open>read_message\<close>
  returns exactly the client's input lines, in order, one per call.
\<close>

theorem framing_roundtrip:
  assumes "0 \<notin> set inp" and "answers w = map AOk ns" and "length ns = length (client_lines inp)"
    and "\<forall>n \<in> set ns. 136 \<le> n" and "trace w = []"
    and "clean xs" and "rx v sfd = xs @ zs"
    and "payload xs = bytes_sent cfd (trace (snd (client_loop cfd inp w)))"
  shows "fst (client_loop cfd inp w) = Ret () \<and>
    (\<exists>v'. read_messages (length (client_lines inp)) sfd v = (Ret (client_lines inp), v')) \<and>
    concat (client_lines inp) = inp"
proof -
  obtain w' where c: "client_loop cfd inp w = (Ret (), w')"
    "bytes_sent cfd (trace w') = concat (map frame (client_lines inp))"
    using client_loop_sends[OF assms(2-4), of cfd] assms(5) by auto
  with assms(8) have "payload xs = concat (map frame (client_lines inp)) @ []" by simp
  moreover have "\<forall>m \<in> set (client_lines inp). m \<noteq> [] \<and> length m \<le> 128 \<and> 0 \<notin> set m"
    using client_lines_split[of inp] client_lines_no_NUL[OF assms(1)] by fastforce
  ultimately obtain v' where "read_messages (length (client_lines inp)) sfd v =
      (Ret (client_lines inp), v')"
    using read_messages_frames[OF assms(6,7)] by blast
  with c client_lines_split[of inp] show ?thesis by auto
qed

theorem framing_roundtrip_witness:
  "\<exists>v'. read_messages 2 9
     \<lparr>rx = (\<lambda>_. [RxData (take 5 (frame [104, 10] @ frame [105])), RxErr EINTR,
                RxData (drop 5 (frame [104, 10] @ frame [105]))]),
      answers = [], errno = 0, trace = []\<rparr> = (Ret [[104, 10], [105]], v')"
proof -
  let ?inp = "[104, 10, 105] :: byte list"
  let ?w = "\<lparr>rx = (\<lambda>_. []), answers = map AOk [200, 200], errno = 0, trace = []\<rparr>"
  define fs where "fs = frame [104, 10] @ frame [105]"
  let ?xs = "[RxData (take 5 fs), RxErr EINTR, RxData (drop 5 fs)]"
  have l: "client_lines ?inp = [[104, 10], [105]]"
    by (simp add: client_lines.simps fgets_def line_split_step)
  have "bytes_sent 4 (trace (snd (client_loop 4 ?inp ?w))) = payload ?xs"
    using client_loop_sends[of ?w "[200, 200]" ?inp 4] by (auto simp: l fs_def[symmetric])
  then have "\<exists>v'. read_messages (length (client_lines ?inp)) 9
      \<lparr>rx = (\<lambda>_. ?xs), answers = [], errno = 0, trace = []\<rparr> = (Ret (client_lines ?inp), v')"
    using framing_roundtrip[of ?inp ?w "[200, 200]" ?xs "\<lparr>rx = (\<lambda>_. ?xs), answers = [], errno = 0, trace = []\<rparr>" 9 "[]" 4]
    by (simp add: l)
  moreover have "length (client_lines ?inp) = 2" by (simp add: l)
  ultimately show ?thesis by (simp only: l fs_def)
qed

text \<open>
  C31.  Bounds: whatever the peer and the network do, \<open>read_message\<close> stores at most \<open>cap\<close> bytes,
  and a positive result is the number of bytes it stored.
\<close>

theorem read_message_bounds:
  assumes "read_message fd cap w = (Ret (n, bs), w')" and "int cap \<le> INT_MAX"
  shows "length bs \<le> cap \<and> -1 \<le> n \<and> n \<le> int cap \<and> (0 < n \<longrightarrow> n = int (length bs))"
proof -
  have main: "length bs \<le> cap \<and> -1 \<le> n \<and> n \<le> int cap \<and> (0 < n \<longrightarrow> n = int (length bs))"
    if "readn fd (ucast (m :: u32)) v = (Ret (r, bs), v')" "unat m \<le> cap"
      "n = (if (word_of_int (size_to_int r) :: u32) = m then size_to_int r
            else if size_to_int r < 0 then -1 else 0)" for m r v v'
  proof -
    have eq: "(ucast m :: u64) = of_nat (unat m)" by simp
    have m: "int (unat m) \<le> INT_MAX"
      by (rule order_trans[OF _ assms(2)]) (simp only: of_nat_le_iff that(2))
    from readn_bound[OF that(1)[unfolded eq] m] show ?thesis
    proof (elim conjE disjE)
      assume len: "length bs \<le> unat m" and r: "r = of_nat (length bs)"
      have "int (length bs) \<le> INT_MAX" using len m by linarith
      then have "size_to_int r = int (length bs)" using r by simp
      with len that(2,3) show ?thesis by (auto simp del: unat_of_nat)
    next
      assume len: "length bs \<le> unat m" and r: "r = -1"
      have "(ucast (-1 :: u64) :: u32) = -1" by (rule bit_word_eqI) (simp add: bit_ucast_iff)
      then have "size_to_int (-1) = -1" by (simp add: size_to_int_def)
      moreover have "m \<noteq> -1" using m by (auto simp: INT_MAX_def unsigned_minus_1_eq_mask mask_eq_exp_minus_1)
      ultimately show ?thesis using len r that(2,3) by auto
    qed
  qed
  from assms(1) consider "n = -1 \<or> n = 0" "bs = []"
    | m r v v' where "readn fd (ucast (m :: u32)) v = (Ret (r, bs), v')" "unat m \<le> cap"
      "n = (if (word_of_int (size_to_int r) :: u32) = m then size_to_int r
            else if size_to_int r < 0 then -1 else 0)"
    unfolding read_message_def Let_def
    by (auto simp: bnd_def ret_def not_less split: prod.splits outcome.splits if_splits)
  then show ?thesis
  proof cases
    case 2
    then show ?thesis by (rule main)
  qed auto
qed

theorem read_message_bounds_witness:
  "\<exists>n bs w'. read_message 9 128 \<lparr>rx = (\<lambda>_. [RxData (frame [104, 10])]), answers = [],
       errno = 0, trace = []\<rparr> = (Ret (n, bs), w') \<and> length bs \<le> 128 \<and> n \<le> 128"
proof -
  let ?w = "\<lparr>rx = (\<lambda>_. [RxData (frame [104, 10])]), answers = [], errno = 0, trace = []\<rparr>"
  obtain w' where r: "read_message 9 128 ?w = (Ret (2, [104, 10]), w')"
    using read_message_frame[of "[RxData (frame [104, 10])]" ?w 9 "[]" "[104, 10]" "[]" 128] by auto
  from read_message_bounds[OF r] r show ?thesis by (auto simp: INT_MAX_def)
qed

subsection \<open>The printed text\<close>

definition received_line :: "int \<Rightarrow> byte list \<Rightarrow> byte list" where
  "received_line n text = bytes ''received '' @ dec n @ bytes '' bytes: '' @ text"

lemma server_turn_prints:
  assumes "clean xs" and "rx w fd = xs @ zs" and "payload xs = frame m @ rest"
    and "0 \<notin> set m" and "m \<noteq> []" and "length m \<le> 128" and "0 \<in> set (drop (length m) buf)"
  shows "\<exists>ys w'. server_turn fd (buf, c) w = (Ret (overlay m buf, c + 1), w') \<and>
    clean ys \<and> payload ys = rest \<and> rx w' fd = ys @ zs \<and>
    prints (trace w') = prints (trace w) @
      [received_line (int (length m)) (m @ cstring (drop (length m) buf))]"
proof -
  from read_message_frame[OF assms(1-4,6)] obtain ys w1 where r:
    "read_message fd 128 w = (Ret (int (length m), m), w1)" "clean ys" "payload ys = rest"
    "rx w1 fd = ys @ zs" "only_reads fd w w1" by auto
  let ?line = "received_line (int (length m)) (m @ cstring (drop (length m) buf))"
  have "server_turn fd (buf, c) w = (Ret (overlay m buf, c + 1), log_event (EPrint ?line) w1)"
    using r(1) assms(4,5,7)
    by (auto simp: server_turn_def Let_def bnd_def print_def ret_def overlay_def received_line_def
        cstring_append)
  moreover have "prints (trace (log_event (EPrint ?line) w1)) = prints (trace w) @ [?line]"
    using r(5) by (simp add: log_event_def only_reads_def)
  ultimately show ?thesis using r by (auto simp: log_event_def)
qed

text \<open>
  The server never terminates the text it received: two messages, the second one not longer
  than the first, print as the first message and then as the second one followed by the tail of
  the first one.
\<close>

theorem server_reprints_stale_tail:
  assumes "clean xs" and "rx w fd = xs @ zs" and "payload xs = frame m1 @ frame m2 @ rest"
    and "0 \<notin> set m1" and "0 \<notin> set m2" and "m2 \<noteq> []" and "length m2 \<le> length m1"
    and "length m1 < 128" and "length buf = 128" and "buf ! length m1 = 0"
  shows "\<exists>w'. server_turns 2 fd (buf, 0) w = (Ret (overlay m2 (overlay m1 buf), 2), w') \<and>
    prints (trace w') = prints (trace w) @
      [received_line (int (length m1)) m1,
       received_line (int (length m2)) (m2 @ drop (length m2) m1)]"
proof -
  have d: "drop (length m1) buf = 0 # drop (Suc (length m1)) buf"
    using assms(8-10) by (metis Cons_nth_drop_Suc)
  have m1: "m1 \<noteq> []" "length m1 \<le> 128" "0 \<in> set (drop (length m1) buf)"
    using assms(6-8) d by auto
  from server_turn_prints[OF assms(1-4) m1, of 0] obtain ys w1 where r1:
    "server_turn fd (buf, 0) w = (Ret (overlay m1 buf, 1), w1)" "clean ys"
    "payload ys = frame m2 @ rest" "rx w1 fd = ys @ zs"
    "prints (trace w1) = prints (trace w) @ [received_line (int (length m1)) m1]"
    by (auto simp: d cstring_def)
  have t: "drop (length m2) (overlay m1 buf) = drop (length m2) m1 @ 0 # drop (Suc (length m1)) buf"
    using assms(7) by (simp add: overlay_def d)
  have n: "0 \<notin> set (drop (length m2) m1)" using assms(4) by (meson in_set_dropD)
  have m2: "length m2 \<le> 128" "0 \<in> set (drop (length m2) (overlay m1 buf))"
    using assms(7,8) t by auto
  from server_turn_prints[OF r1(2,4,3) assms(5,6) m2, of 1] obtain w2 where
    "server_turn fd (overlay m1 buf, 1) w1 = (Ret (overlay m2 (overlay m1 buf), 2), w2)"
    "prints (trace w2) = prints (trace w1) @
       [received_line (int (length m2)) (m2 @ drop (length m2) m1)]"
    unfolding t cstring_append[OF n] by (auto simp: cstring_def)
  with r1 show ?thesis by (simp add: numeral_2_eq_2 bnd_def ret_def)
qed

theorem server_reprints_stale_tail_witness:
  "\<exists>w'. server_turns 2 5 (replicate 128 0, 0)
      \<lparr>rx = (\<lambda>_. [RxData (frame [104, 105]), RxData (frame [111])]), answers = [], errno = 0,
       trace = []\<rparr> =
      (Ret (overlay [111] (overlay [104, 105] (replicate 128 0)), 2), w') \<and>
    prints (trace w') = [received_line 2 [104, 105], received_line 1 [111, 105]]"
  using server_reprints_stale_tail[of "[RxData (frame [104, 105]), RxData (frame [111])]"
      "\<lparr>rx = (\<lambda>_. [RxData (frame [104, 105]), RxData (frame [111])]), answers = [], errno = 0,
       trace = []\<rparr>" 5 "[]" "[104, 105]" "[111]" "[]" "replicate 128 0"]
  by simp

text \<open>
  A message with an empty body, or one that announces more than the buffer holds, ends the
  whole server.
\<close>

theorem server_dies_on_length:
  assumes "clean xs" and "rx w fd = xs @ zs"
    and "payload xs = store32 (htonl len) @ ty @ rest" and "length ty = 4"
    and "len = 0 \<or> 128 < unat len"
  shows "\<exists>w'. server_turn fd (buf, c) w = (Exit 1, w')"
proof -
  have "4 \<le> length (payload xs)" by (simp add: assms(3))
  from readn_full[OF assms(1,2) this] obtain ys1 w1 where r1:
    "readn fd 4 w = (Ret (4, store32 (htonl len)), w1)" "clean ys1" "payload ys1 = ty @ rest"
    "rx w1 fd = ys1 @ zs" by (auto simp: assms(3) INT_MAX_def)
  have "4 \<le> length (payload ys1)" by (simp add: r1(3) assms(4))
  from readn_full[OF r1(2,4) this] obtain ys2 w2 where r2:
    "readn fd 4 w1 = (Ret (4, ty), w2)" "clean ys2" "rx w2 fd = ys2 @ zs"
    by (auto simp: r1(3) assms(4) INT_MAX_def)
  show ?thesis
  proof (cases "len = 0")
    case True
    from readn_full[OF r2(2,3), of 0] obtain w3 where
      "readn fd 0 w2 = (Ret (0, []), w3)" by (auto simp: INT_MAX_def)
    moreover have "size_to_int 0 = 0" by (simp add: size_to_int_def)
    ultimately show ?thesis using True r1(1) r2(1)
      by (simp add: server_turn_def read_message_def bnd_def ret_def die_def Let_def)
  next
    case False
    with assms(5) have "128 < unat len" by simp
    then show ?thesis using r1(1) r2(1)
      by (simp add: server_turn_def read_message_def bnd_def ret_def die_def Let_def)
  qed
qed

theorem server_dies_on_length_witness:
  "\<exists>w'. server_turn 5 (replicate 128 0, 0)
      \<lparr>rx = (\<lambda>_. [RxData (store32 (htonl 0) @ [0, 0, 0, 0])]), answers = [], errno = 0,
       trace = []\<rparr> = (Exit 1, w')"
  using server_dies_on_length[of "[RxData (store32 (htonl 0) @ [0, 0, 0, 0])]"
      "\<lparr>rx = (\<lambda>_. [RxData (store32 (htonl 0) @ [0, 0, 0, 0])]), answers = [], errno = 0,
       trace = []\<rparr>" 5 "[]" 0 "[0, 0, 0, 0]" "[]" "replicate 128 0" 0]
  by simp

end
