(* ===== verification/Blocking_Queue.thy ===== *)
theory Blocking_Queue
  imports Net_Prelude
begin

text \<open>
  The bounded queue of \<^verbatim>\<open>chap-26/blocking_io_threadpool_server.c\<close>: the ring buffer, and the
  threads that push and pop under its mutex and two condition variables.
\<close>

subsection \<open>The ring buffer\<close>

record blocking_queue =
  bq_size :: int
  bq_used :: int
  bq_fd :: "int list"
  bq_front :: int
  bq_rear :: int

definition blocking_queue_init :: "int \<Rightarrow> blocking_queue" where
  "blocking_queue_init n = \<lparr>bq_size = n, bq_used = 0, bq_fd = replicate (nat n) 0,
     bq_front = 0, bq_rear = 0\<rparr>"

text \<open>What \<open>blocking_queue_push\<close> and \<open>blocking_queue_pop\<close> do to the queue once they may proceed.\<close>

definition push_body :: "blocking_queue \<Rightarrow> int \<Rightarrow> blocking_queue" where
  "push_body q fd = (let rear = bq_rear q + 1
     in q\<lparr>bq_fd := (bq_fd q)[nat (bq_rear q) := fd],
          bq_rear := (if rear = bq_size q then 0 else rear),
          bq_used := bq_used q + 1\<rparr>)"

definition pop_body :: "blocking_queue \<Rightarrow> int \<times> blocking_queue" where
  "pop_body q = (let fd = bq_fd q ! nat (bq_front q); front = bq_front q + 1
     in (fd, q\<lparr>bq_front := (if front = bq_size q then 0 else front),
               bq_used := bq_used q - 1\<rparr>))"

definition queue_full :: "blocking_queue \<Rightarrow> bool" where
  "queue_full q \<longleftrightarrow> bq_used q = bq_size q"

definition queue_empty :: "blocking_queue \<Rightarrow> bool" where
  "queue_empty q \<longleftrightarrow> bq_used q = 0"

subsection \<open>The queue as a list\<close>

text \<open>Indices stay inside the array, and the rear is \<open>used\<close> cells after the front.\<close>

definition queue_ok :: "blocking_queue \<Rightarrow> bool" where
  "queue_ok q \<longleftrightarrow> 0 < bq_size q \<and> length (bq_fd q) = nat (bq_size q) \<and>
     0 \<le> bq_used q \<and> bq_used q \<le> bq_size q \<and> 0 \<le> bq_front q \<and> bq_front q < bq_size q \<and>
     bq_rear q = (bq_front q + bq_used q) mod bq_size q"

definition cell :: "blocking_queue \<Rightarrow> nat \<Rightarrow> int" where
  "cell q i = bq_fd q ! nat ((bq_front q + int i) mod bq_size q)"

definition queue_list :: "blocking_queue \<Rightarrow> int list" where
  "queue_list q = map (cell q) [0..<nat (bq_used q)]"

lemma length_queue_list [simp]: "length (queue_list q) = nat (bq_used q)"
  by (simp add: queue_list_def)

lemma queue_okD:
  assumes "queue_ok q"
  shows "0 < bq_size q" "length (bq_fd q) = nat (bq_size q)" "0 \<le> bq_used q"
    "bq_used q \<le> bq_size q" "0 \<le> bq_front q" "bq_front q < bq_size q"
    "bq_rear q = (bq_front q + bq_used q) mod bq_size q" "0 \<le> bq_rear q" "bq_rear q < bq_size q"
  using assms by (auto simp: queue_ok_def)

lemma wrap_succ:
  assumes "(0::int) \<le> i" and "i < n"
  shows "(if i + 1 = n then 0 else i + 1) = (i + 1) mod n"
  using assms by auto

lemma queue_ok_init: "0 < n \<Longrightarrow> queue_ok (blocking_queue_init n)"
  by (simp add: queue_ok_def blocking_queue_init_def)

lemma queue_list_init: "queue_list (blocking_queue_init n) = []"
  by (simp add: queue_list_def blocking_queue_init_def)

lemma queue_ok_push:
  assumes "queue_ok q" and "\<not> queue_full q"
  shows "queue_ok (push_body q fd)"
proof -
  note ok = queue_okD[OF assms(1)]
  have "(bq_rear q + 1) mod bq_size q = (bq_front q + (bq_used q + 1)) mod bq_size q"
    unfolding ok(7) by (simp add: mod_add_left_eq add.assoc)
  then show ?thesis
    using ok(1-6) assms(2) wrap_succ[OF ok(8,9)]
    by (simp add: push_body_def queue_ok_def queue_full_def Let_def)
qed

lemma queue_ok_pop:
  assumes "queue_ok q" and "\<not> queue_empty q"
  shows "queue_ok (snd (pop_body q))"
proof -
  note ok = queue_okD[OF assms(1)]
  have "bq_rear q = ((bq_front q + 1) mod bq_size q + (bq_used q - 1)) mod bq_size q"
    unfolding ok(7) by (simp add: mod_add_left_eq)
  then show ?thesis
    using ok(1-6) assms(2) wrap_succ[OF ok(5,6)]
    by (simp add: pop_body_def queue_ok_def queue_empty_def Let_def)
qed

text \<open>The cells in use and the rear are different cells.\<close>

lemma cell_not_rear:
  assumes "queue_ok q" and "int i < bq_used q" and "bq_used q < bq_size q"
  shows "nat ((bq_front q + int i) mod bq_size q) \<noteq> nat (bq_rear q)"
proof
  note ok = queue_okD[OF assms(1)]
  assume "nat ((bq_front q + int i) mod bq_size q) = nat (bq_rear q)"
  then have "(bq_front q + int i) mod bq_size q = bq_rear q" using ok(1,8) by (simp add: nat_eq_iff)
  then have "(bq_front q + int i) mod bq_size q = (bq_front q + bq_used q) mod bq_size q"
    using ok(7) by simp
  then have "bq_size q dvd bq_used q - int i"
    by (simp add: mod_eq_dvd_iff dvd_diff_commute)
  then show False using assms(2,3) ok(1) by (auto dest: zdvd_imp_le)
qed

lemma body_used [simp]:
  "bq_used (push_body q fd) = bq_used q + 1" "bq_used (snd (pop_body q)) = bq_used q - 1"
  "bq_size (push_body q fd) = bq_size q" "bq_size (snd (pop_body q)) = bq_size q"
  by (simp_all add: push_body_def pop_body_def Let_def)

lemma queue_list_push:
  assumes "queue_ok q" and "\<not> queue_full q"
  shows "queue_list (push_body q fd) = queue_list q @ [fd]"
proof (rule nth_equalityI)
  note ok = queue_okD[OF assms(1)]
  have lt: "bq_used q < bq_size q" using ok(4) assms(2) by (simp add: queue_full_def)
  show "length (queue_list (push_body q fd)) = length (queue_list q @ [fd])"
    using ok(3) by (simp add: push_body_def Let_def nat_add_distrib)
  fix i
  assume "i < length (queue_list (push_body q fd))"
  then have i: "int i < bq_used q + 1" by (simp add: push_body_def Let_def)
  have c: "cell (push_body q fd) i = (if int i = bq_used q then fd else cell q i)"
    using cell_not_rear[OF assms(1) _ lt, of i] i ok(2,7,8,9) by (auto simp: cell_def push_body_def Let_def)
  from i ok(3) show "queue_list (push_body q fd) ! i = (queue_list q @ [fd]) ! i"
    by (auto simp: queue_list_def nth_append c nat_add_distrib simp del: upt_Suc)
qed

lemma queue_list_pop:
  assumes "queue_ok q" and "\<not> queue_empty q"
  shows "queue_list q = fst (pop_body q) # queue_list (snd (pop_body q))"
proof (rule nth_equalityI)
  note ok = queue_okD[OF assms(1)]
  have pos: "0 < bq_used q" using ok(3) assms(2) by (simp add: queue_empty_def)
  then show "length (queue_list q) = length (fst (pop_body q) # queue_list (snd (pop_body q)))"
    by (simp add: pop_body_def Let_def)
  fix i
  assume "i < length (queue_list q)"
  then have i: "int i < bq_used q" by simp
  have c: "cell (snd (pop_body q)) j = cell q (Suc j)" for j
  proof -
    have "bq_front (snd (pop_body q)) = (bq_front q + 1) mod bq_size q"
      using wrap_succ[OF ok(5,6)] by (simp add: pop_body_def Let_def)
    moreover have "bq_fd (snd (pop_body q)) = bq_fd q" by (simp add: pop_body_def Let_def)
    ultimately show ?thesis by (simp add: cell_def mod_add_left_eq add.assoc)
  qed
  have "cell q 0 = fst (pop_body q)" using ok(5,6) by (simp add: cell_def pop_body_def Let_def)
  then show "queue_list q ! i = (fst (pop_body q) # queue_list (snd (pop_body q))) ! i"
    using i by (cases i) (auto simp: queue_list_def c)
qed

lemma queue_full_list: "queue_ok q \<Longrightarrow> queue_full q \<longleftrightarrow> length (queue_list q) = nat (bq_size q)"
  by (auto simp: queue_full_def queue_ok_def)

lemma queue_empty_list: "queue_ok q \<Longrightarrow> queue_empty q \<longleftrightarrow> queue_list q = []"
  by (auto simp: queue_empty_def queue_ok_def queue_list_def)

subsection \<open>The contract of a bounded FIFO\<close>

locale bounded_fifo =
  fixes ok :: "'q \<Rightarrow> bool" and full :: "'q \<Rightarrow> bool" and empty :: "'q \<Rightarrow> bool"
    and enq :: "'q \<Rightarrow> 'a \<Rightarrow> 'q" and deq :: "'q \<Rightarrow> 'a \<times> 'q"
    and content :: "'q \<Rightarrow> 'a list" and capacity :: "'q \<Rightarrow> nat"
  assumes enq_ok: "ok q \<Longrightarrow> \<not> full q \<Longrightarrow> ok (enq q x)"
    and enq_content: "ok q \<Longrightarrow> \<not> full q \<Longrightarrow> content (enq q x) = content q @ [x]"
    and deq_ok: "ok q \<Longrightarrow> \<not> empty q \<Longrightarrow> ok (snd (deq q))"
    and deq_content: "ok q \<Longrightarrow> \<not> empty q \<Longrightarrow> content q = fst (deq q) # content (snd (deq q))"
    and empty_content: "ok q \<Longrightarrow> empty q \<longleftrightarrow> content q = []"
    and full_content: "ok q \<Longrightarrow> full q \<longleftrightarrow> length (content q) = capacity q"
    and capacity_pos: "ok q \<Longrightarrow> 0 < capacity q"
    and enq_capacity: "capacity (enq q x) = capacity q"
    and deq_capacity: "capacity (snd (deq q)) = capacity q"
begin

text \<open>What came in is what went out followed by the content.\<close>

lemma history_enq:
  assumes "ok q" and "\<not> full q" and "ins = outs @ content q"
  shows "ins @ [x] = outs @ content (enq q x)"
  using assms by (simp add: enq_content)

lemma history_deq:
  assumes "ok q" and "\<not> empty q" and "ins = outs @ content q"
  shows "ins = (outs @ [fst (deq q)]) @ content (snd (deq q))"
  using deq_content[OF assms(1,2)] assms(3) by simp

lemma not_full_and_empty: "ok q \<Longrightarrow> \<not> (full q \<and> empty q)"
  using capacity_pos full_content empty_content by fastforce

lemma within_capacity_enq:
  assumes "ok q" and "\<not> full q" and "length (content q) \<le> capacity q"
  shows "length (content (enq q x)) \<le> capacity (enq q x)"
  using assms full_content[OF assms(1)] by (simp add: enq_content enq_capacity)

lemma within_capacity_deq:
  assumes "ok q" and "\<not> empty q" and "length (content q) \<le> capacity q"
  shows "length (content (snd (deq q))) \<le> capacity (snd (deq q))"
  using deq_content[OF assms(1,2)] assms(3) by (simp add: deq_capacity)

end

interpretation bq: bounded_fifo queue_ok queue_full queue_empty push_body pop_body queue_list
  "\<lambda>q. nat (bq_size q)"
  by unfold_locales
    (auto simp: queue_ok_push queue_list_push queue_ok_pop queue_empty_list queue_full_list
      intro: queue_list_pop queue_okD(1))

end
