(* ===== verification/Thread_Pool.thy ===== *)
theory Thread_Pool
  imports Blocking_Queue
begin

text \<open>
  The threads of \<^verbatim>\<open>chap-26/blocking_io_threadpool_server.c\<close> around the queue: any number of
  threads inside \<open>blocking_queue_push\<close> and \<open>blocking_queue_pop\<close>, interleaved at the mutex, the two
  condition variables and the critical section.
\<close>

subsection \<open>Where a thread is\<close>

text \<open>
  The argument of a push is the descriptor to queue, the argument of a pop the descriptor it has
  taken.  A woken thread is again at the entry: it has to take the mutex and test its condition.
\<close>

datatype pc =
    Idle
  | PushEnter int | PushTest int | PushAsleep int | PushSignal | PushUnlock
  | PopEnter | PopTest | PopAsleep | PopSignal int | PopUnlock int

fun holds_mutex :: "pc \<Rightarrow> bool" where
  "holds_mutex (PushTest _) = True" | "holds_mutex PushSignal = True" | "holds_mutex PushUnlock = True"
| "holds_mutex PopTest = True" | "holds_mutex (PopSignal _) = True" | "holds_mutex (PopUnlock _) = True"
| "holds_mutex _ = False"

fun asleep :: "pc \<Rightarrow> bool" where
  "asleep (PushAsleep _) = True" | "asleep PopAsleep = True" | "asleep _ = False"

fun push_asleep :: "pc \<Rightarrow> bool" where
  "push_asleep (PushAsleep _) = True" | "push_asleep _ = False"

fun push_pending :: "pc \<Rightarrow> bool" where
  "push_pending (PushEnter _) = True" | "push_pending (PushTest _) = True" | "push_pending _ = False"

fun pop_pending :: "pc \<Rightarrow> bool" where
  "pop_pending PopEnter = True" | "pop_pending PopTest = True" | "pop_pending _ = False"

fun pop_signalling :: "pc \<Rightarrow> bool" where
  "pop_signalling (PopSignal _) = True" | "pop_signalling _ = False"

text \<open>The queue, the owner of its mutex, the threads, and what has been pushed and popped so far.\<close>

record pool =
  p_queue :: blocking_queue
  p_owner :: "nat option"
  p_pc :: "nat \<Rightarrow> pc"
  p_pushed :: "int list"
  p_popped :: "int list"

definition pool_init :: "int \<Rightarrow> pool" where
  "pool_init n = \<lparr>p_queue = blocking_queue_init n, p_owner = None, p_pc = (\<lambda>_. Idle),
     p_pushed = [], p_popped = []\<rparr>"

abbreviation set_pc :: "nat \<Rightarrow> pc \<Rightarrow> pool \<Rightarrow> pool" where
  "set_pc t v s \<equiv> s\<lparr>p_pc := (p_pc s)(t := v)\<rparr>"

subsection \<open>The steps\<close>

text \<open>
  \<open>pool_step t s s'\<close>: thread \<open>t\<close> makes a step.  The calls themselves are \<open>call_push\<close> and
  \<open>call_pop\<close>; \<open>pthread_cond_wait\<close> gives the mutex back as it falls asleep; a signal wakes one
  sleeper, if there is one; a sleeper may also wake by itself.
\<close>

inductive pool_step :: "nat \<Rightarrow> pool \<Rightarrow> pool \<Rightarrow> bool" where
  call_push: "p_pc s t = Idle \<Longrightarrow> pool_step t s (set_pc t (PushEnter fd) s)"
| push_lock: "p_pc s t = PushEnter fd \<Longrightarrow> p_owner s = None \<Longrightarrow>
    pool_step t s (set_pc t (PushTest fd) (s\<lparr>p_owner := Some t\<rparr>))"
| push_wait: "p_pc s t = PushTest fd \<Longrightarrow> queue_full (p_queue s) \<Longrightarrow>
    pool_step t s (set_pc t (PushAsleep fd) (s\<lparr>p_owner := None\<rparr>))"
| push_store: "p_pc s t = PushTest fd \<Longrightarrow> \<not> queue_full (p_queue s) \<Longrightarrow>
    pool_step t s (set_pc t PushSignal
      (s\<lparr>p_queue := push_body (p_queue s) fd, p_pushed := p_pushed s @ [fd]\<rparr>))"
| push_signal: "p_pc s t = PushSignal \<Longrightarrow> p_pc s u = PopAsleep \<Longrightarrow>
    pool_step t s (set_pc u PopEnter (set_pc t PushUnlock s))"
| push_signal_none: "p_pc s t = PushSignal \<Longrightarrow> \<forall>u. p_pc s u \<noteq> PopAsleep \<Longrightarrow>
    pool_step t s (set_pc t PushUnlock s)"
| push_unlock: "p_pc s t = PushUnlock \<Longrightarrow> pool_step t s (set_pc t Idle (s\<lparr>p_owner := None\<rparr>))"
| push_spurious: "p_pc s t = PushAsleep fd \<Longrightarrow> pool_step t s (set_pc t (PushEnter fd) s)"
| call_pop: "p_pc s t = Idle \<Longrightarrow> pool_step t s (set_pc t PopEnter s)"
| pop_lock: "p_pc s t = PopEnter \<Longrightarrow> p_owner s = None \<Longrightarrow>
    pool_step t s (set_pc t PopTest (s\<lparr>p_owner := Some t\<rparr>))"
| pop_wait: "p_pc s t = PopTest \<Longrightarrow> queue_empty (p_queue s) \<Longrightarrow>
    pool_step t s (set_pc t PopAsleep (s\<lparr>p_owner := None\<rparr>))"
| pop_take: "p_pc s t = PopTest \<Longrightarrow> \<not> queue_empty (p_queue s) \<Longrightarrow>
    pop_body (p_queue s) = (fd, q) \<Longrightarrow>
    pool_step t s (set_pc t (PopSignal fd) (s\<lparr>p_queue := q, p_popped := p_popped s @ [fd]\<rparr>))"
| pop_signal: "p_pc s t = PopSignal fd \<Longrightarrow> p_pc s u = PushAsleep fd' \<Longrightarrow>
    pool_step t s (set_pc u (PushEnter fd') (set_pc t (PopUnlock fd) s))"
| pop_signal_none: "p_pc s t = PopSignal fd \<Longrightarrow> \<forall>u fd'. p_pc s u \<noteq> PushAsleep fd' \<Longrightarrow>
    pool_step t s (set_pc t (PopUnlock fd) s)"
| pop_unlock: "p_pc s t = PopUnlock fd \<Longrightarrow> pool_step t s (set_pc t Idle (s\<lparr>p_owner := None\<rparr>))"
| pop_spurious: "p_pc s t = PopAsleep \<Longrightarrow> pool_step t s (set_pc t PopEnter s)"

inductive pool_reachable :: "int \<Rightarrow> pool \<Rightarrow> bool" for n where
  start: "pool_reachable n (pool_init n)"
| step: "pool_reachable n s \<Longrightarrow> pool_step t s s' \<Longrightarrow> pool_reachable n s'"

subsection \<open>Mutual exclusion and the queue's history\<close>

definition pool_safe :: "int \<Rightarrow> pool \<Rightarrow> bool" where
  "pool_safe n s \<longleftrightarrow> queue_ok (p_queue s) \<and> bq_size (p_queue s) = n \<and>
     p_pushed s = p_popped s @ queue_list (p_queue s) \<and>
     (\<forall>t. p_owner s = Some t \<longleftrightarrow> holds_mutex (p_pc s t)) \<and> finite {t. p_pc s t \<noteq> Idle}"

lemma finite_step:
  assumes "pool_step t s s'" and "finite {t. p_pc s t \<noteq> Idle}"
  shows "finite {t. p_pc s' t \<noteq> Idle}"
  using assms by cases (simp_all add: finite_update del: fun_upd_apply)

lemma owner_step:
  assumes "pool_step t s s'" and "\<forall>u. p_owner s = Some u \<longleftrightarrow> holds_mutex (p_pc s u)"
  shows "\<forall>u. p_owner s' = Some u \<longleftrightarrow> holds_mutex (p_pc s' u)"
proof -
  have t: "p_owner s = Some t \<longleftrightarrow> holds_mutex (p_pc s t)" using assms(2) by blast
  have other: "\<not> holds_mutex (p_pc s u)" if "p_owner s = None \<or> p_owner s = Some t" "u \<noteq> t" for u
    using assms(2) that by (metis option.distinct(1) option.inject)
  show ?thesis using assms(1) by cases (use assms(2) t other in auto)
qed

lemma queue_step:
  assumes "pool_step t s s'" and "queue_ok (p_queue s)"
    and "p_pushed s = p_popped s @ queue_list (p_queue s)"
  shows "queue_ok (p_queue s') \<and> bq_size (p_queue s') = bq_size (p_queue s) \<and>
    p_pushed s' = p_popped s' @ queue_list (p_queue s')"
  using assms(1)
proof cases
  case (push_store fd)
  then show ?thesis using bq.enq_ok[OF assms(2), of fd] bq.history_enq[OF assms(2) _ assms(3), of fd]
    by simp
next
  case (pop_take fd q)
  then show ?thesis using bq.deq_ok[OF assms(2)] bq.history_deq[OF assms(2) _ assms(3)]
      body_used(4)[of "p_queue s"] by simp
qed (use assms(2,3) in simp_all)

lemma pool_safe_step:
  assumes "pool_step t s s'" and "pool_safe n s"
  shows "pool_safe n s'"
  using assms(2) finite_step[OF assms(1)] owner_step[OF assms(1)] queue_step[OF assms(1)]
  unfolding pool_safe_def by auto

lemma pool_safe_reachable: "pool_reachable n s \<Longrightarrow> 0 < n \<Longrightarrow> pool_safe n s"
proof (induction rule: pool_reachable.induct)
  case start
  then show ?case
    by (simp add: pool_safe_def pool_init_def queue_ok_init queue_list_init)
      (simp add: blocking_queue_init_def)
qed (use pool_safe_step in blast)

subsection \<open>Nobody sleeps while there is work\<close>

text \<open>
  While somebody sleeps on \<open>nonempty\<close>, every queued descriptor has a thread of its own that is on
  its way to it: one that is about to test the queue, or a pusher that is about to signal.  The
  same holds of the free cells and the threads that sleep on \<open>free\<close>.
\<close>

definition pool_awake :: "pool \<Rightarrow> bool" where
  "pool_awake s \<longleftrightarrow>
     (0 < cnt (\<lambda>c. c = PopAsleep) (p_pc s) \<longrightarrow>
        bq_used (p_queue s) \<le> cnt pop_pending (p_pc s) + cnt (\<lambda>c. c = PushSignal) (p_pc s)) \<and>
     (0 < cnt push_asleep (p_pc s) \<longrightarrow>
        bq_size (p_queue s) - bq_used (p_queue s)
          \<le> cnt push_pending (p_pc s) + cnt pop_signalling (p_pc s))"

lemma pool_awake_step:
  assumes "pool_step t s s'" and "pool_safe n s" and "pool_awake s"
  shows "pool_awake s'"
proof -
  have fin: "finite {t. p_pc s t \<noteq> Idle}" using assms(2) by (simp add: pool_safe_def)
  then have fin': "finite {t. ((p_pc s)(u := v)) t \<noteq> Idle}" for u v by (simp only: finite_update)
  note c = cnt_update[OF fin] cnt_update[OF fin']
  show ?thesis
    using assms(1)
  proof cases
    case push_signal_none
    then have "\<not> 0 < cnt (\<lambda>c. c = PopAsleep) (p_pc s)" by (simp add: cnt_pos_iff[OF fin])
    with push_signal_none assms(3) show ?thesis by (simp add: pool_awake_def c del: fun_upd_apply)
  next
    case (pop_signal_none fd)
    then have "\<not> push_asleep (p_pc s u)" for u by (cases "p_pc s u") auto
    then have "\<not> 0 < cnt push_asleep (p_pc s)" by (simp add: cnt_pos_iff[OF fin])
    with pop_signal_none assms(3) show ?thesis by (simp add: pool_awake_def c del: fun_upd_apply)
  next
    case (push_wait fd)
    then have "0 < cnt push_pending (p_pc s)" by (auto simp: cnt_pos_iff[OF fin] intro!: exI[of _ t])
    with push_wait assms(3) show ?thesis
      by (auto simp: pool_awake_def c queue_full_def simp del: fun_upd_apply)
  next
    case pop_wait
    then have "0 < cnt pop_pending (p_pc s)" by (auto simp: cnt_pos_iff[OF fin] intro!: exI[of _ t])
    with pop_wait assms(3) show ?thesis
      by (auto simp: pool_awake_def c queue_empty_def simp del: fun_upd_apply)
  next
    case (push_signal u)
    then have "t \<noteq> u" by auto
    with push_signal assms(3) show ?thesis
      by (auto simp: pool_awake_def c simp del: fun_upd_apply) auto
  next
    case (pop_signal fd u fd')
    then have "t \<noteq> u" by auto
    with pop_signal assms(3) show ?thesis
      by (auto simp: pool_awake_def c simp del: fun_upd_apply) auto
  next
    case (pop_take fd q)
    then have "bq_used q = bq_used (p_queue s) - 1" "bq_size q = bq_size (p_queue s)"
      using body_used(2,4)[of "p_queue s"] by simp_all
    with pop_take assms(3) show ?thesis by (auto simp: pool_awake_def c simp del: fun_upd_apply)
  qed (use assms(3) in \<open>auto simp: pool_awake_def c simp del: fun_upd_apply\<close>)
qed

lemma pool_awake_reachable: "pool_reachable n s \<Longrightarrow> 0 < n \<Longrightarrow> pool_awake s"
proof (induction rule: pool_reachable.induct)
  case start
  then show ?case by (simp add: pool_awake_def pool_init_def cnt_def)
next
  case (step s t s')
  then show ?case using pool_awake_step pool_safe_reachable by blast
qed

lemma queue_empty_if_awake:
  assumes "pool_safe n s" and "pool_awake s" and "p_pc s t = PopAsleep"
    and "\<And>u. \<not> pop_pending (p_pc s u)" and "\<And>u. p_pc s u \<noteq> PushSignal"
  shows "queue_empty (p_queue s)"
proof -
  have fin: "finite {t. p_pc s t \<noteq> Idle}" and ok: "queue_ok (p_queue s)"
    using assms(1) by (auto simp: pool_safe_def)
  note pos = cnt_pos_iff[OF fin]
  have "0 < cnt (\<lambda>c. c = PopAsleep) (p_pc s)" using assms(3) pos by auto
  then have "bq_used (p_queue s) \<le> cnt pop_pending (p_pc s) + cnt (\<lambda>c. c = PushSignal) (p_pc s)"
    using assms(2) by (simp add: pool_awake_def)
  moreover have "\<not> 0 < cnt pop_pending (p_pc s)" "\<not> 0 < cnt (\<lambda>c. c = PushSignal) (p_pc s)"
    using pos assms(4,5) by auto
  ultimately show ?thesis using queue_okD(3)[OF ok] by (simp add: queue_empty_def)
qed

lemma queue_full_if_awake:
  assumes "pool_safe n s" and "pool_awake s" and "push_asleep (p_pc s t)"
    and "\<And>u. \<not> push_pending (p_pc s u)" and "\<And>u. \<not> pop_signalling (p_pc s u)"
  shows "queue_full (p_queue s)"
proof -
  have fin: "finite {t. p_pc s t \<noteq> Idle}" and ok: "queue_ok (p_queue s)"
    using assms(1) by (auto simp: pool_safe_def)
  note pos = cnt_pos_iff[OF fin]
  have "0 < cnt push_asleep (p_pc s)" using assms(3) pos by auto
  then have "bq_size (p_queue s) - bq_used (p_queue s) \<le>
      cnt push_pending (p_pc s) + cnt pop_signalling (p_pc s)"
    using assms(2) by (simp add: pool_awake_def)
  moreover have "\<not> 0 < cnt push_pending (p_pc s)" "\<not> 0 < cnt pop_signalling (p_pc s)"
    using pos assms(4,5) by auto
  ultimately show ?thesis using queue_okD(4)[OF ok] by (simp add: queue_full_def)
qed

text \<open>
  C6.  Whatever the interleaving of any number of pushing and popping threads, at most one is in
  the critical section, the queue never holds more than its size, and the descriptors come out in
  the order in which they went in, none lost and none twice.
\<close>

theorem pool_fifo:
  assumes "pool_reachable n s" and "0 < n"
  shows "p_pushed s = p_popped s @ queue_list (p_queue s) \<and> length (queue_list (p_queue s)) \<le> nat n \<and>
    queue_ok (p_queue s) \<and> (\<forall>t u. holds_mutex (p_pc s t) \<and> holds_mutex (p_pc s u) \<longrightarrow> t = u)"
proof -
  have safe: "pool_safe n s" using assms by (rule pool_safe_reachable)
  then have "t = u" if "holds_mutex (p_pc s t)" "holds_mutex (p_pc s u)" for t u
    using that by (metis pool_safe_def option.inject)
  moreover have "length (queue_list (p_queue s)) \<le> nat n"
    using safe queue_okD(4)[of "p_queue s"] by (auto simp: pool_safe_def)
  ultimately show ?thesis using safe by (auto simp: pool_safe_def)
qed

text \<open>
  C12.  No wake-up is lost: while a thread sleeps in \<open>blocking_queue_pop\<close> and the queue is not
  empty, or sleeps in \<open>blocking_queue_push\<close> and the queue is not full, some other thread is on its
  way to take or free a cell, or about to signal.
\<close>

theorem pool_no_lost_wakeup:
  assumes "pool_reachable n s" and "0 < n"
  shows "(p_pc s t = PopAsleep \<longrightarrow> queue_empty (p_queue s) \<or>
      (\<exists>u. pop_pending (p_pc s u) \<or> p_pc s u = PushSignal)) \<and>
    (push_asleep (p_pc s t) \<longrightarrow> queue_full (p_queue s) \<or>
      (\<exists>u. push_pending (p_pc s u) \<or> pop_signalling (p_pc s u)))"
proof -
  note facts = pool_safe_reachable[OF assms] pool_awake_reachable[OF assms]
  show ?thesis using queue_empty_if_awake[OF facts] queue_full_if_awake[OF facts] by blast
qed

text \<open>A thread inside a call that is not asleep and not waiting for the mutex can step.\<close>

lemma holder_steps: "holds_mutex (p_pc s t) \<Longrightarrow> \<exists>s'. pool_step t s s'"
proof (cases "p_pc s t")
  case (PushTest fd)
  then show ?thesis by (cases "queue_full (p_queue s)") (blast intro: pool_step.intros)+
next
  case PopTest
  obtain fd q where "pop_body (p_queue s) = (fd, q)" by (cases "pop_body (p_queue s)")
  with PopTest show ?thesis
    by (cases "queue_empty (p_queue s)") (blast intro: pool_step.intros)+
next
  case PushSignal
  then show ?thesis by (cases "\<exists>u. p_pc s u = PopAsleep") (blast intro: pool_step.intros)+
next
  case (PopSignal fd)
  then show ?thesis
    by (cases "\<exists>u fd'. p_pc s u = PushAsleep fd'") (blast intro: pool_step.intros)+
qed (auto intro: pool_step.intros)

lemma awake_steps:
  assumes "pool_safe n s" and "p_pc s t \<noteq> Idle" and "\<not> asleep (p_pc s t)"
  shows "\<exists>u s'. p_pc s u \<noteq> Idle \<and> \<not> asleep (p_pc s u) \<and> pool_step u s s'"
proof (cases "p_owner s")
  case None
  then have "\<not> holds_mutex (p_pc s t)" using assms(1) by (auto simp: pool_safe_def)
  with assms(2,3) None have "\<exists>s'. pool_step t s s'"
    by (cases "p_pc s t") (auto intro: pool_step.intros)
  with assms(2,3) show ?thesis by blast
next
  case (Some u)
  then have h: "holds_mutex (p_pc s u)" using assms(1) by (auto simp: pool_safe_def)
  then have "p_pc s u \<noteq> Idle" "\<not> asleep (p_pc s u)" by (cases "p_pc s u"; simp)+
  with holder_steps[OF h] show ?thesis by blast
qed

text \<open>
  C13.  The pool never deadlocks: if some thread is inside a call, then some thread inside a call
  that is not asleep can step, or all of them sleep in \<open>blocking_queue_pop\<close> on an empty queue, or
  all of them sleep in \<open>blocking_queue_push\<close> on a full one.
\<close>

theorem pool_never_stuck:
  assumes "pool_reachable n s" and "0 < n" and "p_pc s t \<noteq> Idle"
  shows "(\<exists>u s'. p_pc s u \<noteq> Idle \<and> \<not> asleep (p_pc s u) \<and> pool_step u s s') \<or>
    (queue_empty (p_queue s) \<and> (\<forall>u. p_pc s u = Idle \<or> p_pc s u = PopAsleep)) \<or>
    (queue_full (p_queue s) \<and> (\<forall>u. p_pc s u = Idle \<or> push_asleep (p_pc s u)))"
proof -
  have safe: "pool_safe n s" using assms(1,2) by (rule pool_safe_reachable)
  show ?thesis
  proof (cases "\<exists>u. p_pc s u \<noteq> Idle \<and> \<not> asleep (p_pc s u)")
    case True
    then show ?thesis using awake_steps[OF safe] by blast
  next
    case False
    have all: "p_pc s u = Idle \<or> p_pc s u = PopAsleep \<or> push_asleep (p_pc s u)" for u
      using False by (cases "p_pc s u") (auto dest!: spec[of _ u])
    then have calm: "\<not> pop_pending (p_pc s u)" "p_pc s u \<noteq> PushSignal" "\<not> push_pending (p_pc s u)"
      "\<not> pop_signalling (p_pc s u)" for u using all[of u] by (cases "p_pc s u"; simp)+
    have e: "queue_empty (p_queue s)" if "p_pc s u = PopAsleep" for u
      using that calm by (metis queue_empty_if_awake safe pool_awake_reachable[OF assms(1,2)])
    have f: "queue_full (p_queue s)" if "push_asleep (p_pc s u)" for u
      using that calm by (metis queue_full_if_awake safe pool_awake_reachable[OF assms(1,2)])
    have "\<not> (queue_full (p_queue s) \<and> queue_empty (p_queue s))"
      using safe bq.not_full_and_empty by (auto simp: pool_safe_def)
    then show ?thesis using all e f assms(3) by metis
  qed
qed

text \<open>
  A run for the witnesses: thread 1 pops from the empty queue and falls asleep, then thread 0 pushes
  the descriptor 7.
\<close>

definition demo_asleep :: pool where
  "demo_asleep = \<lparr>p_queue = blocking_queue_init 2, p_owner = None, p_pc = (\<lambda>_. Idle)(1 := PopAsleep),
     p_pushed = [], p_popped = []\<rparr>"

definition demo_pool :: pool where
  "demo_pool = \<lparr>p_queue = push_body (blocking_queue_init 2) 7, p_owner = Some 0,
     p_pc = (\<lambda>_. Idle)(1 := PopAsleep, 0 := PushSignal), p_pushed = [7], p_popped = []\<rparr>"

lemma demo_asleep_reachable: "pool_reachable 2 demo_asleep"
proof -
  let ?s1 = "set_pc 1 PopEnter (pool_init 2)"
  let ?s2 = "set_pc 1 PopTest (?s1\<lparr>p_owner := Some 1\<rparr>)"
  have "pool_reachable 2 ?s1"
    by (rule pool_reachable.step[OF start]) (rule call_pop, simp add: pool_init_def)
  then have "pool_reachable 2 ?s2"
    by (rule pool_reachable.step) (rule pop_lock, simp_all add: pool_init_def)
  then have "pool_reachable 2 (set_pc 1 PopAsleep (?s2\<lparr>p_owner := None\<rparr>))"
    by (rule pool_reachable.step)
      (rule pop_wait, simp_all add: pool_init_def queue_empty_def blocking_queue_init_def)
  then show ?thesis by (simp add: demo_asleep_def pool_init_def)
qed

lemma demo_pool_reachable: "pool_reachable 2 demo_pool"
proof -
  let ?s1 = "set_pc 0 (PushEnter 7) demo_asleep"
  let ?s2 = "set_pc 0 (PushTest 7) (?s1\<lparr>p_owner := Some 0\<rparr>)"
  have "pool_reachable 2 ?s1"
    by (rule pool_reachable.step[OF demo_asleep_reachable]) (rule call_push, simp add: demo_asleep_def)
  then have "pool_reachable 2 ?s2"
    by (rule pool_reachable.step) (rule push_lock, simp_all add: demo_asleep_def)
  then have "pool_reachable 2 (set_pc 0 PushSignal
      (?s2\<lparr>p_queue := push_body (p_queue ?s2) 7, p_pushed := p_pushed ?s2 @ [7]\<rparr>))"
    by (rule pool_reachable.step)
      (rule push_store, simp_all add: demo_asleep_def queue_full_def blocking_queue_init_def)
  then show ?thesis by (simp add: demo_pool_def demo_asleep_def fun_upd_twist)
qed

theorem pool_fifo_witness:
  "pool_reachable 2 demo_pool \<and> [7] = queue_list (p_queue demo_pool)"
  using pool_fifo[OF demo_pool_reachable] demo_pool_reachable by (simp add: demo_pool_def)

theorem pool_no_lost_wakeup_witness:
  "p_pc demo_pool 1 = PopAsleep \<and> \<not> queue_empty (p_queue demo_pool) \<and>
    (\<exists>u. pop_pending (p_pc demo_pool u) \<or> p_pc demo_pool u = PushSignal)"
proof -
  have "p_pc demo_pool 1 = PopAsleep" "\<not> queue_empty (p_queue demo_pool)"
    by (simp_all add: demo_pool_def queue_empty_def blocking_queue_init_def)
  with pool_no_lost_wakeup[OF demo_pool_reachable, of 1] show ?thesis by auto
qed

theorem pool_never_stuck_witness:
  "\<exists>u s'. p_pc demo_pool u \<noteq> Idle \<and> \<not> asleep (p_pc demo_pool u) \<and> pool_step u demo_pool s'"
proof -
  have 0: "p_pc demo_pool 0 \<noteq> Idle" "p_pc demo_pool 0 \<noteq> PopAsleep" "\<not> push_asleep (p_pc demo_pool 0)"
    by (simp_all add: demo_pool_def)
  from pool_never_stuck[OF demo_pool_reachable zero_less_numeral 0(1)] 0 show ?thesis by blast
qed

end
