(* ===== verification/Echo_Servers.thy ===== *)
theory Echo_Servers
  imports Common_IO
begin

text \<open>
  The ROT13 servers that give every connection a blocking loop of its own: the worker of
  \<^verbatim>\<open>chap-26/blocking_io_threadpool_server.c\<close>, the child process of
  \<^verbatim>\<open>chap-25/blocking_io_process_server.c\<close>, and their set-up.
\<close>

subsection \<open>ROT13\<close>

text \<open>\<open>char\<close> is signed: bytes from 128 on compare below every letter.\<close>

definition rot13_char :: "byte \<Rightarrow> byte" where
  "rot13_char c = (let i = sint c
     in if (97 \<le> i \<and> i \<le> 109) \<or> (65 \<le> i \<and> i \<le> 77) then c + 13
        else if (110 \<le> i \<and> i \<le> 122) \<or> (78 \<le> i \<and> i \<le> 90) then c - 13
        else c)"

lemma byte_cases_sint: "(c :: byte) = word_of_int (sint c)" "-128 \<le> sint c" "sint c < 128"
  using sint_range_size[of c] by (simp_all add: word_size)

lemma sint_byte_of_int: "-128 \<le> i \<Longrightarrow> i < 128 \<Longrightarrow> sint (word_of_int i :: byte) = i"
  by (simp add: signed_of_int signed_take_bit_int_eq_self)

lemma sint_add13: "sint c \<le> 114 \<Longrightarrow> sint ((c :: byte) + 13) = sint c + 13"
proof -
  assume "sint c \<le> 114"
  moreover have "c + 13 = word_of_int (sint c + 13)" by simp
  ultimately show ?thesis using sint_byte_of_int[of "sint c + 13"] byte_cases_sint(2)[of c] by simp
qed

lemma sint_sub13: "- 115 \<le> sint c \<Longrightarrow> sint ((c :: byte) - 13) = sint c - 13"
proof -
  assume "- 115 \<le> sint c"
  moreover have "c - 13 = word_of_int (sint c - 13)" by simp
  ultimately show ?thesis using sint_byte_of_int[of "sint c - 13"] byte_cases_sint(3)[of c] by simp
qed

text \<open>Decoding is encoding: applied twice, \<open>rot13_char\<close> is the identity on all 256 bytes.\<close>

lemma rot13_involution: "rot13_char (rot13_char c) = c"
  by (auto simp: rot13_char_def Let_def sint_add13 sint_sub13)

subsection \<open>The listening socket\<close>

definition create_tcp_server :: "int \<Rightarrow> int io" where
  "create_tcp_server port =
     bnd (sys (Socket ''AF_INET'' ''SOCK_STREAM'')) (\<lambda>listen_fd. if listen_fd < 0 then die 1
     else bnd (sys (Setsockopt listen_fd ''SO_REUSEADDR'')) (\<lambda>_.
     bnd (sys (Bind listen_fd port)) (\<lambda>r. if r < 0 then die 1
     else bnd (sys (Listen listen_fd 128)) (\<lambda>r. if r \<noteq> 0 then die 1
     else ret listen_fd))))"

subsection \<open>One connection\<close>

definition MAX_LINE :: nat where "MAX_LINE = 4096"

text \<open>The buffer is zeroed before each read; \<open>%s\<close> needs a NUL in it.\<close>

definition line_buffer :: "byte list \<Rightarrow> byte list" where
  "line_buffer bs = bs @ replicate (MAX_LINE - length bs) 0"

definition print_received :: "byte list \<Rightarrow> int \<Rightarrow> byte list \<Rightarrow> unit io" where
  "print_received tag r bs =
     (if 0 \<in> set (line_buffer bs)
      then print (tag @ bytes ''received '' @ dec r @ bytes '' bytes: '' @ cstring (line_buffer bs))
      else fault OutOfBounds)"

lemma print_received_rx: "print_received tag r bs w = (x, w') \<Longrightarrow> rx w' = rx w"
  by (auto simp: print_received_def split: if_splits)

function connection_loop :: "int \<Rightarrow> int \<Rightarrow> world \<Rightarrow> unit outcome \<times> world" where
  "connection_loop tid fd w = bnd (sys_read fd MAX_LINE) (\<lambda>x w. case x of (result, buf) \<Rightarrow>
     if result < 0 then die 1 w
     else if result = 0 then
       bnd (print (bytes ''client closed \<newline>'')) (\<lambda>_. bnd (sys (Close fd)) (\<lambda>_. ret ())) w
     else bnd (print_received (bytes ''[tid:'' @ dec tid @ bytes ''] '') result buf) (\<lambda>_ w.
          bnd (sys_write fd (map rot13_char buf)) (\<lambda>r w.
            if r < 0 then die 1 w else connection_loop tid fd w) w) w) w"
  by pat_completeness auto
termination
  by (relation "measure (\<lambda>(tid, fd, w). rx_weight (rx w fd))")
    (auto dest!: rx_weight_sys_read print_received_rx rx_sys_write)

declare connection_loop.simps [simp del]

text \<open>The child process of \<^verbatim>\<open>chap-25\<close> leaves the descriptor to the exit of the process.\<close>

function child_run :: "int \<Rightarrow> int \<Rightarrow> world \<Rightarrow> unit outcome \<times> world" where
  "child_run pid fd w = bnd (sys_read fd MAX_LINE) (\<lambda>x w. case x of (result, buf) \<Rightarrow>
     if result = 0 then print (bytes ''pid: '' @ dec pid @ bytes '' client closed \<newline>'') w
     else if result < 0 then die 1 w
     else bnd (print_received [] result buf) (\<lambda>_ w.
          bnd (sys_write fd (map rot13_char buf)) (\<lambda>r w.
            if r < 0 then die 1 w else child_run pid fd w) w) w) w"
  by pat_completeness auto
termination
  by (relation "measure (\<lambda>(pid, fd, w). rx_weight (rx w fd))")
    (auto dest!: rx_weight_sys_read print_received_rx rx_sys_write)

declare child_run.simps [simp del]

text \<open>
  \<open>create_tcp_server\<close> returns a descriptor only after \<open>socket\<close>, \<open>setsockopt\<close>, \<open>bind\<close> and
  \<open>listen\<close> were called in that order on it and all but \<open>setsockopt\<close> succeeded; otherwise the
  process ends with status 1, or hangs in one of the calls.
\<close>

theorem create_tcp_server_listens:
  "fst (create_tcp_server port w) = Blocked \<or> fst (create_tcp_server port w) = Exit 1 \<or>
   (\<exists>fd s b. fst (create_tcp_server port w) = Ret fd \<and> 0 \<le> fd \<and> 0 \<le> b \<and>
      trace (snd (create_tcp_server port w)) = trace w @
        [ESys (Socket ''AF_INET'' ''SOCK_STREAM'') fd, ESys (Setsockopt fd ''SO_REUSEADDR'') s,
         ESys (Bind fd port) b, ESys (Listen fd 128) 0])"
proof -
  have c: "\<exists>v. sys c w = (Blocked, v) \<or> (\<exists>r. sys c w = (Ret r, v) \<and> trace v = trace w @ [ESys c r] \<and>
      -1 \<le> r)" for c w
    by (auto simp: sys_def Let_def split: list.split answer.split)
  obtain v1 where "sys (Socket ''AF_INET'' ''SOCK_STREAM'') w = (Blocked, v1) \<or>
    (\<exists>fd. sys (Socket ''AF_INET'' ''SOCK_STREAM'') w = (Ret fd, v1) \<and>
       trace v1 = trace w @ [ESys (Socket ''AF_INET'' ''SOCK_STREAM'') fd])" using c by blast
  then show ?thesis
  proof (elim disjE exE conjE)
    fix fd
    assume 1: "sys (Socket ''AF_INET'' ''SOCK_STREAM'') w = (Ret fd, v1)"
      "trace v1 = trace w @ [ESys (Socket ''AF_INET'' ''SOCK_STREAM'') fd]"
    from c[of "Setsockopt fd ''SO_REUSEADDR''" v1] obtain v2 where
      2: "sys (Setsockopt fd ''SO_REUSEADDR'') v1 = (Blocked, v2) \<or>
        (\<exists>s. sys (Setsockopt fd ''SO_REUSEADDR'') v1 = (Ret s, v2) \<and>
          trace v2 = trace v1 @ [ESys (Setsockopt fd ''SO_REUSEADDR'') s])" by blast
    from c[of "Bind fd port" v2] obtain v3 where
      3: "sys (Bind fd port) v2 = (Blocked, v3) \<or> (\<exists>b. sys (Bind fd port) v2 = (Ret b, v3) \<and>
          trace v3 = trace v2 @ [ESys (Bind fd port) b])" by blast
    from c[of "Listen fd 128" v3] obtain v4 where
      4: "sys (Listen fd 128) v3 = (Blocked, v4) \<or> (\<exists>l. sys (Listen fd 128) v3 = (Ret l, v4) \<and>
          trace v4 = trace v3 @ [ESys (Listen fd 128) l])" by blast
    from 1 2 3 4 show ?thesis by (auto simp: create_tcp_server_def split: if_splits)
  qed (simp add: create_tcp_server_def)
qed

subsection \<open>What a connection is answered\<close>

lemma sys_read_segment:
  assumes "rx w fd = RxData seg # xs" and "seg \<noteq> []" and "length seg \<le> n"
  shows "sys_read fd n w =
    (Ret (int (length seg), seg), log_event (ERead fd seg) (w\<lparr>rx := (rx w)(fd := xs)\<rparr>))"
  using assms by (simp add: sys_read_def)

lemma sys_read_eof:
  assumes "rx w fd = RxEof # xs"
  shows "sys_read fd n w = (Ret (0, []), log_event (ERead fd []) (w\<lparr>rx := (rx w)(fd := RxEof # xs)\<rparr>))"
  using assms by (simp add: sys_read_def)

lemma sys_write_ok:
  assumes "answers w = AOk n # as" and "0 \<le> n"
  shows "sys_write fd bs w = (Ret (min n (int (length bs))),
    log_event (EWrite fd bs (min n (int (length bs)))) (w\<lparr>answers := as\<rparr>))"
  using assms by (simp add: sys_write_def Let_def)

lemma sys_ok:
  assumes "answers w = AOk n # as" and "0 \<le> n"
  shows "sys c w = (Ret n, log_event (ESys c n) (w\<lparr>answers := as\<rparr>))"
  using assms by (simp add: sys_def)

lemma print_received_ok:
  assumes "length bs < MAX_LINE"
  shows "\<exists>t. print_received tag r bs w = (Ret (), log_event (EPrint t) w)"
  using assms by (auto simp: print_received_def line_buffer_def)

text \<open>
  The contract of a server function that owns a connection: a segment is answered with its encoding, as
  far as the kernel takes it, and the function goes on; at the end of the stream it finishes.
\<close>

locale echo_service =
  fixes serve :: "int \<Rightarrow> world \<Rightarrow> unit outcome \<times> world"
    and enc :: "byte \<Rightarrow> byte"
    and finish :: "int \<Rightarrow> world \<Rightarrow> unit outcome \<times> world"
  assumes segment: "\<lbrakk>rx w fd = RxData seg # xs; seg \<noteq> []; length seg < MAX_LINE; answers w = AOk (int n) # as\<rbrakk> \<Longrightarrow>
      \<exists>v. serve fd w = serve fd v \<and> rx v fd = xs \<and> answers v = as \<and>
        bytes_sent fd (trace v) = bytes_sent fd (trace w) @ map enc (take n seg)"
    and end_of_stream: "rx w fd = [RxEof] \<Longrightarrow> \<exists>v. serve fd w = finish fd v \<and> answers v = answers w \<and>
        bytes_sent fd (trace v) = bytes_sent fd (trace w)"
begin

lemma session:
  assumes "rx w fd = map RxData segs @ [RxEof]"
    and "\<forall>seg \<in> set segs. seg \<noteq> [] \<and> length seg < MAX_LINE"
    and "answers w = map (AOk \<circ> int) ns @ as" and "length ns = length segs"
  shows "\<exists>v. serve fd w = finish fd v \<and> answers v = as \<and>
    bytes_sent fd (trace v) = bytes_sent fd (trace w) @ map enc (concat (map2 take ns segs))"
  using assms
proof (induction segs arbitrary: w ns)
  case Nil
  then show ?case using end_of_stream[of w fd] by auto
next
  case (Cons seg segs)
  then obtain n ns' where ns: "ns = n # ns'" "length ns' = length segs" by (cases ns) auto
  have "rx w fd = RxData seg # (map RxData segs @ [RxEof])" "seg \<noteq> []" "length seg < MAX_LINE"
    "answers w = AOk (int n) # (map (AOk \<circ> int) ns' @ as)" using Cons.prems ns by simp_all
  from segment[OF this] obtain v where v: "serve fd w = serve fd v" "rx v fd = map RxData segs @ [RxEof]"
    "answers v = map (AOk \<circ> int) ns' @ as"
    "bytes_sent fd (trace v) = bytes_sent fd (trace w) @ map enc (take n seg)" by blast
  have "\<forall>seg \<in> set segs. seg \<noteq> [] \<and> length seg < MAX_LINE" using Cons.prems(2) by simp
  from Cons.IH[OF v(2) this v(3) ns(2)] v(1,4) ns show ?case by (auto simp: map_concat)
qed

end

lemma answer_segment:
  assumes "rx w fd = RxData seg # xs" and "seg \<noteq> []" and "length seg < MAX_LINE" and "answers w = AOk (int n) # as"
  obtains w1 t r w3 where "sys_read fd MAX_LINE w = (Ret (int (length seg), seg), w1)"
    "print_received tag (int (length seg)) seg w1 = (Ret (), log_event (EPrint t) w1)"
    "sys_write fd (map rot13_char seg) (log_event (EPrint t) w1) = (Ret r, w3)" "\<not> r < 0"
    "rx w3 fd = xs" "answers w3 = as"
    "bytes_sent fd (trace w3) = bytes_sent fd (trace w) @ map rot13_char (take n seg)"
proof -
  let ?w1 = "log_event (ERead fd seg) (w\<lparr>rx := (rx w)(fd := xs)\<rparr>)"
  have rd: "sys_read fd MAX_LINE w = (Ret (int (length seg), seg), ?w1)"
    using assms(1-3) by (intro sys_read_segment) simp_all
  obtain t where pr: "print_received tag (int (length seg)) seg ?w1 = (Ret (), log_event (EPrint t) ?w1)"
    using print_received_ok[OF assms(3)] by blast
  let ?r = "min (int n) (int (length seg))"
  let ?w3 = "log_event (EWrite fd (map rot13_char seg) ?r) (log_event (EPrint t) ?w1\<lparr>answers := as\<rparr>)"
  have wr: "sys_write fd (map rot13_char seg) (log_event (EPrint t) ?w1) = (Ret ?r, ?w3)"
    using assms(4) by (subst sys_write_ok) simp_all
  have "take (nat ?r) (map rot13_char seg) = map rot13_char (take n seg)"
    by (simp add: take_map min_def)
  moreover have "\<not> ?r < 0" by simp
  ultimately show thesis by (intro that[OF rd pr wr]) simp_all
qed

interpretation worker: echo_service "connection_loop tid" rot13_char
  "\<lambda>fd. bnd (print (bytes ''client closed \<newline>'')) (\<lambda>_. bnd (sys (Close fd)) (\<lambda>_. ret ()))" for tid
proof (unfold_locales, goal_cases)
  case (1 w fd seg xs n as)
  from answer_segment[OF 1, of "bytes ''[tid:'' @ dec tid @ bytes ''] ''"] obtain w1 t r w3 where a:
    "sys_read fd MAX_LINE w = (Ret (int (length seg), seg), w1)"
    "print_received (bytes ''[tid:'' @ dec tid @ bytes ''] '') (int (length seg)) seg w1 = (Ret (), log_event (EPrint t) w1)"
    "sys_write fd (map rot13_char seg) (log_event (EPrint t) w1) = (Ret r, w3)" "\<not> r < 0"
    "rx w3 fd = xs" "answers w3 = as"
    "bytes_sent fd (trace w3) = bytes_sent fd (trace w) @ map rot13_char (take n seg)" by blast
  have "connection_loop tid fd w = connection_loop tid fd w3"
    using 1(2) by (subst connection_loop.simps) (simp add: a(1-4))
  with a(5-7) show ?case by blast
next
  case (2 w fd)
  then show ?case
    by (subst connection_loop.simps) (auto simp: sys_read_eof intro!: exI)
qed

interpretation child: echo_service "child_run pid" rot13_char
  "\<lambda>fd. print (bytes ''pid: '' @ dec pid @ bytes '' client closed \<newline>'')" for pid
proof (unfold_locales, goal_cases)
  case (1 w fd seg xs n as)
  from answer_segment[OF 1, of "[]"] obtain w1 t r w3 where a:
    "sys_read fd MAX_LINE w = (Ret (int (length seg), seg), w1)"
    "print_received [] (int (length seg)) seg w1 = (Ret (), log_event (EPrint t) w1)"
    "sys_write fd (map rot13_char seg) (log_event (EPrint t) w1) = (Ret r, w3)" "\<not> r < 0"
    "rx w3 fd = xs" "answers w3 = as"
    "bytes_sent fd (trace w3) = bytes_sent fd (trace w) @ map rot13_char (take n seg)" by blast
  have "child_run pid fd w = child_run pid fd w3"
    using 1(2) by (subst child_run.simps) (simp add: a(1-4))
  with a(5-7) show ?case by blast
next
  case (2 w fd)
  then show ?case
    by (subst child_run.simps) (auto simp: sys_read_eof intro!: exI)
qed

text \<open>
  A connection whose client sends the segments \<open>segs\<close>, each shorter than the buffer, and then
  closes is answered with the ROT13 of each segment, cut to what the kernel accepts of it, and
  then closed: the bytes a short \<open>write\<close> leaves over are never sent.
\<close>

theorem connection_loop_answers:
  assumes "rx w fd = map RxData segs @ [RxEof]"
    and "\<forall>seg \<in> set segs. seg \<noteq> [] \<and> length seg < MAX_LINE"
    and "answers w = map (AOk \<circ> int) ns @ [AOk 0]" and "length ns = length segs"
  shows "\<exists>w'. connection_loop tid fd w = (Ret (), w') \<and> last (trace w') = ESys (Close fd) 0 \<and>
    bytes_sent fd (trace w') = bytes_sent fd (trace w) @
      map rot13_char (concat (map2 take ns segs))"
  using worker.session[OF assms, of tid] by (auto simp: sys_ok)

theorem connection_loop_answers_witness:
  "\<exists>w'. connection_loop 7 5 \<lparr>rx = (\<lambda>_. [RxData [72, 105], RxData [33], RxEof]),
      answers = [AOk 2, AOk 1, AOk 0], errno = 0, trace = []\<rparr> = (Ret (), w') \<and>
    bytes_sent 5 (trace w') = [85, 118, 33]"
  using connection_loop_answers[of "\<lparr>rx = (\<lambda>_. [RxData [72, 105], RxData [33], RxEof]),
      answers = [AOk 2, AOk 1, AOk 0], errno = 0, trace = []\<rparr>" 5 "[[72, 105], [33]]" "[2, 1]" 7]
  by (auto simp: MAX_LINE_def rot13_char_def)

text \<open>
  A read that fills all of the buffer with non-NUL bytes is printed with \<open>%s\<close> past the end
  of the buffer.
\<close>

theorem connection_loop_overreads:
  assumes "rx w fd = RxData seg # xs" and "MAX_LINE \<le> length seg" and "0 \<notin> set (take MAX_LINE seg)"
  shows "\<exists>w'. connection_loop tid fd w = (Fault OutOfBounds, w')"
proof -
  have pos: "0 < MAX_LINE" by (simp add: MAX_LINE_def)
  then have "seg \<noteq> []" using assms(2) by auto
  then obtain v where rd: "sys_read fd MAX_LINE w = (Ret (int MAX_LINE, take MAX_LINE seg), v)"
    using assms(1,2) by (auto simp: sys_read_def min_def)
  have "0 \<notin> set (line_buffer (take MAX_LINE seg))" using assms(2,3) by (simp add: line_buffer_def)
  then show ?thesis
    using pos by (subst connection_loop.simps) (simp add: rd print_received_def)
qed

theorem connection_loop_overreads_witness:
  "\<exists>w'. connection_loop 7 5 \<lparr>rx = (\<lambda>_. [RxData (replicate 4096 65)]),
      answers = [], errno = 0, trace = []\<rparr> = (Fault OutOfBounds, w')"
  by (rule connection_loop_overreads[of _ _ "replicate 4096 65" "[]"])
    (simp_all add: MAX_LINE_def )

subsection \<open>A process for every connection\<close>

text \<open>One turn of the accept loop of \<^verbatim>\<open>blocking_io_process_server.c\<close>, in the process that runs it.\<close>

definition process_server_turn :: "int \<Rightarrow> int \<Rightarrow> unit io" where
  "process_server_turn pid listen_fd =
     bnd (sys (Accept listen_fd)) (\<lambda>conn_fd.
     if conn_fd < 0 then ret ()
     else bnd (print (bytes ''client connected \<newline>'')) (\<lambda>_.
     bnd (sys Fork) (\<lambda>p.
     if p = 0 then
       bnd (sys (Close listen_fd)) (\<lambda>_. bnd (child_run pid conn_fd) (\<lambda>_. die 0))
     else bnd (sys (Close conn_fd)) (\<lambda>_. ret ()))))"

fun process_server_loop :: "nat \<Rightarrow> int \<Rightarrow> int \<Rightarrow> unit io" where
  "process_server_loop 0 pid listen_fd = ret ()"
| "process_server_loop (Suc k) pid listen_fd =
     bnd (process_server_turn pid listen_fd) (\<lambda>_. process_server_loop k pid listen_fd)"

text \<open>The file's own copy of the set-up.\<close>

definition process_server_listen :: "int \<Rightarrow> int io" where
  "process_server_listen port = create_tcp_server port"

definition process_server_main :: "nat \<Rightarrow> int \<Rightarrow> unit io" where
  "process_server_main k pid =
     bnd (process_server_listen 8025) (\<lambda>listen_fd.
     bnd (sys (Signal ''SIGCHLD'' ''sigchld_handler'')) (\<lambda>_. process_server_loop k pid listen_fd))"

text \<open>
  After a fork the two processes take different sides for ever: the child has closed the
  listening socket, runs the connection and never comes back to the accept loop, whatever its
  client does; the parent, or a process whose fork failed, closes the connection and accepts again.
\<close>

theorem fork_splits_descriptors:
  assumes "answers w = AOk c # AOk p # AOk r # as" and "0 \<le> c" and "0 \<le> p" and "0 \<le> r"
  shows "(p = 0 \<longrightarrow> (\<forall>x w'. process_server_turn pid lfd w \<noteq> (Ret x, w')) \<and>
      (\<exists>v. process_server_turn pid lfd w = bnd (child_run pid c) (\<lambda>_. die 0) v \<and> rx v = rx w \<and>
        trace v = trace w @ [ESys (Accept lfd) c, EPrint (bytes ''client connected \<newline>''),
          ESys Fork 0, ESys (Close lfd) r])) \<and>
    (p \<noteq> 0 \<longrightarrow> (\<exists>w'. process_server_turn pid lfd w = (Ret (), w') \<and> rx w' = rx w \<and>
      trace w' = trace w @ [ESys (Accept lfd) c, EPrint (bytes ''client connected \<newline>''),
        ESys Fork p, ESys (Close c) r]))"
proof -
  have dead: "bnd (child_run pid c) (\<lambda>_. die 0) v \<noteq> (Ret (x :: unit), w')" for v x w'
    by (auto simp: bnd_def split: prod.split outcome.split)
  show ?thesis
    using assms dead by (auto simp: process_server_turn_def sys_ok)
qed

theorem fork_splits_descriptors_witness:
  "\<not> (\<exists>w'. process_server_turn 99 3 \<lparr>rx = (\<lambda>_. []), answers = [AOk 4, AOk 0, AOk 0], errno = 0,
     trace = []\<rparr> = (Ret (), w'))"
  using fork_splits_descriptors[of "\<lparr>rx = (\<lambda>_. []), answers = [AOk 4, AOk 0, AOk 0], errno = 0,
    trace = []\<rparr>" 4 0 0 "[]" 99 3] by simp

subsection \<open>The handler of \<open>SIGCHLD\<close>\<close>

function sigchld_handler :: "world \<Rightarrow> unit outcome \<times> world" where
  "sigchld_handler w = bnd (sys Waitpid) (\<lambda>r w.
     if r > 0 then sigchld_handler w else print (bytes ''received SIGCHLD sinal \<newline>'') w) w"
  by pat_completeness auto
termination
  by (relation "measure (\<lambda>w. length (answers w))") (auto dest!: answers_sys)

declare sigchld_handler.simps [simp del]

text \<open>One signal may stand for several children: the handler takes them all before it returns.\<close>

lemma sigchld_handler_reaps_all:
  assumes "answers w = map AOk pids @ AOk 0 # as" and "\<forall>p \<in> set pids. 0 < p"
  shows "\<exists>w'. sigchld_handler w = (Ret (), w') \<and> answers w' = as \<and> rx w' = rx w \<and>
    trace w' = trace w @ map (ESys Waitpid) (pids @ [0]) @ [EPrint (bytes ''received SIGCHLD sinal \<newline>'')]"
  using assms
proof (induction pids arbitrary: w)
  case Nil
  then show ?case by (subst sigchld_handler.simps) (simp add: sys_def)
next
  case (Cons p pids)
  let ?w1 = "log_event (ESys Waitpid p) (w\<lparr>answers := map AOk pids @ AOk 0 # as\<rparr>)"
  have "sigchld_handler w = sigchld_handler ?w1"
    using Cons.prems by (subst sigchld_handler.simps) (simp add: sys_def)
  with Cons.IH[of ?w1] Cons.prems(2) show ?case by simp
qed

subsection \<open>The two loops are the same server\<close>

text \<open>What a process does to the outside: its calls, without what it prints.\<close>

definition silent :: "event list \<Rightarrow> event list" where
  "silent es = filter (\<lambda>e. case e of EPrint _ \<Rightarrow> False | _ \<Rightarrow> True) es"

lemma silent_simps [simp]:
  "silent [] = []" "silent (xs @ ys) = silent xs @ silent ys" "silent [EPrint bs] = []"
  "silent [ESys c r] = [ESys c r]" "silent [ERead fd bs] = [ERead fd bs]"
  "silent [EWrite fd bs r] = [EWrite fd bs r]"
  by (simp_all add: silent_def)

definition alike :: "world \<Rightarrow> world \<Rightarrow> bool" where
  "alike w w' \<longleftrightarrow> rx w = rx w' \<and> answers w = answers w' \<and> errno w = errno w' \<and>
     silent (trace w) = silent (trace w')"

text \<open>Two actions that differ only in what they print.\<close>

definition io_alike :: "'a io \<Rightarrow> 'a io \<Rightarrow> bool" where
  "io_alike m m' \<longleftrightarrow> (\<forall>w w'. alike w w' \<longrightarrow> fst (m w) = fst (m' w') \<and> alike (snd (m w)) (snd (m' w')))"

lemma io_alikeE:
  assumes "io_alike m m'" and "alike w w'" and "m w = (x, v)"
  obtains v' where "m' w' = (x, v')" "alike v v'"
  using assms unfolding io_alike_def by (metis fst_conv snd_conv surj_pair)

lemma io_alike_basic:
  "io_alike (print s) (print t)" "io_alike (ret x) (ret x)" "io_alike (die c) (die c)"
  "io_alike (sys c') (sys c')" "io_alike (sys_read fd n) (sys_read fd n)" "io_alike (sys_write fd bs) (sys_write fd bs)"
  "io_alike (print_received tag r bs) (print_received tag' r bs)"
proof -
  show "io_alike (sys c') (sys c')"
    by (auto simp: io_alike_def alike_def sys_def Let_def split: list.split answer.split)
  show "io_alike (sys_read fd n) (sys_read fd n)"
    by (auto simp: io_alike_def alike_def sys_read_def split: option.split sum.split)
  show "io_alike (sys_write fd bs) (sys_write fd bs)"
    by (auto simp: io_alike_def alike_def sys_write_def Let_def split: list.split answer.split)
qed (auto simp: io_alike_def alike_def print_received_def)

lemma io_alike_bnd:
  assumes "io_alike m m'" and "\<And>x. io_alike (f x) (f' x)"
  shows "io_alike (bnd m f) (bnd m' f')"
  unfolding io_alike_def
proof (intro allI impI)
  fix w w' assume "alike w w'"
  obtain x v where m: "m w = (x, v)" by (cases "m w")
  from io_alikeE[OF assms(1) \<open>alike w w'\<close> m] obtain v' where v': "m' w' = (x, v')" "alike v v'" .
  show "fst (bnd m f w) = fst (bnd m' f' w') \<and> alike (snd (bnd m f w)) (snd (bnd m' f' w'))"
    using m v' assms(2) by (cases x) (auto simp: io_alike_def)
qed

lemma worker_child_alike:
  "alike w w' \<Longrightarrow> fst (connection_loop tid fd w) =
      fst (bnd (child_run pid fd) (\<lambda>_. bnd (sys (Close fd)) (\<lambda>_. ret ())) w') \<and>
    alike (snd (connection_loop tid fd w)) (snd (bnd (child_run pid fd) (\<lambda>_. bnd (sys (Close fd)) (\<lambda>_. ret ())) w'))"
proof (induction tid fd w arbitrary: w' rule: connection_loop.induct)
  case (1 tid fd w)
  let ?C = "\<lambda>_ :: unit. bnd (sys (Close fd)) (\<lambda>_. ret ())"
  let ?tag = "bytes ''[tid:'' @ dec tid @ bytes ''] ''"
  obtain o1 w1 where rd: "sys_read fd MAX_LINE w = (o1, w1)" by (cases "sys_read fd MAX_LINE w")
  from io_alikeE[OF io_alike_basic(5) "1.prems" rd] obtain w1' where
    rd': "sys_read fd MAX_LINE w' = (o1, w1')" "alike w1 w1'" .
  show ?case
  proof (cases o1)
    case (Ret x)
    obtain r bs where x: "x = (r, bs)" by (cases x)
    consider (err) "r < 0" | (eof) "r = 0" | (data) "0 < r" by linarith
    then show ?thesis
    proof cases
      case err
      with rd rd' Ret x show ?thesis
        by (simp add: connection_loop.simps[of tid fd w] child_run.simps[of pid fd w'] bnd_def)
    next
      case eof
      let ?p = "print (bytes ''client closed \<newline>'')"
      let ?p' = "print (bytes ''pid: '' @ dec pid @ bytes '' client closed \<newline>'')"
      have "connection_loop tid fd w = bnd ?p ?C w1"
        using eof rd Ret x by (simp add: connection_loop.simps[of tid fd w])
      moreover have "child_run pid fd w' = ?p' w1'"
        using eof rd' Ret x by (simp add: child_run.simps[of pid fd w'])
      then have "bnd (child_run pid fd) ?C w' = bnd ?p' ?C w1'" by (simp add: bnd_def)
      moreover have "io_alike (bnd ?p ?C) (bnd ?p' ?C)" by (intro io_alike_bnd io_alike_basic)
      ultimately show ?thesis using rd'(2) unfolding io_alike_def by metis
    next
      case data
      obtain o2 w2 where pr: "print_received ?tag r bs w1 = (o2, w2)" by (cases "print_received ?tag r bs w1")
      from io_alikeE[OF io_alike_basic(7) rd'(2) pr] obtain w2' where
        pr': "print_received [] r bs w1' = (o2, w2')" "alike w2 w2'" .
      obtain o3 w3 where wr: "sys_write fd (map rot13_char bs) w2 = (o3, w3)"
        by (cases "sys_write fd (map rot13_char bs) w2")
      from io_alikeE[OF io_alike_basic(6) pr'(2) wr] obtain w3' where
        wr': "sys_write fd (map rot13_char bs) w2' = (o3, w3')" "alike w3 w3'" .
      note unf = connection_loop.simps[of tid fd w] child_run.simps[of pid fd w'] bnd_def
      show ?thesis
      proof (cases "o2 = Ret () \<and> (\<exists>k. o3 = Ret k \<and> 0 \<le> k)")
        case True
        then obtain k where k: "o2 = Ret ()" "o3 = Ret k" "0 \<le> k" by blast
        have "connection_loop tid fd w = connection_loop tid fd w3" "child_run pid fd w' = child_run pid fd w3'"
          using data rd rd' pr pr' wr wr' k Ret x by (simp_all add: unf)
        moreover have "\<not> r < 0" "r \<noteq> 0" "\<not> k < 0" using data k by simp_all
        ultimately show ?thesis
          using "1.IH"[OF rd[unfolded Ret x] refl \<open>\<not> r < 0\<close> \<open>r \<noteq> 0\<close> pr[unfolded k] wr[unfolded k] \<open>\<not> k < 0\<close> wr'(2)]
          by (simp add: bnd_def)
      next
        case False
        then show ?thesis using data rd rd' pr pr' wr wr' Ret x
          by (cases o2; cases o3) (auto simp: unf)
      qed
    qed
  qed (use rd rd' in \<open>simp_all add: connection_loop.simps[of tid fd w] child_run.simps[of pid fd w'] bnd_def\<close>)
qed

text \<open>
  C11.  The worker thread of \<^verbatim>\<open>chap-26\<close> and the child process of \<^verbatim>\<open>chap-25\<close> serve a connection in the same
  way, whatever the client and the kernel do: apart from the lines they print, the worker makes the
  child's reads, writes and calls in the same order, and nothing else until the client has closed.  Then
  it closes the descriptor, which the child leaves to its exit.  In all other cases, errors included, both
  end in the same way.
\<close>

theorem worker_equals_child:
  "\<exists>es. silent (trace (snd (connection_loop tid fd w))) = silent (trace (snd (child_run pid fd w))) @ es \<and>
    (if fst (child_run pid fd w) = Ret ()
     then (\<exists>r. es = [ESys (Close fd) r] \<and> fst (connection_loop tid fd w) = Ret ()) \<or>
       (es = [] \<and> fst (connection_loop tid fd w) = Blocked)
     else es = [] \<and> fst (connection_loop tid fd w) = fst (child_run pid fd w))"
proof -
  obtain x v where c: "child_run pid fd w = (x, v)" by (cases "child_run pid fd w")
  let ?close = "bnd (sys (Close fd)) (\<lambda>_. ret ())"
  have same: "fst (connection_loop tid fd w) = fst (bnd (child_run pid fd) (\<lambda>_. ?close) w)"
    "silent (trace (snd (connection_loop tid fd w))) = silent (trace (snd (bnd (child_run pid fd) (\<lambda>_. ?close) w)))"
    using worker_child_alike[of w w tid fd pid] by (simp_all add: alike_def)
  have "(\<exists>u r. ?close v = (Ret (), u) \<and> trace u = trace v @ [ESys (Close fd) r]) \<or> ?close v = (Blocked, v)"
    by (auto simp: bnd_def sys_def Let_def split: list.split answer.split)
  with same c show ?thesis by (cases x) auto
qed

end
