(* ===== verification/Pool_Server.thy ===== *)
theory Pool_Server
  imports Thread_Pool Echo_Servers
begin

text \<open>
  The whole server of \<^verbatim>\<open>chap-26/blocking_io_threadpool_server.c\<close>: the main thread accepts connections
  and pushes them, the worker threads pop and serve them.  The threads' steps inside the queue are those
  of \<open>Thread_Pool\<close>; here they are composed with the code around the calls.
\<close>

definition BLOCKING_QUEUE_SIZE :: int where "BLOCKING_QUEUE_SIZE = 128"
definition THREAD_NUM :: nat where "THREAD_NUM = 10"

text \<open>What \<open>thread_run\<close> does with a descriptor it has popped.\<close>

definition serve_popped :: "int \<Rightarrow> int \<Rightarrow> unit io" where
  "serve_popped tid fd = bnd (print (bytes ''[tid:'' @ dec tid @ bytes ''] service to fd: '' @ dec fd @
     bytes '' \<newline>'')) (\<lambda>_. connection_loop tid fd)"

text \<open>\<open>main\<close> starts as many workers as its argument says, read by \<open>atoi\<close>, before it opens the socket.\<close>

definition thread_num :: "int option \<Rightarrow> nat" where
  "thread_num arg = (case arg of None \<Rightarrow> THREAD_NUM | Some k \<Rightarrow> nat k)"

fun create_threads :: "nat \<Rightarrow> unit io" where
  "create_threads 0 = ret ()"
| "create_threads (Suc k) = bnd (sys ThreadCreate) (\<lambda>_. create_threads k)"

definition threadpool_setup :: "int option \<Rightarrow> int io" where
  "threadpool_setup arg = bnd (create_threads (thread_num arg)) (\<lambda>_.
     bnd (create_tcp_server 8026) (\<lambda>listen_fd.
     bnd (print (bytes ''TCP Server ON: 0.0.0.0:'' @ dec 8026 @ bytes '' Thread num: '' @
       dec (case arg of None \<Rightarrow> int THREAD_NUM | Some k \<Rightarrow> k) @ bytes '' \<newline>'')) (\<lambda>_. ret listen_fd)))"

subsection \<open>The program as a step relation\<close>

text \<open>
  Thread 0 is the main thread, the threads from 1 to \<open>n\<close> are the workers.  A worker that serves a
  connection has it with the world that its client and the kernel have made for it, which is arbitrary.
  \<open>sv_end\<close> is set when the process has ended: \<open>error(1, ...)\<close> in one thread, or a fault, ends all of them.
\<close>

record pool_server =
  sv_pool :: pool
  sv_serving :: "nat \<Rightarrow> (int \<times> world) option"
  sv_accepted :: "int list"
  sv_served :: "int list"
  sv_end :: "unit outcome option"

definition server_init :: pool_server where
  "server_init = \<lparr>sv_pool = pool_init BLOCKING_QUEUE_SIZE, sv_serving = (\<lambda>_. None), sv_accepted = [],
     sv_served = [], sv_end = None\<rparr>"

text \<open>
  A worker calls \<open>blocking_queue_pop\<close> again only when its connection is finished, which means that the
  serving code has returned in the connection's world.  If it ends the process there, no thread makes a
  further step; if it blocks there for ever, the worker makes none.
\<close>

inductive server_step :: "nat \<Rightarrow> pool_server \<Rightarrow> pool_server \<Rightarrow> bool" for n where
  accept_failed: "sv_end s = None \<Longrightarrow> p_pc (sv_pool s) 0 = Idle \<Longrightarrow> server_step n s s"
| accepted: "sv_end s = None \<Longrightarrow> p_pc (sv_pool s) 0 = Idle \<Longrightarrow> 0 \<le> c \<Longrightarrow>
    server_step n s (s\<lparr>sv_pool := set_pc 0 (PushEnter c) (sv_pool s), sv_accepted := sv_accepted s @ [c]\<rparr>)"
| next_pop: "sv_end s = None \<Longrightarrow> t \<in> {1..n} \<Longrightarrow> p_pc (sv_pool s) t = Idle \<Longrightarrow> sv_serving s t = None \<Longrightarrow>
    server_step n s (s\<lparr>sv_pool := set_pc t PopEnter (sv_pool s)\<rparr>)"
| in_queue: "sv_end s = None \<Longrightarrow> p_pc (sv_pool s) t \<noteq> Idle \<Longrightarrow> \<forall>fd. p_pc (sv_pool s) t \<noteq> PopUnlock fd \<Longrightarrow>
    pool_step t (sv_pool s) p \<Longrightarrow> server_step n s (s\<lparr>sv_pool := p\<rparr>)"
| popped: "sv_end s = None \<Longrightarrow> p_pc (sv_pool s) t = PopUnlock fd \<Longrightarrow> pool_step t (sv_pool s) p \<Longrightarrow>
    server_step n s (s\<lparr>sv_pool := p, sv_serving := (sv_serving s)(t := Some (fd, w))\<rparr>)"
| served: "sv_end s = None \<Longrightarrow> sv_serving s t = Some (fd, w) \<Longrightarrow> serve_popped (int t) fd w = (Ret (), w') \<Longrightarrow>
    server_step n s (s\<lparr>sv_serving := (sv_serving s)(t := None), sv_served := sv_served s @ [fd]\<rparr>)"
| ended: "sv_end s = None \<Longrightarrow> sv_serving s t = Some (fd, w) \<Longrightarrow> serve_popped (int t) fd w = (x, w') \<Longrightarrow>
    x \<noteq> Ret () \<Longrightarrow> x \<noteq> Blocked \<Longrightarrow> server_step n s (s\<lparr>sv_end := Some x\<rparr>)"

inductive server_reachable :: "nat \<Rightarrow> pool_server \<Rightarrow> bool" for n where
  server_start: "server_reachable n server_init"
| server_more: "server_reachable n s \<Longrightarrow> server_step n s s' \<Longrightarrow> server_reachable n s'"

subsection \<open>Where a connection is\<close>

fun to_push :: "pc \<Rightarrow> int list" where
  "to_push (PushEnter c) = [c]" | "to_push (PushTest c) = [c]" | "to_push (PushAsleep c) = [c]"
| "to_push _ = []"

fun taken :: "pc \<Rightarrow> int list" where
  "taken (PopSignal fd) = [fd]" | "taken (PopUnlock fd) = [fd]" | "taken _ = []"

fun pushing :: "pc \<Rightarrow> bool" where
  "pushing (PushEnter _) = True" | "pushing (PushTest _) = True" | "pushing (PushAsleep _) = True"
| "pushing PushSignal = True" | "pushing PushUnlock = True" | "pushing _ = False"

lemma to_push_pushing: "\<not> pushing p \<Longrightarrow> to_push p = []"
  by (cases p) auto

lemma taken_pushing: "pushing p \<Longrightarrow> taken p = []"
  by (cases p) auto

text \<open>A step inside the queue's code keeps every thread on its side.\<close>

lemma role_step:
  assumes "pool_step t s s'" and "p_pc s t \<noteq> Idle"
  shows "p_pc s' u = Idle \<or> p_pc s u \<noteq> Idle \<and> (pushing (p_pc s' u) \<longleftrightarrow> pushing (p_pc s u))"
  using assms by cases auto

text \<open>It moves a descriptor from its pusher into the queue and from the queue to its popper only.\<close>

lemma push_step:
  assumes "pool_step t s s'" and "p_pc s t \<noteq> Idle"
  shows "p_pushed s' @ to_push (p_pc s' t) = p_pushed s @ to_push (p_pc s t)"
    and "u \<noteq> t \<Longrightarrow> to_push (p_pc s' u) = to_push (p_pc s u)"
    and "\<not> pushing (p_pc s t) \<Longrightarrow> p_pushed s' = p_pushed s"
  using assms by (cases; auto)+

lemma pop_step:
  assumes "pool_step t s s'" and "p_pc s t \<noteq> Idle" and "\<forall>fd. p_pc s t \<noteq> PopUnlock fd"
  shows "mset (p_popped s') + mset (taken (p_pc s t)) = mset (p_popped s) + mset (taken (p_pc s' t))"
    and "u \<noteq> t \<Longrightarrow> taken (p_pc s' u) = taken (p_pc s u)"
    and "pushing (p_pc s t) \<Longrightarrow> p_popped s' = p_popped s"
  using assms by (cases; auto)+

lemma unlock_step:
  assumes "pool_step t s s'" and "p_pc s t = PopUnlock fd"
  shows "p_pc s' = (p_pc s)(t := Idle) \<and> p_pushed s' = p_pushed s \<and> p_popped s' = p_popped s"
  using assms by cases auto

text \<open>What a worker has in hand: popped and about to be served, or being served.\<close>

definition in_hand :: "pool_server \<Rightarrow> nat \<Rightarrow> int multiset" where
  "in_hand s t = mset (taken (p_pc (sv_pool s) t)) +
     (case sv_serving s t of None \<Rightarrow> {#} | Some (fd, _) \<Rightarrow> {#fd#})"

definition server_ok :: "nat \<Rightarrow> pool_server \<Rightarrow> bool" where
  "server_ok n s \<longleftrightarrow> pool_reachable BLOCKING_QUEUE_SIZE (sv_pool s) \<and>
     sv_accepted s = p_pushed (sv_pool s) @ to_push (p_pc (sv_pool s) 0) \<and>
     (\<forall>t. pushing (p_pc (sv_pool s) t) \<longrightarrow> t = 0) \<and>
     (\<forall>t. p_pc (sv_pool s) t \<noteq> Idle \<and> \<not> pushing (p_pc (sv_pool s) t) \<longrightarrow> t \<in> {1..n} \<and> sv_serving s t = None) \<and>
     (\<forall>t. sv_serving s t \<noteq> None \<longrightarrow> t \<in> {1..n}) \<and>
     mset (p_popped (sv_pool s)) = mset (sv_served s) + (\<Sum>t\<in>{1..n}. in_hand s t)"

lemma sum_change_one:
  fixes f f' :: "'b \<Rightarrow> 'a :: comm_monoid_add"
  assumes "finite A" and "t \<in> A" and "\<And>u. u \<noteq> t \<Longrightarrow> f' u = f u"
  shows "sum f' A + f t = sum f A + f' t"
proof -
  have "sum f' (A - {t}) = sum f (A - {t})" using assms(3) by (intro sum.cong) auto
  then show ?thesis using sum.remove[OF assms(1,2), of f] sum.remove[OF assms(1,2), of f']
    by (simp add: ac_simps)
qed

lemma sum_shift:
  fixes a b p p' r x y :: "'a multiset"
  assumes "a + x = b + y" and "p = r + b" and "p' + x = p + y"
  shows "p' = r + a"
proof -
  have "p' + x = r + (b + y)" using assms(2,3) by (simp add: add.assoc)
  also have "\<dots> = (r + a) + x" by (simp only: assms(1)[symmetric] add.assoc)
  finally show ?thesis by simp
qed

lemma server_ok_init: "server_ok n server_init"
  using pool_reachable.start[of BLOCKING_QUEUE_SIZE]
  by (simp add: server_ok_def server_init_def pool_init_def in_hand_def)

text \<open>A step in the queue's code that hands over nothing to the serving code.\<close>

lemma server_ok_in_queue:
  assumes ok: "server_ok n s" and "p_pc (sv_pool s) t \<noteq> Idle" "\<forall>fd. p_pc (sv_pool s) t \<noteq> PopUnlock fd"
    and st: "pool_step t (sv_pool s) p"
  shows "server_ok n (s\<lparr>sv_pool := p\<rparr>)"
proof -
  let ?p = "sv_pool s" and ?s' = "s\<lparr>sv_pool := p\<rparr>"
  note role = role_step[OF st assms(2)]
  note psh = push_step[OF st assms(2)]
  note pp = pop_step[OF st assms(2,3)]
  have reach: "pool_reachable BLOCKING_QUEUE_SIZE p"
    using ok st pool_reachable.step unfolding server_ok_def by blast
  have t: "if pushing (p_pc ?p t) then t = 0 else t \<in> {1..n} \<and> sv_serving s t = None"
    using ok assms(2) unfolding server_ok_def by auto
  have acc: "sv_accepted s = p_pushed p @ to_push (p_pc p 0)"
  proof (cases "t = 0")
    case True
    then show ?thesis using ok psh(1) unfolding server_ok_def by simp
  next
    case False
    then have "\<not> pushing (p_pc ?p t)" using t by (auto split: if_splits)
    then show ?thesis using ok psh(2)[of 0] psh(3) False unfolding server_ok_def by simp
  qed
  have roles: "\<forall>u. pushing (p_pc p u) \<longrightarrow> u = 0"
    "\<forall>u. p_pc p u \<noteq> Idle \<and> \<not> pushing (p_pc p u) \<longrightarrow> u \<in> {1..n} \<and> sv_serving s u = None"
    using ok role unfolding server_ok_def by (metis pushing.simps(6))+
  have "mset (p_popped p) = mset (sv_served s) + (\<Sum>u\<in>{1..n}. in_hand ?s' u)"
  proof (cases "pushing (p_pc ?p t)")
    case True
    have "taken (p_pc p t) = []"
      using role[of t] True taken_pushing by (cases "p_pc p t = Idle") auto
    then have "in_hand ?s' u = in_hand s u" for u
      using pp(2)[of u] taken_pushing[OF True] by (cases "u = t") (simp_all add: in_hand_def)
    then show ?thesis using ok pp(3)[OF True] unfolding server_ok_def by simp
  next
    case False
    with t have tn: "t \<in> {1..n}" by simp
    have "in_hand ?s' u = in_hand s u" if "u \<noteq> t" for u using pp(2)[OF that] by (simp add: in_hand_def)
    from sum_change_one[OF finite_atLeastAtMost tn this] have
      "(\<Sum>u\<in>{1..n}. in_hand ?s' u) + in_hand s t = (\<Sum>u\<in>{1..n}. in_hand s u) + in_hand ?s' t" .
    moreover have "mset (p_popped ?p) = mset (sv_served s) + (\<Sum>u\<in>{1..n}. in_hand s u)"
      using ok unfolding server_ok_def by simp
    moreover have "mset (p_popped p) + in_hand s t = mset (p_popped ?p) + in_hand ?s' t"
      using pp(1) by (simp add: in_hand_def)
    ultimately show ?thesis by (rule sum_shift)
  qed
  with reach acc roles ok show ?thesis unfolding server_ok_def by simp
qed

lemma server_ok_step:
  assumes "server_step n s s'" and ok: "server_ok n s"
  shows "server_ok n s'"
  using assms(1)
proof cases
  case accept_failed
  with ok show ?thesis by simp
next
  case (accepted c)
  have "pool_step 0 (sv_pool s) (set_pc 0 (PushEnter c) (sv_pool s))" by (rule call_push[OF accepted(3)])
  then have "pool_reachable BLOCKING_QUEUE_SIZE (set_pc 0 (PushEnter c) (sv_pool s))"
    using ok pool_reachable.step unfolding server_ok_def by blast
  moreover have "in_hand s' u = in_hand s u" for u using accepted by (simp add: in_hand_def)
  ultimately show ?thesis using ok accepted unfolding server_ok_def by auto
next
  case (next_pop t)
  have "pool_step t (sv_pool s) (set_pc t PopEnter (sv_pool s))" by (rule call_pop[OF next_pop(4)])
  then have "pool_reachable BLOCKING_QUEUE_SIZE (set_pc t PopEnter (sv_pool s))"
    using ok pool_reachable.step unfolding server_ok_def by blast
  moreover have "in_hand s' u = in_hand s u" for u using next_pop by (simp add: in_hand_def)
  ultimately show ?thesis using ok next_pop unfolding server_ok_def by auto
next
  case (in_queue t p)
  with ok server_ok_in_queue show ?thesis by blast
next
  case (popped t fd p w)
  note un = unlock_step[OF popped(4,3)]
  have reach: "pool_reachable BLOCKING_QUEUE_SIZE p"
    using ok popped(4) pool_reachable.step unfolding server_ok_def by blast
  have t: "t \<in> {1..n}" "sv_serving s t = None"
    using ok popped(3) unfolding server_ok_def by (metis pc.distinct(19) pushing.simps(11))+
  have "in_hand s' u = in_hand s u" for u
    using popped un t(2) by (cases "u = t") (simp_all add: in_hand_def)
  then have "(\<Sum>u\<in>{1..n}. in_hand s' u) = (\<Sum>u\<in>{1..n}. in_hand s u)" by simp
  moreover have "\<forall>u. sv_serving s' u \<noteq> None \<longrightarrow> u \<in> {1..n}"
    using ok t(1) popped(1) unfolding server_ok_def by simp
  moreover have "to_push (p_pc p 0) = to_push (p_pc (sv_pool s) 0)" using un t(1) by simp
  moreover have "\<forall>u. pushing (p_pc p u) \<longrightarrow> u = 0" using ok un unfolding server_ok_def by simp
  moreover have "\<forall>u. p_pc p u \<noteq> Idle \<and> \<not> pushing (p_pc p u) \<longrightarrow> u \<in> {1..n} \<and> sv_serving s' u = None"
    using ok un popped(1) unfolding server_ok_def by simp
  ultimately show ?thesis using reach popped(1) un ok unfolding server_ok_def by simp
next
  case (served t fd w w')
  have t: "t \<in> {1..n}" using ok served(3) unfolding server_ok_def by (metis option.distinct(1))
  have other: "in_hand s' u = in_hand s u" if "u \<noteq> t" for u using served that by (simp add: in_hand_def)
  have "in_hand s t = in_hand s' t + {#fd#}" using served by (simp add: in_hand_def)
  with sum_change_one[OF finite_atLeastAtMost t, of "in_hand s'" "in_hand s", OF other] have "(\<Sum>u\<in>{1..n}. in_hand s u) = (\<Sum>u\<in>{1..n}. in_hand s' u) + {#fd#}"
    by (simp add: add.assoc[symmetric])
  with served ok show ?thesis unfolding server_ok_def by auto
next
  case (ended t fd w x w')
  then have "in_hand s' u = in_hand s u" for u by (simp add: in_hand_def)
  with ended ok show ?thesis unfolding server_ok_def by simp
qed

text \<open>What ends the process is the serving of some connection.\<close>

definition ended_by_serving :: "pool_server \<Rightarrow> bool" where
  "ended_by_serving s \<longleftrightarrow> (\<exists>t fd w. sv_serving s t = Some (fd, w) \<and>
     sv_end s = Some (fst (serve_popped (int t) fd w)) \<and> sv_end s \<noteq> Some (Ret ()) \<and> sv_end s \<noteq> Some Blocked)"

lemma server_end_reachable: "server_reachable n s \<Longrightarrow> sv_end s \<noteq> None \<longrightarrow> ended_by_serving s"
proof (induction rule: server_reachable.induct)
  case (server_more s s')
  from server_more(2) show ?case
  proof cases
    case (ended t fd w x w')
    then show ?thesis by (auto simp: ended_by_serving_def intro!: exI[of _ t] exI[of _ fd] exI[of _ w])
  qed auto
qed (simp add: server_init_def)

lemma server_ok_reachable: "server_reachable n s \<Longrightarrow> server_ok n s"
  by (induction rule: server_reachable.induct) (auto intro: server_ok_init server_ok_step)

text \<open>
  C2.  No connection is lost and none is served twice: at every moment each accepted connection is in
  exactly one place, served, in the hand of one worker, in the queue, or waiting with the main thread
  for a free cell; and connections are taken by the workers in the order of their arrival.  This is also
  how the process leaves its connections when an error of one of them ends it.
\<close>

theorem pool_server_serves_once:
  assumes "server_reachable n s"
  shows "mset (sv_accepted s) = mset (sv_served s) + (\<Sum>t\<in>{1..n}. in_hand s t) +
      mset (queue_list (p_queue (sv_pool s))) + mset (to_push (p_pc (sv_pool s) 0)) \<and>
    sv_accepted s = p_popped (sv_pool s) @ queue_list (p_queue (sv_pool s)) @ to_push (p_pc (sv_pool s) 0)"
proof -
  note ok = server_ok_reachable[OF assms]
  have "0 < BLOCKING_QUEUE_SIZE" by (simp add: BLOCKING_QUEUE_SIZE_def)
  then have "pool_safe BLOCKING_QUEUE_SIZE (sv_pool s)"
    using ok pool_safe_reachable unfolding server_ok_def by blast
  then have "p_pushed (sv_pool s) = p_popped (sv_pool s) @ queue_list (p_queue (sv_pool s))"
    by (simp add: pool_safe_def)
  with ok show ?thesis unfolding server_ok_def by simp
qed

text \<open>A run with one worker: a connection is accepted while the worker is on its way to the queue.\<close>

definition demo_server :: pool_server where
  "demo_server = server_init\<lparr>sv_pool := set_pc 1 PopEnter (set_pc 0 (PushEnter 7) (sv_pool server_init)),
     sv_accepted := [7]\<rparr>"

lemma demo_server_reachable: "server_reachable 1 demo_server"
proof -
  let ?s1 = "server_init\<lparr>sv_pool := set_pc 0 (PushEnter 7) (sv_pool server_init), sv_accepted := [7]\<rparr>"
  have "p_pc (sv_pool server_init) 0 = Idle" by (simp add: server_init_def pool_init_def)
  from server_more[OF server_start accepted[OF _ this, of 7]] have r1: "server_reachable 1 ?s1"
    by (simp add: server_init_def)
  have "p_pc (sv_pool ?s1) 1 = Idle" "sv_serving ?s1 1 = None" by (simp_all add: server_init_def pool_init_def)
  from server_more[OF r1 next_pop[OF _ _ this]] show ?thesis by (simp add: demo_server_def server_init_def)
qed

theorem pool_server_serves_once_witness:
  "{#7#} = mset (sv_served demo_server) + (\<Sum>t\<in>{1..1}. in_hand demo_server t) +
     mset (queue_list (p_queue (sv_pool demo_server))) + mset (to_push (p_pc (sv_pool demo_server) 0))"
  using pool_server_serves_once[OF demo_server_reachable] by (simp add: demo_server_def)

end
