(* ===== verification/Pool_Liveness.thy ===== *)
theory Pool_Liveness
  imports Pool_Server
begin

text \<open>
  The thread-pool server finishes its work as far as its clients let it: when no new connection arrives,
  the threads come to rest after a bounded number of steps, and then the process has been ended by an
  error, or all workers wait for their clients, or every other connection has been served.  The variant is
  the work that is left; the invariant says that a worker at rest has seen the empty queue.
\<close>

subsection \<open>Steps that finish work\<close>

text \<open>
  All steps of the server but those of its environment: a connection that arrives, a failed
  \<open>accept\<close>, and a sleeper of a condition variable that wakes without a signal.
\<close>

inductive work_step :: "nat \<Rightarrow> pool_server \<Rightarrow> pool_server \<Rightarrow> bool" for n where
  work_next: "sv_end s = None \<Longrightarrow> t \<in> {1..n} \<Longrightarrow> p_pc (sv_pool s) t = Idle \<Longrightarrow> sv_serving s t = None \<Longrightarrow>
    work_step n s (s\<lparr>sv_pool := set_pc t PopEnter (sv_pool s)\<rparr>)"
| work_queue: "sv_end s = None \<Longrightarrow> p_pc (sv_pool s) t \<noteq> Idle \<Longrightarrow> \<forall>fd. p_pc (sv_pool s) t \<noteq> PopUnlock fd \<Longrightarrow>
    \<not> asleep (p_pc (sv_pool s) t) \<Longrightarrow> pool_step t (sv_pool s) p \<Longrightarrow>
    work_step n s (s\<lparr>sv_pool := p\<rparr>)"
| work_popped: "sv_end s = None \<Longrightarrow> p_pc (sv_pool s) t = PopUnlock fd \<Longrightarrow> pool_step t (sv_pool s) p \<Longrightarrow>
    work_step n s (s\<lparr>sv_pool := p, sv_serving := (sv_serving s)(t := Some (fd, w))\<rparr>)"
| work_served: "sv_end s = None \<Longrightarrow> sv_serving s t = Some (fd, w) \<Longrightarrow> serve_popped (int t) fd w = (Ret (), w') \<Longrightarrow>
    work_step n s (s\<lparr>sv_serving := (sv_serving s)(t := None), sv_served := sv_served s @ [fd]\<rparr>)"
| work_ended: "sv_end s = None \<Longrightarrow> sv_serving s t = Some (fd, w) \<Longrightarrow> serve_popped (int t) fd w = (x, w') \<Longrightarrow>
    x \<noteq> Ret () \<Longrightarrow> x \<noteq> Blocked \<Longrightarrow> work_step n s (s\<lparr>sv_end := Some x\<rparr>)"

text \<open>
  A worker whose serving code blocks for ever: its client neither goes on nor closes, or does not take
  the answer.
\<close>

definition waits_for_client :: "pool_server \<Rightarrow> nat \<Rightarrow> bool" where
  "waits_for_client s t \<longleftrightarrow>
     (\<exists>fd w. sv_serving s t = Some (fd, w) \<and> fst (serve_popped (int t) fd w) = Blocked)"

lemma work_step_server: "work_step n s s' \<Longrightarrow> server_step n s s'"
  by (induction rule: work_step.induct) (blast intro: server_step.intros)+

lemma work_step_accepted: "work_step n s s' \<Longrightarrow> sv_accepted s' = sv_accepted s"
  by (induction rule: work_step.induct) simp_all

subsection \<open>The work that is left\<close>

text \<open>
  What every thread can still do by itself.  A queued connection is worth 8: the pop that takes it may
  wake the main thread, and the push that stored it has paid for the worker it wakes.
\<close>

fun worth :: "pc \<Rightarrow> nat" where
  "worth Idle = 0"
| "worth (PushEnter _) = 14" | "worth (PushTest _) = 13" | "worth (PushAsleep _) = 12"
| "worth PushSignal = 4" | "worth PushUnlock = 1"
| "worth PopEnter = 2" | "worth PopTest = 1" | "worth PopAsleep = 0"
| "worth (PopSignal _) = 8" | "worth (PopUnlock _) = 5"

definition work_of :: "pool_server \<Rightarrow> nat \<Rightarrow> nat" where
  "work_of s t = (if p_pc (sv_pool s) t \<noteq> Idle \<or> t = 0 then worth (p_pc (sv_pool s) t)
     else case sv_serving s t of None \<Rightarrow> 3 | Some _ \<Rightarrow> 4)"

definition work_left :: "nat \<Rightarrow> pool_server \<Rightarrow> nat" where
  "work_left n s = 8 * nat (bq_used (p_queue (sv_pool s))) + sum (work_of s) {0..n} +
     (if sv_end s = None then 1 else 0)"

lemma sum_change_two:
  fixes f f' :: "nat \<Rightarrow> nat"
  assumes "finite A" and "t \<in> A" and "u \<in> A" and "t \<noteq> u" and "\<And>v. v \<noteq> t \<Longrightarrow> v \<noteq> u \<Longrightarrow> f' v = f v"
  shows "sum f' A + f t + f u = sum f A + f' t + f' u"
proof -
  let ?g = "f(u := f' u)"
  have "sum f' A + ?g t = sum ?g A + f' t"
    by (rule sum_change_one[OF assms(1,2)]) (use assms(5) in auto)
  then have "sum f' A + f t = sum ?g A + f' t" using assms(4) by simp
  moreover have "sum ?g A + f u = sum f A + f' u"
    using sum_change_one[OF assms(1,3), of ?g f] by auto
  ultimately show ?thesis by linarith
qed

text \<open>A step in the queue's code leaves less work: for its own thread, or for it and the one it wakes.\<close>

lemma worth_step:
  assumes "pool_step t s s'" and "queue_ok (p_queue s)" and "p_pc s t \<noteq> Idle"
    and "\<not> asleep (p_pc s t)" and "\<forall>fd. p_pc s t \<noteq> PopUnlock fd"
  shows "(p_pc s' t = Idle \<longrightarrow> pushing (p_pc s t)) \<and>
    ((\<forall>v. v \<noteq> t \<longrightarrow> p_pc s' v = p_pc s v) \<and>
       8 * nat (bq_used (p_queue s')) + worth (p_pc s' t) < 8 * nat (bq_used (p_queue s)) + worth (p_pc s t) \<or>
     (\<exists>u. u \<noteq> t \<and> p_pc s u \<noteq> Idle \<and> p_pc s' u \<noteq> Idle \<and> p_queue s' = p_queue s \<and>
       (\<forall>v. v \<noteq> t \<longrightarrow> v \<noteq> u \<longrightarrow> p_pc s' v = p_pc s v) \<and>
       worth (p_pc s' t) + worth (p_pc s' u) < worth (p_pc s t) + worth (p_pc s u)))"
  using assms(1)
proof cases
  case (push_store fd)
  then have "nat (bq_used (p_queue s')) = Suc (nat (bq_used (p_queue s)))"
    using queue_okD(3)[OF assms(2)] by (simp add: body_used)
  with push_store show ?thesis by simp
next
  case (pop_take fd q)
  then have "bq_used q = bq_used (p_queue s) - 1" "bq_used (p_queue s) \<noteq> 0"
    using body_used(2)[of "p_queue s"] by (simp_all add: queue_empty_def)
  then have "nat (bq_used (p_queue s)) = Suc (nat (bq_used q))"
    using queue_okD(3)[OF assms(2)] by simp
  with pop_take show ?thesis by simp
next
  case (push_signal u)
  then show ?thesis by (intro conjI disjI2 exI[of _ u]) auto
next
  case (pop_signal fd u fd')
  then show ?thesis by (intro conjI disjI2 exI[of _ u]) auto
qed (use assms(3-5) in simp_all)

lemma work_left_one:
  assumes "t \<le> n" and "sv_end s' = sv_end s" and "\<And>v. v \<noteq> t \<Longrightarrow> work_of s' v = work_of s v"
    and "8 * nat (bq_used (p_queue (sv_pool s'))) + work_of s' t < 8 * nat (bq_used (p_queue (sv_pool s))) + work_of s t"
  shows "work_left n s' < work_left n s"
proof -
  have "t \<in> {0..n}" using assms(1) by simp
  from sum_change_one[OF finite_atLeastAtMost this, of "work_of s'" "work_of s", OF assms(3)] assms(2,4)
  show ?thesis by (simp add: work_left_def)
qed

lemma work_left_two:
  assumes "t \<le> n" and "u \<le> n" and "t \<noteq> u"
    and "\<And>v. v \<noteq> t \<Longrightarrow> v \<noteq> u \<Longrightarrow> work_of s' v = work_of s v"
    and "p_queue (sv_pool s') = p_queue (sv_pool s)" and "sv_end s' = sv_end s"
    and "work_of s' t + work_of s' u < work_of s t + work_of s u"
  shows "work_left n s' < work_left n s"
proof -
  have "t \<in> {0..n}" "u \<in> {0..n}" using assms(1,2) by simp_all
  from sum_change_two[OF finite_atLeastAtMost this assms(3), of "work_of s'" "work_of s", OF assms(4)] assms(5-7)
  show ?thesis by (simp add: work_left_def)
qed

lemma server_ok_thread: "server_ok n s \<Longrightarrow> p_pc (sv_pool s) t \<noteq> Idle \<Longrightarrow> t \<le> n"
  unfolding server_ok_def by (metis atLeastAtMost_iff le0)

lemma server_ok_serving: "server_ok n s \<Longrightarrow> sv_serving s t = Some x \<Longrightarrow> p_pc (sv_pool s) t = Idle"
  unfolding server_ok_def by (metis atLeastAtMost_iff not_one_le_zero option.distinct(1))

lemma server_ok_safe: "server_ok n s \<Longrightarrow> pool_safe BLOCKING_QUEUE_SIZE (sv_pool s)"
  unfolding server_ok_def by (simp add: pool_safe_reachable BLOCKING_QUEUE_SIZE_def)

lemma server_ok_awake: "server_ok n s \<Longrightarrow> pool_awake (sv_pool s)"
  unfolding server_ok_def by (rule pool_awake_reachable) (auto simp: BLOCKING_QUEUE_SIZE_def)

lemma work_of_in_queue:
  assumes "server_ok n s" and "p_pc p v \<noteq> Idle \<or> pushing (p_pc (sv_pool s) v)"
  shows "work_of (s\<lparr>sv_pool := p\<rparr>) v = worth (p_pc p v)"
proof -
  have "v = 0" if "p_pc p v = Idle" using assms that unfolding server_ok_def by auto
  then show ?thesis by (auto simp: work_of_def)
qed

lemma work_left_in_queue:
  assumes ok: "server_ok n s" and "p_pc (sv_pool s) t \<noteq> Idle" "\<forall>fd. p_pc (sv_pool s) t \<noteq> PopUnlock fd"
    and "\<not> asleep (p_pc (sv_pool s) t)" and "pool_step t (sv_pool s) p"
  shows "work_left n (s\<lparr>sv_pool := p\<rparr>) < work_left n s"
proof -
  let ?p = "sv_pool s" and ?s' = "s\<lparr>sv_pool := p\<rparr>"
  have q: "queue_ok (p_queue ?p)" using server_ok_safe[OF ok] by (simp add: pool_safe_def)
  note w = worth_step[OF assms(5) q assms(2,4,3)]
  have same: "work_of ?s' v = work_of s v" if "p_pc p v = p_pc ?p v" for v using that by (simp add: work_of_def)
  have t': "work_of ?s' t = worth (p_pc p t)" using w work_of_in_queue[OF ok, of p t] by blast
  have old: "work_of s v = worth (p_pc ?p v)" if "p_pc ?p v \<noteq> Idle" for v using that by (simp add: work_of_def)
  from w consider
      (one) "\<forall>v. v \<noteq> t \<longrightarrow> p_pc p v = p_pc ?p v"
        "8 * nat (bq_used (p_queue p)) + worth (p_pc p t) < 8 * nat (bq_used (p_queue ?p)) + worth (p_pc ?p t)"
    | (two) u where "u \<noteq> t" "p_pc ?p u \<noteq> Idle" "p_pc p u \<noteq> Idle" "p_queue p = p_queue ?p"
        "\<forall>v. v \<noteq> t \<longrightarrow> v \<noteq> u \<longrightarrow> p_pc p v = p_pc ?p v"
        "worth (p_pc p t) + worth (p_pc p u) < worth (p_pc ?p t) + worth (p_pc ?p u)" by blast
  then show ?thesis
  proof cases
    case one
    then show ?thesis using same t' old[OF assms(2)] server_ok_thread[OF ok assms(2)]
      by (intro work_left_one[of t]) auto
  next
    case two
    then show ?thesis
      using same t' old[OF assms(2)] old[OF two(2)] work_of_in_queue[OF ok, of p u]
        server_ok_thread[OF ok assms(2)] server_ok_thread[OF ok two(2)]
      by (intro work_left_two[of t n u]) auto
  qed
qed

text \<open>Every step of the server's own leaves less work.\<close>

lemma work_step_decreases:
  assumes "work_step n s s'" and ok: "server_ok n s"
  shows "work_left n s' < work_left n s"
  using assms(1)
proof cases
  case (work_next t)
  then show ?thesis by (intro work_left_one[of t]) (auto simp: work_of_def)
next
  case (work_queue t p)
  then show ?thesis using work_left_in_queue[OF ok] by simp
next
  case (work_popped t fd p w)
  note un = unlock_step[OF work_popped(4,3)]
  have q: "p_queue p = p_queue (sv_pool s)" using work_popped(4,3) by cases auto
  have t: "t \<in> {1..n}" using ok work_popped(3) unfolding server_ok_def by (metis pc.distinct(19) pushing.simps(11))
  with un q work_popped show ?thesis by (intro work_left_one[of t]) (auto simp: work_of_def)
next
  case (work_served t fd w w')
  have t: "t \<in> {1..n}" using ok work_served(3) unfolding server_ok_def by (metis option.distinct(1))
  with work_served server_ok_serving[OF ok work_served(3)] show ?thesis
    by (intro work_left_one[of t]) (auto simp: work_of_def)
next
  case (work_ended t fd w x w')
  then have "work_of s' = work_of s" by (auto simp: work_of_def fun_eq_iff)
  with work_ended show ?thesis by (simp add: work_left_def)
qed

subsection \<open>Rest\<close>

text \<open>When no thread has a step of its own, a worker sleeps in the queue or waits for its client.\<close>

lemma at_rest:
  assumes ok: "server_ok n s" and on: "sv_end s = None" and rest: "\<And>s'. \<not> work_step n s s'"
  shows "sv_serving s t \<noteq> None \<Longrightarrow> waits_for_client s t"
    and "t \<in> {1..n} \<Longrightarrow> sv_serving s t = None \<Longrightarrow> p_pc (sv_pool s) t = PopAsleep"
    and "p_pc (sv_pool s) t = Idle \<or> asleep (p_pc (sv_pool s) t)"
proof -
  let ?p = "sv_pool s"
  have safe: "pool_safe BLOCKING_QUEUE_SIZE ?p" by (rule server_ok_safe[OF ok])
  show "waits_for_client s t" if some: "sv_serving s t \<noteq> None"
  proof -
    obtain fd w where sv: "sv_serving s t = Some (fd, w)" using some by auto
    obtain x w' where x: "serve_popped (int t) fd w = (x, w')" by (cases "serve_popped (int t) fd w")
    have "x = Blocked" using rest work_served[OF on sv] work_ended[OF on sv x] x by blast
    with sv x show ?thesis by (auto simp: waits_for_client_def)
  qed
  have free: "\<not> holds_mutex (p_pc ?p t)" for t
  proof
    assume h: "holds_mutex (p_pc ?p t)"
    then obtain p where "pool_step t ?p p" using holder_steps by blast
    moreover have "p_pc ?p t \<noteq> Idle" "\<not> asleep (p_pc ?p t)" using h by (cases "p_pc ?p t"; simp)+
    ultimately show False using rest work_queue[OF on] work_popped[OF on] by metis
  qed
  have owner: "p_owner ?p = None" using safe free by (auto simp: pool_safe_def)
  show calm: "p_pc ?p t = Idle \<or> asleep (p_pc ?p t)" for t
  proof (rule ccontr)
    assume a: "\<not> (p_pc ?p t = Idle \<or> asleep (p_pc ?p t))"
    then have "(\<exists>fd. p_pc ?p t = PushEnter fd) \<or> p_pc ?p t = PopEnter"
      using free[of t] by (cases "p_pc ?p t") auto
    then obtain p where "pool_step t ?p p" using owner pool_step.push_lock pool_step.pop_lock by blast
    moreover have "\<forall>fd. p_pc ?p t \<noteq> PopUnlock fd" using free[of t] by auto
    ultimately show False using a rest work_queue[OF on] by blast
  qed
  show "p_pc ?p t = PopAsleep" if t: "t \<in> {1..n}" and none: "sv_serving s t = None"
  proof -
    have "p_pc ?p t \<noteq> Idle" using rest work_next[OF on t _ none] by blast
    with calm[of t] have "asleep (p_pc ?p t)" by blast
    moreover have "\<not> pushing (p_pc ?p t)" using ok t unfolding server_ok_def by auto
    ultimately show ?thesis by (cases "p_pc ?p t") auto
  qed
qed

lemma rest_all_served:
  assumes ok: "server_ok n s" and on: "sv_end s = None" and rest: "\<And>s'. \<not> work_step n s s'"
    and t: "t \<in> {1..n}" "sv_serving s t = None"
  shows "mset (sv_accepted s) = mset (sv_served s) + (\<Sum>t\<in>{1..n}. in_hand s t)"
proof -
  let ?p = "sv_pool s"
  have safe: "pool_safe BLOCKING_QUEUE_SIZE ?p" by (rule server_ok_safe[OF ok])
  have awake: "pool_awake ?p" by (rule server_ok_awake[OF ok])
  note r = at_rest[OF ok on rest]
  have calm: "\<not> pop_pending (p_pc ?p u)" "p_pc ?p u \<noteq> PushSignal" "\<not> push_pending (p_pc ?p u)"
    "\<not> pop_signalling (p_pc ?p u)" for u using r(3)[of u] by (cases "p_pc ?p u"; simp)+
  have empty: "queue_empty (p_queue ?p)"
    using queue_empty_if_awake[OF safe awake r(2)[OF t]] calm by simp
  have "\<not> push_asleep (p_pc ?p 0)"
    using queue_full_if_awake[OF safe awake, of 0] calm empty bq.not_full_and_empty[of "p_queue ?p"] safe
    by (auto simp: pool_safe_def)
  then have "to_push (p_pc ?p 0) = []" using r(3)[of 0] by (cases "p_pc ?p 0") auto
  moreover have "p_pushed ?p = p_popped ?p" using safe empty by (simp add: pool_safe_def queue_empty_def queue_list_def)
  ultimately show ?thesis using ok unfolding server_ok_def by simp
qed

lemma work_run:
  assumes "(work_step n ^^ k) s s'" and "server_reachable n s"
  shows "server_reachable n s' \<and> work_left n s' + k \<le> work_left n s \<and> sv_accepted s' = sv_accepted s"
  using assms
proof (induction k arbitrary: s')
  case (Suc k)
  then obtain v where v: "(work_step n ^^ k) s v" "work_step n v s'" by auto
  note ih = Suc.IH[OF v(1) Suc.prems(2)]
  then have "server_reachable n s'" using server_more work_step_server[OF v(2)] by blast
  with ih work_step_decreases[OF v(2) server_ok_reachable] work_step_accepted[OF v(2)]
  show ?case by fastforce
qed simp

lemma rest_reached:
  assumes "server_reachable n s"
  shows "\<exists>k s'. (work_step n ^^ k) s s' \<and> (\<forall>s''. \<not> work_step n s' s'')"
  using assms
proof (induction "work_left n s" arbitrary: s rule: less_induct)
  case less
  show ?case
  proof (cases "\<exists>v. work_step n s v")
    case True
    then obtain v where v: "work_step n s v" by blast
    have "server_reachable n v" using server_more[OF less.prems work_step_server[OF v]] .
    from less.hyps[OF work_step_decreases[OF v server_ok_reachable[OF less.prems]] this]
    obtain k s' where "(work_step n ^^ k) v s'" "\<forall>s''. \<not> work_step n s' s''" by blast
    with relpowp_Suc_I2[of "work_step n", OF v] show ?thesis by blast
  next
    case False
    then show ?thesis by (intro exI[of _ 0] exI[of _ s]) simp
  qed
qed

text \<open>
  C3.  The server finishes its work as far as its clients let it.  From every state it can reach, whatever
  the scheduler, the clients and the kernel do, the threads make at most \<open>work_left\<close> further steps before a
  new connection, a failed \<open>accept\<close> or a spurious wake-up, and they do come to rest.  At rest, either the
  serving of a connection has ended the whole process (\<open>error(1, ...)\<close> or a fault), or every worker waits
  for ever for the client it serves, or every accepted connection has been served exactly once but those
  whose worker waits for its client.
\<close>

theorem pool_server_finishes:
  assumes "server_reachable n s"
  shows "(\<forall>k s'. (work_step n ^^ k) s s' \<longrightarrow> k \<le> work_left n s \<and>
      ((\<forall>s''. \<not> work_step n s' s'') \<longrightarrow>
         ended_by_serving s' \<or>
         (\<forall>t \<in> {1..n}. waits_for_client s' t) \<or>
         (mset (sv_accepted s) = mset (sv_served s') + (\<Sum>t\<in>{1..n}. in_hand s' t) \<and>
           (\<forall>t \<in> {1..n}. in_hand s' t \<noteq> {#} \<longrightarrow> waits_for_client s' t)))) \<and>
    (\<exists>k s'. (work_step n ^^ k) s s' \<and> (\<forall>s''. \<not> work_step n s' s''))"
proof (intro conjI allI impI)
  fix k s'
  assume run: "(work_step n ^^ k) s s'"
  note w = work_run[OF run assms]
  then show "k \<le> work_left n s" by simp
  assume rest: "\<forall>s''. \<not> work_step n s' s''"
  have ok: "server_ok n s'" using w server_ok_reachable by blast
  show "ended_by_serving s' \<or> (\<forall>t \<in> {1..n}. waits_for_client s' t) \<or>
    (mset (sv_accepted s) = mset (sv_served s') + (\<Sum>t\<in>{1..n}. in_hand s' t) \<and>
      (\<forall>t \<in> {1..n}. in_hand s' t \<noteq> {#} \<longrightarrow> waits_for_client s' t))"
  proof (cases "sv_end s' = None")
    case True
    note r = at_rest[OF ok True rest[rule_format]] and all = rest_all_served[OF ok True rest[rule_format]]
    have "taken (p_pc (sv_pool s') t) = []" for t using r(3)[of t] by (cases "p_pc (sv_pool s') t") auto
    then have "in_hand s' t \<noteq> {#} \<longrightarrow> waits_for_client s' t" for t
      using r(1)[of t] by (auto simp: in_hand_def split: option.splits)
    with r(1) all w show ?thesis by metis
  qed (use w server_end_reachable in blast)
qed (rule rest_reached[OF assms])

text \<open>
  From \<open>demo_server\<close>, in which the connection 7 waits for its only worker, the threads come to rest
  within 17 steps.
\<close>

theorem pool_server_finishes_witness:
  "\<exists>k s'. (work_step 1 ^^ k) demo_server s' \<and> k \<le> 17 \<and> (\<forall>s''. \<not> work_step 1 s' s'') \<and>
    (ended_by_serving s' \<or> waits_for_client s' 1 \<or> mset (sv_served s') = {#7#})"
proof -
  have left: "work_left 1 demo_server = 17" and acc: "sv_accepted demo_server = [7]"
    by (simp_all add: work_left_def work_of_def demo_server_def server_init_def pool_init_def
      blocking_queue_init_def)
  from pool_server_finishes[OF demo_server_reachable] left acc obtain k s' where
    s': "(work_step 1 ^^ k) demo_server s'" "\<forall>s''. \<not> work_step 1 s' s''" "k \<le> 17"
    "ended_by_serving s' \<or> waits_for_client s' 1 \<or>
      {#7#} = mset (sv_served s') + in_hand s' 1 \<and> (in_hand s' 1 \<noteq> {#} \<longrightarrow> waits_for_client s' 1)" by fastforce
  then have "ended_by_serving s' \<or> waits_for_client s' 1 \<or> mset (sv_served s') = {#7#}" by auto
  with s'(1-3) show ?thesis by blast
qed

end
