(* ===== verification/Select_Server.thy ===== *)
theory Select_Server
  imports Echo_Servers
begin

text \<open>
  The server of \<^verbatim>\<open>chap-22/nonblocking_io_select_server.c\<close>: non-blocking connections, each with a
  buffer of its own that is filled on a readable event and drained on a writable one.
\<close>

subsection \<open>Buffers\<close>

text \<open>
  \<open>b_buf\<close> holds the 4096 cells of \<open>buf\<close>.  The argument of \<open>alloc_buffer\<close> is what \<open>malloc\<close> brings:
  nothing, or a block whose cells it leaves as they are.
\<close>

record buffer =
  b_fd :: int
  b_buf :: "byte list"
  b_read_idx :: nat
  b_write_idx :: nat
  b_readable :: bool

definition empty_buffer :: "byte list \<Rightarrow> buffer" where
  "empty_buffer junk = \<lparr>b_fd = 0, b_buf = junk, b_read_idx = 0, b_write_idx = 0, b_readable = False\<rparr>"

definition alloc_buffer :: "byte list option \<Rightarrow> buffer option" where
  "alloc_buffer block = (case block of None \<Rightarrow> None | Some junk \<Rightarrow> Some (empty_buffer junk))"

definition FD_MAX_SIZE :: nat where "FD_MAX_SIZE = 128"

text \<open>The inner loop of \<open>on_socket_readable\<close> for one received block.\<close>

fun take_in :: "byte list \<Rightarrow> buffer \<Rightarrow> buffer" where
  "take_in [] b = b"
| "take_in (c # cs) b = (let
     b = (if b_write_idx b < MAX_LINE
          then b\<lparr>b_buf := (b_buf b)[b_write_idx b := rot13_char c], b_write_idx := b_write_idx b + 1\<rparr>
          else b);
     b = (if c = 10 then b\<lparr>b_readable := True\<rparr> else b)
     in take_in cs b)"

function on_socket_readable :: "int \<Rightarrow> buffer \<Rightarrow> world \<Rightarrow> (int \<times> buffer) outcome \<times> world" where
  "on_socket_readable fd b w = bnd (sys_read fd MAX_LINE) (\<lambda>x w. case x of (result, buf) \<Rightarrow>
     if result = 0 then ret (1, b) w
     else if result < 0 then bnd get_errno (\<lambda>e. ret (if e = EAGAIN then 0 else -1, b)) w
     else on_socket_readable fd (take_in buf b) w) w"
  by pat_completeness auto
termination
  by (relation "measure (\<lambda>(fd, b, w). rx_weight (rx w fd))") (auto dest!: rx_weight_sys_read)

declare on_socket_readable.simps [simp del]

function on_socket_writable :: "int \<Rightarrow> buffer \<Rightarrow> world \<Rightarrow> (int \<times> buffer) outcome \<times> world" where
  "on_socket_writable fd b w =
     (if b_read_idx b < b_write_idx b
      then bnd (sys_write fd (take (b_write_idx b - b_read_idx b) (drop (b_read_idx b) (b_buf b))))
        (\<lambda>result w.
          if result < 0 then bnd get_errno (\<lambda>e. ret (if e = EAGAIN then 0 else -1, b)) w
          else on_socket_writable fd (b\<lparr>b_read_idx := b_read_idx b + nat result\<rparr>) w) w
      else ret (0, (if b_read_idx b = b_write_idx b then b\<lparr>b_read_idx := 0, b_write_idx := 0\<rparr> else b)
              \<lparr>b_readable := False\<rparr>) w)"
  by pat_completeness auto
termination
  by (relation "measure (\<lambda>(fd, b, w). length (answers w))") (auto dest!: answers_sys_write)

declare on_socket_writable.simps [simp del]

subsection \<open>The server\<close>

definition create_nonblocking_tcp_server :: "int \<Rightarrow> int io" where
  "create_nonblocking_tcp_server port =
     bnd (sys (Socket ''AF_INET'' ''SOCK_STREAM'')) (\<lambda>fd. if fd < 0 then die 1
     else bnd (sys (Setsockopt fd ''SO_REUSEADDR'')) (\<lambda>_.
     bnd (sys (Fcntl fd ''O_NONBLOCK'')) (\<lambda>_.
     bnd (sys (Bind fd port)) (\<lambda>r. if r < 0 then die 1
     else bnd (sys (Listen fd 128)) (\<lambda>r. if r < 0 then die 1
     else ret fd)))))"

text \<open>The descriptors the loop asks \<open>select\<close> for: those to read, those to write, the maximum.\<close>

fun watched :: "int \<Rightarrow> buffer list \<Rightarrow> int list \<times> int list \<times> int" where
  "watched listen_fd [] = ([listen_fd], [], listen_fd)"
| "watched listen_fd (b # bs) = (case watched listen_fd bs of (rd, wr, m) \<Rightarrow>
     if b_fd b \<le> 0 then (rd, wr, m)
     else (b_fd b # rd, if b_readable b then b_fd b # wr else wr, max (b_fd b) m))"

text \<open>
  \<open>select\<close> leaves subsets of the two sets; an answer names, for each ready descriptor, bit 1 for
  reading and bit 2 for writing.
\<close>

definition select_sets ::
  "int list \<Rightarrow> int list \<Rightarrow> (int \<times> nat) list \<Rightarrow> int set \<times> int set" where
  "select_sets rd wr rs = ({fd \<in> set rd. odd (revents rs fd)}, {fd \<in> set wr. odd (revents rs fd div 2)})"

text \<open>A new connection: the array has the indices below \<open>FD_MAX_SIZE\<close>.\<close>

definition accept_step :: "int \<Rightarrow> buffer list \<Rightarrow> buffer list io" where
  "accept_step listen_fd bufs = bnd (print (bytes ''client connected \<newline>'')) (\<lambda>_.
     bnd (sys (Accept listen_fd)) (\<lambda>conn_fd.
     if conn_fd < 0 then die 1
     else if conn_fd > int FD_MAX_SIZE then
       bnd (print (bytes ''too many connections \<newline>'')) (\<lambda>_. bnd (sys (Close conn_fd)) (\<lambda>_. ret bufs))
     else bnd (sys (Fcntl conn_fd ''O_NONBLOCK'')) (\<lambda>_.
       if nat conn_fd \<ge> length bufs then fault OutOfBounds
       else if b_fd (bufs ! nat conn_fd) = 0
            then ret (bufs[nat conn_fd := (bufs ! nat conn_fd)\<lparr>b_fd := conn_fd\<rparr>])
            else bnd (print (bytes ''too many connections \<newline>'')) (\<lambda>_. ret bufs))))"

text \<open>The events of descriptor \<open>i\<close>.\<close>

definition serve_fd :: "int set \<times> int set \<Rightarrow> nat \<Rightarrow> buffer list \<Rightarrow> buffer list io" where
  "serve_fd ready i bufs =
     bnd (if int i \<in> fst ready
          then (if i \<ge> length bufs then fault OutOfBounds
                else bnd (on_socket_readable (int i) (bufs ! i)) (\<lambda>(err, b). ret (err, bufs[i := b])))
          else ret (0, bufs)) (\<lambda>(err, bufs).
     bnd (if err = 0 \<and> int i \<in> snd ready
          then (if i \<ge> length bufs then fault OutOfBounds
                else bnd (on_socket_writable (int i) (bufs ! i)) (\<lambda>(err, b). ret (err, bufs[i := b])))
          else ret (err, bufs)) (\<lambda>(err, bufs).
     if err \<noteq> 0
     then (if i \<ge> length bufs then fault OutOfBounds
           else bnd (sys (Close (int i))) (\<lambda>_. ret (bufs[i := (bufs ! i)\<lparr>b_fd := 0\<rparr>])))
     else ret bufs))"

fun serve_all :: "int \<Rightarrow> int set \<times> int set \<Rightarrow> nat list \<Rightarrow> buffer list \<Rightarrow> buffer list io" where
  "serve_all listen_fd ready [] bufs = ret bufs"
| "serve_all listen_fd ready (i # is) bufs =
     (if int i = listen_fd then serve_all listen_fd ready is bufs
      else bnd (serve_fd ready i bufs) (serve_all listen_fd ready is))"

definition select_turn :: "int \<Rightarrow> buffer list \<Rightarrow> buffer list io" where
  "select_turn listen_fd bufs = (case watched listen_fd bufs of (rd, wr, max_fd) \<Rightarrow>
     bnd sys_wait (\<lambda>(r, rs).
     if r < 0 then die 1
     else let ready = select_sets rd wr rs in
       bnd (if listen_fd \<in> fst ready then accept_step listen_fd bufs else ret bufs) (\<lambda>bufs.
       serve_all listen_fd ready [0..<nat (max_fd + 1)] bufs)))"

fun select_loop :: "nat \<Rightarrow> int \<Rightarrow> buffer list \<Rightarrow> buffer list io" where
  "select_loop 0 listen_fd bufs = ret bufs"
| "select_loop (Suc k) listen_fd bufs = bnd (select_turn listen_fd bufs) (select_loop k listen_fd)"

text \<open>
  The arguments are the number of turns of the loop and what \<open>malloc\<close> brings for each buffer.  Before its
  first \<open>select\<close> the endless loop reads \<open>fd\<close> of every buffer, so a \<open>NULL\<close> in the array faults there;
  otherwise the array holds the buffers themselves.
\<close>

definition alloc_buffers :: "(nat \<Rightarrow> byte list option) \<Rightarrow> buffer list option" where
  "alloc_buffers blocks = those (map (\<lambda>i. alloc_buffer (blocks i)) [0..<FD_MAX_SIZE])"

definition select_server_main :: "nat \<Rightarrow> (nat \<Rightarrow> byte list option) \<Rightarrow> buffer list io" where
  "select_server_main k blocks = bnd (create_nonblocking_tcp_server 8022) (\<lambda>listen_fd.
     case alloc_buffers blocks of None \<Rightarrow> fault NullDeref | Some bufs \<Rightarrow> select_loop k listen_fd bufs)"

subsection \<open>The buffer invariant\<close>

definition buffer_ok :: "buffer \<Rightarrow> bool" where
  "buffer_ok b \<longleftrightarrow> length (b_buf b) = MAX_LINE \<and> b_read_idx b \<le> b_write_idx b \<and> b_write_idx b \<le> MAX_LINE"

text \<open>What is waiting to be sent.\<close>

definition pending :: "buffer \<Rightarrow> byte list" where
  "pending b = take (b_write_idx b - b_read_idx b) (drop (b_read_idx b) (b_buf b))"

lemma pending_length: "buffer_ok b \<Longrightarrow> length (pending b) = b_write_idx b - b_read_idx b"
  by (auto simp: buffer_ok_def pending_def)

lemma take_in_spec:
  assumes "buffer_ok b"
  shows "buffer_ok (take_in cs b) \<and> b_fd (take_in cs b) = b_fd b \<and>
    b_read_idx (take_in cs b) = b_read_idx b \<and>
    pending (take_in cs b) = pending b @ map rot13_char (take (MAX_LINE - b_write_idx b) cs) \<and>
    b_write_idx (take_in cs b) = min MAX_LINE (b_write_idx b + length cs) \<and>
    (b_readable (take_in cs b) \<longleftrightarrow> b_readable b \<or> 10 \<in> set cs)"
  using assms
proof (induction cs arbitrary: b)
  case Nil
  then show ?case by (auto simp: buffer_ok_def)
next
  case (Cons c cs)
  let ?b1 = "if b_write_idx b < MAX_LINE
    then b\<lparr>b_buf := (b_buf b)[b_write_idx b := rot13_char c], b_write_idx := b_write_idx b + 1\<rparr> else b"
  let ?b2 = "if c = 10 then ?b1\<lparr>b_readable := True\<rparr> else ?b1"
  have ok: "buffer_ok ?b2" using Cons.prems by (auto simp: buffer_ok_def)
  have "pending ?b2 = pending b @ (if b_write_idx b < MAX_LINE then [rot13_char c] else [])"
  proof (cases "b_write_idx b < MAX_LINE")
    case True
    let ?r = "b_read_idx b" and ?w = "b_write_idx b"
    have le: "?r \<le> ?w" "?w < length (b_buf b)" using Cons.prems True by (auto simp: buffer_ok_def)
    then have "take (Suc ?w - ?r) (drop ?r ((b_buf b)[?w := rot13_char c])) =
        drop ?r (take (Suc ?w) ((b_buf b)[?w := rot13_char c]))" by (simp add: drop_take)
    also have "\<dots> = drop ?r (take ?w (b_buf b) @ [rot13_char c])"
      using le by (simp add: take_Suc_conv_app_nth)
    also have "\<dots> = take (?w - ?r) (drop ?r (b_buf b)) @ [rot13_char c]"
      using le by (simp add: drop_take)
    finally show ?thesis using True by (cases "c = 10") (simp_all add: pending_def)
  qed (simp add: pending_def)
  moreover have "take_in (c # cs) b = take_in cs ?b2" by (simp add: Let_def)
  moreover have "MAX_LINE - b_write_idx b = Suc (MAX_LINE - Suc (b_write_idx b))" if "b_write_idx b < MAX_LINE"
    using that by simp
  ultimately show ?case using Cons.IH[OF ok] Cons.prems
    by (auto simp: take_Cons' buffer_ok_def)
qed

text \<open>
  C21.  \<open>on_socket_readable\<close> takes everything that has arrived: it appends the ROT13 of the data to
  what is pending, as far as the buffer has room and in order, marks the buffer once a line is
  complete, and tells by its result whether the client is still there (0), has closed (1) or has
  failed (-1).
\<close>

theorem readable_appends_rot13:
  assumes "buffer_ok b" and "data_only xs" and "rx w fd = xs @ z # zs" and "z = RxEof \<or> (\<exists>e. z = RxErr e)"
  shows "\<exists>b' w'. on_socket_readable fd b w =
      (Ret (case z of RxEof \<Rightarrow> 1 | RxErr e \<Rightarrow> if e = EAGAIN then 0 else -1, b'), w') \<and> buffer_ok b' \<and>
    pending b' = pending b @ map rot13_char (take (MAX_LINE - b_write_idx b) (payload xs)) \<and>
    (b_readable b' \<longleftrightarrow> b_readable b \<or> 10 \<in> set (payload xs))"
  using assms(1-3)
proof (induction "rx_weight xs" arbitrary: xs w b rule: less_induct)
  case less
  have pos: "0 < MAX_LINE" by (simp add: MAX_LINE_def)
  from rx_read_data[OF less.prems(2) pos, of "z # zs"] show ?case
  proof (elim disjE exE conjE)
    assume "payload xs = []" "rx_read MAX_LINE (xs @ z # zs) = rx_read MAX_LINE (z # zs)"
    with assms(4) less.prems(1,3) show ?thesis
      by (subst on_socket_readable.simps) (auto simp: sys_read_def)
  next
    fix bs ys
    assume st: "rx_read MAX_LINE (xs @ z # zs) = Some (Inr bs, ys @ z # zs)" "bs \<noteq> []" "data_only ys"
      "payload xs = bs @ payload ys" "rx_weight ys < rx_weight xs"
    let ?w = "log_event (ERead fd bs) (w\<lparr>rx := (rx w)(fd := ys @ z # zs)\<rparr>)"
    have go: "on_socket_readable fd b w = on_socket_readable fd (take_in bs b) ?w"
      using st(1,2) less.prems(3) by (subst on_socket_readable.simps) (simp add: sys_read_def)
    note ti = take_in_spec[OF less.prems(1), of bs]
    have "rx ?w fd = ys @ z # zs" by simp
    from less.hyps[OF st(5) _ st(3) this, of "take_in bs b"] ti go st(4) show ?thesis
      by (auto simp: min_def)
  qed
qed

text \<open>
  C20.  \<open>on_socket_writable\<close> neither loses nor repeats a byte, whatever the kernel accepts: what it
  has sent followed by what is still pending is what was pending; when the result is 0 and the mark
  is gone, nothing is pending and the buffer is empty again.
\<close>

theorem writable_sends_pending:
  assumes "on_socket_writable fd b w = (Ret (r, b'), w')" and "buffer_ok b"
  shows "buffer_ok b' \<and>
    bytes_sent fd (trace w') @ pending b' = bytes_sent fd (trace w) @ pending b \<and>
    (\<not> b_readable b' \<longrightarrow> b_readable b \<longrightarrow> r = 0 \<and> b_read_idx b' = 0 \<and> b_write_idx b' = 0)"
  using assms
proof (induction fd b w rule: on_socket_writable.induct)
  case (1 fd b w)
  let ?out = "take (b_write_idx b - b_read_idx b) (drop (b_read_idx b) (b_buf b))"
  show ?case
  proof (cases "b_read_idx b < b_write_idx b")
    case False
    with "1.prems" show ?thesis
      by (subst (asm) on_socket_writable.simps) (auto simp: buffer_ok_def pending_def)
  next
    case more: True
    with "1.prems"(1) obtain k v where wr: "sys_write fd ?out w = (Ret k, v)"
      by (subst (asm) on_socket_writable.simps) (auto elim: bnd_RetE)
    show ?thesis
    proof (cases "k < 0")
      case True
      with sys_write_result[OF wr] have "bytes_sent fd (trace v) = bytes_sent fd (trace w)" by simp
      moreover have "on_socket_writable fd b w = (Ret (if errno v = EAGAIN then 0 else -1, b), v)"
        using more wr True by (subst on_socket_writable.simps) simp
      ultimately show ?thesis using "1.prems" by auto
    next
      case False
      let ?b = "b\<lparr>b_read_idx := b_read_idx b + nat k\<rparr>"
      have k: "0 \<le> k" "k \<le> int (length ?out)"
        "bytes_sent fd (trace v) = bytes_sent fd (trace w) @ take (nat k) ?out"
        using sys_write_result[OF wr] False by simp_all
      then have le: "nat k \<le> b_write_idx b - b_read_idx b" using "1.prems"(2) by (simp add: buffer_ok_def)
      have ok: "buffer_ok ?b" using le "1.prems"(2) more by (auto simp: buffer_ok_def)
      have "pending ?b = drop (nat k) ?out" by (simp add: pending_def drop_take add.commute)
      then have "pending b = take (nat k) ?out @ pending ?b"
        by (simp only: pending_def append_take_drop_id)
      moreover have "on_socket_writable fd ?b v = (Ret (r, b'), w')"
        using "1.prems"(1) more wr False by (subst (asm) on_socket_writable.simps) simp
      ultimately show ?thesis using "1.IH"[OF more wr False _ ok] k(3) by simp
    qed
  qed
qed

subsection \<open>Turns of the server\<close>

text \<open>
  A buffer outlives its connection: when a client closes while data of it is pending, the
  descriptor is closed but the buffer keeps indices, contents and mark, and the next client that is
  given the same descriptor number inherits them, to be sent to it.
\<close>

theorem next_client_inherits_pending:
  assumes "length bufs = FD_MAX_SIZE" and "i < FD_MAX_SIZE" and "int i \<in> fst ready"
    and "rx w (int i) = [RxEof]" and "answers w = [AOk 0, AOk (int i), AOk 0]"
  shows "\<exists>bufs1 w1 bufs2 w2. serve_fd ready i bufs w = (Ret bufs1, w1) \<and> b_fd (bufs1 ! i) = 0 \<and>
    ESys (Close (int i)) 0 \<in> set (trace w1) \<and>
    accept_step lfd bufs1 w1 = (Ret bufs2, w2) \<and> b_fd (bufs2 ! i) = int i \<and>
    pending (bufs2 ! i) = pending (bufs ! i) \<and> (b_readable (bufs2 ! i) \<longleftrightarrow> b_readable (bufs ! i))"
proof -
  let ?w1 = "log_event (ERead (int i) []) (w\<lparr>rx := (rx w)(int i := [RxEof])\<rparr>)"
  have rd: "on_socket_readable (int i) (bufs ! i) w = (Ret (1, bufs ! i), ?w1)"
    using assms(4) by (subst on_socket_readable.simps) (simp add: sys_read_def)
  let ?w2 = "log_event (ESys (Close (int i)) 0) (?w1\<lparr>answers := [AOk (int i), AOk 0]\<rparr>)"
  have cl: "sys (Close (int i)) ?w1 = (Ret 0, ?w2)" using assms(5) by (simp add: sys_def)
  let ?b1 = "bufs[i := (bufs ! i)\<lparr>b_fd := 0\<rparr>]"
  have 1: "serve_fd ready i bufs w = (Ret ?b1, ?w2)"
    using assms(1-3) by (simp add: serve_fd_def rd cl)
  have "\<exists>w2. accept_step lfd ?b1 ?w2 = (Ret (?b1[i := (?b1 ! i)\<lparr>b_fd := int i\<rparr>]), w2)"
    using assms(1,2) by (simp add: accept_step_def sys_def)
  with 1 assms(1,2) show ?thesis by (auto simp: pending_def)
qed

theorem next_client_inherits_pending_witness:
  "\<exists>bufs1 w1 bufs2 w2. serve_fd ({5}, {}) 5
      ((replicate 128 (empty_buffer []))[5 := \<lparr>b_fd = 5, b_buf = [85, 118, 10], b_read_idx = 0,
         b_write_idx = 3, b_readable = True\<rparr>])
      \<lparr>rx = (\<lambda>_. [RxEof]), answers = [AOk 0, AOk 5, AOk 0], errno = 0, trace = []\<rparr> = (Ret bufs1, w1) \<and>
    accept_step 3 bufs1 w1 = (Ret bufs2, w2) \<and> b_fd (bufs2 ! 5) = 5 \<and> pending (bufs2 ! 5) = [85, 118, 10]"
proof -
  define bufs where "bufs = (replicate 128 (empty_buffer []))[5 := \<lparr>b_fd = 5, b_buf = [85, 118, 10],
    b_read_idx = 0, b_write_idx = 3, b_readable = True\<rparr>]"
  have "length bufs = FD_MAX_SIZE" "bufs ! 5 = \<lparr>b_fd = 5, b_buf = [85, 118, 10],
    b_read_idx = 0, b_write_idx = 3, b_readable = True\<rparr>" by (simp_all add: bufs_def FD_MAX_SIZE_def)
  with next_client_inherits_pending[of bufs 5 "({5}, {})"
      "\<lparr>rx = (\<lambda>_. [RxEof]), answers = [AOk 0, AOk 5, AOk 0], errno = 0, trace = []\<rparr>" 3]
  show ?thesis by (simp add: FD_MAX_SIZE_def pending_def flip: bufs_def) blast
qed

text \<open>
  The connection limit is off by one: descriptors above 128 are turned away, those below are
  given their own free buffer, and descriptor 128 is looked up outside of the array.
\<close>

theorem accept_limit_off_by_one:
  assumes "length bufs = FD_MAX_SIZE" and "answers w = [AOk (int n), AOk 0]"
  shows "(n < FD_MAX_SIZE \<and> b_fd (bufs ! n) = 0 \<longrightarrow>
      (\<exists>w'. accept_step lfd bufs w = (Ret (bufs[n := (bufs ! n)\<lparr>b_fd := int n\<rparr>]), w'))) \<and>
    (n = FD_MAX_SIZE \<longrightarrow> fst (accept_step lfd bufs w) = Fault OutOfBounds) \<and>
    (FD_MAX_SIZE < n \<longrightarrow> (\<exists>w'. accept_step lfd bufs w = (Ret bufs, w') \<and>
       ESys (Close (int n)) 0 \<in> set (trace w')))"
  using assms by (auto simp: accept_step_def sys_def)

theorem accept_limit_off_by_one_witness:
  "fst (accept_step 3 (replicate 128 (empty_buffer []))
     \<lparr>rx = (\<lambda>_. []), answers = [AOk 128, AOk 0], errno = 0, trace = []\<rparr>) = Fault OutOfBounds"
proof -
  have "length (replicate 128 (empty_buffer [])) = FD_MAX_SIZE"
    unfolding FD_MAX_SIZE_def by (rule length_replicate)
  from accept_limit_off_by_one[OF this, of "\<lparr>rx = (\<lambda>_. []), answers = [AOk 128, AOk 0], errno = 0, trace = []\<rparr>"
    128 3] show ?thesis by (simp add: FD_MAX_SIZE_def del: replicate.simps)
qed

text \<open>One connection of a client that sends a line, for the witnesses of the two handlers.\<close>

definition demo_buffer :: buffer where
  "demo_buffer = (empty_buffer (replicate MAX_LINE 0))\<lparr>b_fd := 5\<rparr>"

lemma demo_buffer_ok: "buffer_ok demo_buffer" "pending demo_buffer = []" "b_write_idx demo_buffer = 0"
  "\<not> b_readable demo_buffer"
  by (simp_all add: demo_buffer_def empty_buffer_def buffer_ok_def pending_def)

theorem readable_appends_rot13_witness:
  "\<exists>b' w'. on_socket_readable 5 demo_buffer \<lparr>rx = (\<lambda>_. [RxData [72], RxData [105, 10], RxErr EAGAIN]),
      answers = [], errno = 0, trace = []\<rparr> = (Ret (0, b'), w') \<and>
    pending b' = [85, 118, 10] \<and> b_readable b'"
proof -
  let ?xs = "[RxData [72], RxData [105, 10]]"
  have d: "data_only ?xs" by (auto simp: data_only_def)
  have w: "rx \<lparr>rx = (\<lambda>_. [RxData [72], RxData [105, 10], RxErr EAGAIN]), answers = [], errno = 0, trace = []\<rparr> 5
      = ?xs @ RxErr EAGAIN # []" by simp
  from readable_appends_rot13[OF demo_buffer_ok(1) d w] show ?thesis
    by (auto simp: demo_buffer_ok MAX_LINE_def rot13_char_def)
qed

theorem writable_sends_pending_witness:
  "\<exists>b' w'. on_socket_writable 5 (take_in [72, 105, 10] demo_buffer)
      \<lparr>rx = (\<lambda>_. []), answers = [AOk 4], errno = 0, trace = []\<rparr> = (Ret (0, b'), w') \<and>
    bytes_sent 5 (trace w') @ pending b' = [85, 118, 10]"
proof -
  define A where "A = take_in [72, 105, 10] demo_buffer"
  note ti = take_in_spec[OF demo_buffer_ok(1), of "[72, 105, 10]", folded A_def]
  let ?w = "\<lparr>rx = (\<lambda>_. []), answers = [AOk 4], errno = 0, trace = []\<rparr>"
  have p: "pending A = [85, 118, 10]"
    using ti by (simp add: demo_buffer_ok MAX_LINE_def rot13_char_def)
  have ix: "b_read_idx A = 0" "b_write_idx A = 3"
    using ti by (simp_all add: demo_buffer_ok MAX_LINE_def) (simp add: demo_buffer_def empty_buffer_def)
  have t: "take 3 (b_buf A) = [85, 118, 10]"
    using p by (simp add: pending_def ix)
  have "\<exists>v. on_socket_writable 5 A ?w = on_socket_writable 5 (A\<lparr>b_read_idx := 3\<rparr>) v"
    by (subst on_socket_writable.simps) (auto simp: ix t sys_write_def Let_def)
  then obtain v where "on_socket_writable 5 A ?w = on_socket_writable 5 (A\<lparr>b_read_idx := 3\<rparr>) v" by blast
  moreover have "\<exists>b' w'. on_socket_writable 5 (A\<lparr>b_read_idx := 3\<rparr>) v = (Ret (0, b'), w')"
    by (subst on_socket_writable.simps) (simp add: ix)
  then obtain b' w' where "on_socket_writable 5 (A\<lparr>b_read_idx := 3\<rparr>) v = (Ret (0, b'), w')" by blast
  ultimately have r: "on_socket_writable 5 A ?w = (Ret (0, b'), w')" by simp
  from writable_sends_pending[OF r] ti p r show ?thesis by (auto simp: A_def)
qed

end
