(* ===== verification/Select_Safety.thy ===== *)
theory Select_Safety
  imports Select_Server
begin

text \<open>
  Memory safety of the server of \<^verbatim>\<open>chap-22/nonblocking_io_select_server.c\<close>: the invariant of its array
  of buffers, kept by every turn of the loop in every world, and the one way in which the server can
  leave the array.
\<close>

subsection \<open>How an action ends\<close>

text \<open>If it returns, its result has \<open>P\<close>; if it faults, the world it leaves has \<open>F\<close>.\<close>

definition ends :: "('a \<Rightarrow> bool) \<Rightarrow> (world \<Rightarrow> bool) \<Rightarrow> 'a outcome \<times> world \<Rightarrow> bool" where
  "ends P F r = (case fst r of Ret x \<Rightarrow> P x | Fault _ \<Rightarrow> F (snd r) | _ \<Rightarrow> True)"

lemma ends_simps [simp]:
  "ends P F (Ret x, w) = P x" "ends P F (Fault e, w) = F w" "ends P F (Exit c, w)" "ends P F (Blocked, w)"
  by (simp_all add: ends_def)

lemma ends_bnd:
  assumes "ends P F (m w)" and "\<And>x v. m w = (Ret x, v) \<Longrightarrow> P x \<Longrightarrow> ends Q F (f x v)"
  shows "ends Q F (bnd m f w)"
proof -
  obtain r v where m: "m w = (r, v)" by (cases "m w")
  show ?thesis using assms m by (cases r) simp_all
qed

lemma ends_sys [simp]: "ends (\<lambda>_. True) F (sys c w)" "ends (\<lambda>_. True) F (sys_write fd bs w)"
  "ends (\<lambda>_. True) F (sys_read fd n w)" "ends (\<lambda>_. True) F (sys_wait w)"
  by (auto simp: ends_def sys_def sys_write_def sys_read_def sys_wait_def Let_def
      split: list.split answer.split option.split sum.split)

subsection \<open>The handlers\<close>

lemma take_in_fd [simp]: "buffer_ok b \<Longrightarrow> b_fd (take_in cs b) = b_fd b"
  and take_in_ok [simp]: "buffer_ok b \<Longrightarrow> buffer_ok (take_in cs b)"
  using take_in_spec by blast+

lemma readable_ends:
  "buffer_ok b \<Longrightarrow> ends (\<lambda>(r, b'). buffer_ok b' \<and> b_fd b' = b_fd b) F (on_socket_readable fd b w)"
proof (induction fd b w rule: on_socket_readable.induct)
  case (1 fd b w)
  show ?case
  proof (subst on_socket_readable.simps, rule ends_bnd[OF ends_sys(3)], clarify)
    fix r bs v
    assume rd: "sys_read fd MAX_LINE w = (Ret (r, bs), v)"
    consider "r = 0" | "r < 0" | "0 < r" by linarith
    then show "ends (\<lambda>(r, b'). buffer_ok b' \<and> b_fd b' = b_fd b) F
      ((if r = 0 then ret (1, b) v
        else if r < 0 then bnd get_errno (\<lambda>e. ret (if e = EAGAIN then 0 else -1, b)) v
        else on_socket_readable fd (take_in bs b) v))"
    proof cases
      case 3
      then have "\<not> r < 0" "r \<noteq> 0" by simp_all
      from "1.IH"[OF rd refl this(2,1)] "1.prems" 3 show ?thesis by simp
    qed (use "1.prems" in simp_all)
  qed
qed

lemma writable_ends:
  "buffer_ok b \<Longrightarrow> ends (\<lambda>(r, b'). buffer_ok b' \<and> b_fd b' = b_fd b) F (on_socket_writable fd b w)"
proof (induction fd b w rule: on_socket_writable.induct)
  case (1 fd b w)
  let ?out = "take (b_write_idx b - b_read_idx b) (drop (b_read_idx b) (b_buf b))"
  show ?case
  proof (cases "b_read_idx b < b_write_idx b")
    case False
    with "1.prems" show ?thesis by (subst on_socket_writable.simps) (auto simp: buffer_ok_def)
  next
    case more: True
    have "ends (\<lambda>(r, b'). buffer_ok b' \<and> b_fd b' = b_fd b) F (bnd (sys_write fd ?out) (\<lambda>r w.
        if r < 0 then bnd get_errno (\<lambda>e. ret (if e = EAGAIN then 0 else -1, b)) w
        else on_socket_writable fd (b\<lparr>b_read_idx := b_read_idx b + nat r\<rparr>) w) w)"
    proof (rule ends_bnd[OF ends_sys(2)])
      fix k v
      assume wr: "sys_write fd ?out w = (Ret k, v)"
      have k: "k \<le> int (length ?out)" using sys_write_result[OF wr] by simp
      show "ends (\<lambda>(r, b'). buffer_ok b' \<and> b_fd b' = b_fd b) F
        (if k < 0 then bnd get_errno (\<lambda>e. ret (if e = EAGAIN then 0 else -1, b)) v
         else on_socket_writable fd (b\<lparr>b_read_idx := b_read_idx b + nat k\<rparr>) v)"
      proof (cases "k < 0")
        case False
        have "buffer_ok (b\<lparr>b_read_idx := b_read_idx b + nat k\<rparr>)"
          using k "1.prems" more by (auto simp: buffer_ok_def)
        from "1.IH"[OF more wr False this] False show ?thesis by simp
      qed (use "1.prems" in simp)
    qed
    with more show ?thesis by (subst on_socket_writable.simps) simp
  qed
qed

subsection \<open>The array of buffers\<close>

text \<open>The buffer at index \<open>i\<close> is free or serves descriptor \<open>i\<close>.\<close>

definition slots_ok :: "buffer list \<Rightarrow> bool" where
  "slots_ok bufs \<longleftrightarrow> length bufs = FD_MAX_SIZE \<and>
     (\<forall>i < FD_MAX_SIZE. buffer_ok (bufs ! i) \<and> b_fd (bufs ! i) \<in> {0, int i})"

lemma slots_ok_update:
  "slots_ok bufs \<Longrightarrow> buffer_ok b \<Longrightarrow> b_fd b \<in> {0, int i} \<Longrightarrow> slots_ok (bufs[i := b])"
  by (cases "i < length bufs") (auto simp: slots_ok_def nth_list_update)

lemma watched_fds:
  "watched lfd bufs = (rd, wr, m) \<Longrightarrow> set rd \<subseteq> insert lfd {fd. 0 < fd \<and> (\<exists>b \<in> set bufs. b_fd b = fd)} \<and>
     set wr \<subseteq> {fd. 0 < fd \<and> (\<exists>b \<in> set bufs. b_fd b = fd)}"
proof (induction bufs arbitrary: rd wr m)
  case (Cons b bufs)
  obtain rd' wr' m' where w: "watched lfd bufs = (rd', wr', m')" by (cases "watched lfd bufs")
  with Cons.IH[OF w] Cons.prems show ?case by (auto split: if_splits)
qed auto

definition ready_ok :: "int \<Rightarrow> int set \<times> int set \<Rightarrow> bool" where
  "ready_ok lfd ready \<longleftrightarrow> (\<forall>i. int i \<in> fst ready \<union> snd ready \<longrightarrow> int i = lfd \<or> i < FD_MAX_SIZE)"

lemma select_sets_ok:
  assumes "slots_ok bufs" and "watched lfd bufs = (rd, wr, m)"
  shows "ready_ok lfd (select_sets rd wr rs)"
proof -
  have "i < FD_MAX_SIZE" if "b \<in> set bufs" "b_fd b = int i" "0 < int i" for b i
  proof -
    from that(1) assms(1) obtain j where "j < FD_MAX_SIZE" "b = bufs ! j"
      by (auto simp: in_set_conv_nth slots_ok_def)
    with assms(1) that show ?thesis by (auto simp: slots_ok_def)
  qed
  then have "int i = lfd \<or> i < FD_MAX_SIZE" if "int i \<in> set rd \<union> set wr" for i
    using watched_fds[OF assms(2)] that by blast
  then show ?thesis by (auto simp: ready_ok_def select_sets_def)
qed

text \<open>The fault the server can commit: a connection with a descriptor just outside of the array.\<close>

definition fd_128_accepted :: "int \<Rightarrow> world \<Rightarrow> bool" where
  "fd_128_accepted lfd w \<longleftrightarrow> ESys (Accept lfd) (int FD_MAX_SIZE) \<in> set (trace w)"

lemma accept_ends:
  assumes "slots_ok bufs"
  shows "ends slots_ok (fd_128_accepted lfd) (accept_step lfd bufs w)"
proof -
  have acc: "trace v = trace u @ [ESys (Accept lfd) c]" if "sys (Accept lfd) u = (Ret c, v)" for u c v
    using that by (auto simp: sys_def Let_def split: list.splits answer.splits)
  have tr: "set (trace u) \<subseteq> set (trace v)" if "sys c u = (r, v)" for u c r v
    using that by (auto simp: sys_def Let_def split: list.splits answer.splits)
  show ?thesis
    unfolding accept_step_def
  proof (rule ends_bnd[where P = "\<lambda>_. True"], simp, rule ends_bnd[OF ends_sys(1)])
    fix u1 :: unit and v c u
    assume a: "sys (Accept lfd) v = (Ret c, u)"
    let ?rest = "if c < 0 then die 1
      else if c > int FD_MAX_SIZE then
        bnd (print (bytes ''too many connections \<newline>'')) (\<lambda>_. bnd (sys (Close c)) (\<lambda>_. ret bufs))
      else bnd (sys (Fcntl c ''O_NONBLOCK'')) (\<lambda>_.
        if nat c \<ge> length bufs then fault OutOfBounds
        else if b_fd (bufs ! nat c) = 0
             then ret (bufs[nat c := (bufs ! nat c)\<lparr>b_fd := c\<rparr>])
             else bnd (print (bytes ''too many connections \<newline>'')) (\<lambda>_. ret bufs))"
    show "ends slots_ok (fd_128_accepted lfd) (?rest u)"
    proof (cases "c < 0 \<or> c > int FD_MAX_SIZE")
      case True
      have "ends slots_ok (fd_128_accepted lfd) (bnd (sys (Close c)) (\<lambda>_. ret bufs) x)" for x
        by (rule ends_bnd[OF ends_sys(1)]) (simp add: assms)
      with True show ?thesis by auto
    next
      case False
      have "ends slots_ok (fd_128_accepted lfd) (bnd (sys (Fcntl c ''O_NONBLOCK'')) (\<lambda>_.
        if nat c \<ge> length bufs then fault OutOfBounds
        else if b_fd (bufs ! nat c) = 0
             then ret (bufs[nat c := (bufs ! nat c)\<lparr>b_fd := c\<rparr>])
             else bnd (print (bytes ''too many connections \<newline>'')) (\<lambda>_. ret bufs)) u)"
      proof (rule ends_bnd[OF ends_sys(1)])
        fix f x
        assume f: "sys (Fcntl c ''O_NONBLOCK'') u = (Ret f, x)"
        have len: "length bufs = FD_MAX_SIZE" using assms by (simp add: slots_ok_def)
        show "ends slots_ok (fd_128_accepted lfd) ((if nat c \<ge> length bufs then fault OutOfBounds
          else if b_fd (bufs ! nat c) = 0
               then ret (bufs[nat c := (bufs ! nat c)\<lparr>b_fd := c\<rparr>])
               else bnd (print (bytes ''too many connections \<newline>'')) (\<lambda>_. ret bufs)) x)"
        proof (cases "nat c \<ge> length bufs")
          case True
          then have "c = int FD_MAX_SIZE" using False len by linarith
          then have "fd_128_accepted lfd x" using acc[OF a] tr[OF f] by (auto simp: fd_128_accepted_def)
          with True show ?thesis by simp
        next
          case inside: False
          then have "buffer_ok (bufs ! nat c)" using assms len by (simp add: slots_ok_def)
          then have "buffer_ok ((bufs ! nat c)\<lparr>b_fd := c\<rparr>)" by (simp add: buffer_ok_def)
          from slots_ok_update[OF assms this, of "nat c"] False inside assms show ?thesis by simp
        qed
      qed
      with False show ?thesis by simp
    qed
  qed
qed

text \<open>The two handlers on the buffer at an index.\<close>

lemma handler_ends:
  assumes "slots_ok bufs" and "i < FD_MAX_SIZE"
    and "\<And>v. ends (\<lambda>(r, b'). buffer_ok b' \<and> b_fd b' = b_fd (bufs ! i)) F (m v)"
  shows "ends (\<lambda>(r, bufs'). slots_ok bufs') F (bnd m (\<lambda>(err, b). ret (err, bufs[i := b])) w)"
proof (rule ends_bnd[OF assms(3)], clarify)
  fix r b v
  assume "buffer_ok b" "b_fd b = b_fd (bufs ! i)"
  with slots_ok_update[OF assms(1), of b i] assms(1,2)
  show "ends (\<lambda>(r, bufs'). slots_ok bufs') F (ret (r, bufs[i := b]) v)" by (auto simp: slots_ok_def)
qed

lemma serve_fd_ends:
  assumes "slots_ok bufs" and "int i \<in> fst ready \<union> snd ready \<longrightarrow> i < FD_MAX_SIZE"
  shows "ends slots_ok F (serve_fd ready i bufs w)"
proof (cases "int i \<in> fst ready \<union> snd ready")
  case False
  then show ?thesis using assms(1) by (simp add: serve_fd_def)
next
  case True
  with assms(2) have i: "i < FD_MAX_SIZE" by blast
  have buf: "buffer_ok (bufs' ! i)" "length bufs' = FD_MAX_SIZE" if "slots_ok bufs'" for bufs'
    using that i by (auto simp: slots_ok_def)
  let ?P = "\<lambda>(err :: int, bufs'). slots_ok bufs'"
  have rd: "ends ?P F ((if int i \<in> fst ready
      then (if i \<ge> length bufs then fault OutOfBounds
            else bnd (on_socket_readable (int i) (bufs ! i)) (\<lambda>(err, b). ret (err, bufs[i := b])))
      else ret (0, bufs)) w)"
    using handler_ends[OF assms(1) i, of F "on_socket_readable (int i) (bufs ! i)", OF readable_ends[OF buf(1)[OF assms(1)]]] buf(2)[OF assms(1)] i assms(1) by simp
  show ?thesis unfolding serve_fd_def
  proof (rule ends_bnd[where P = ?P], rule rd, clarify)
    fix err bufs' v assume ok: "slots_ok bufs'"
    have wr: "ends ?P F ((if err = 0 \<and> int i \<in> snd ready
        then (if i \<ge> length bufs' then fault OutOfBounds
              else bnd (on_socket_writable (int i) (bufs' ! i)) (\<lambda>(err, b). ret (err, bufs'[i := b])))
        else ret (err, bufs')) v)"
      using handler_ends[OF ok i, of F "on_socket_writable (int i) (bufs' ! i)", OF writable_ends[OF buf(1)[OF ok]]] buf(2)[OF ok] i ok by simp
    show "ends slots_ok F (bnd (if err = 0 \<and> int i \<in> snd ready
        then (if i \<ge> length bufs' then fault OutOfBounds
              else bnd (on_socket_writable (int i) (bufs' ! i)) (\<lambda>(err, b). ret (err, bufs'[i := b])))
        else ret (err, bufs')) (\<lambda>(err, bufs). if err \<noteq> 0
          then (if i \<ge> length bufs then fault OutOfBounds
                else bnd (sys (Close (int i))) (\<lambda>_. ret (bufs[i := (bufs ! i)\<lparr>b_fd := 0\<rparr>])))
          else ret bufs) v)"
    proof (rule ends_bnd[where P = ?P], rule wr, clarify)
      fix err2 bufs2 u assume ok2: "slots_ok bufs2"
      have "buffer_ok ((bufs2 ! i)\<lparr>b_fd := 0\<rparr>)" using buf(1)[OF ok2] by (simp add: buffer_ok_def)
      then have "slots_ok (bufs2[i := (bufs2 ! i)\<lparr>b_fd := 0\<rparr>])" using ok2 by (intro slots_ok_update) simp_all
      then have "ends slots_ok F (bnd (sys (Close (int i))) (\<lambda>_. ret (bufs2[i := (bufs2 ! i)\<lparr>b_fd := 0\<rparr>])) u)"
        by (intro ends_bnd[OF ends_sys(1)]) simp
      then show "ends slots_ok F ((if err2 \<noteq> 0
          then (if i \<ge> length bufs2 then fault OutOfBounds
                else bnd (sys (Close (int i))) (\<lambda>_. ret (bufs2[i := (bufs2 ! i)\<lparr>b_fd := 0\<rparr>])))
          else ret bufs2) u)" using ok2 buf(2)[OF ok2] i by simp
    qed
  qed
qed

lemma serve_all_ends:
  assumes "slots_ok bufs" and "ready_ok lfd ready"
  shows "ends slots_ok F (serve_all lfd ready is bufs w)"
  using assms(1)
proof (induction "is" arbitrary: bufs w)
  case (Cons i "is")
  show ?case
  proof (cases "int i = lfd")
    case False
    then have "int i \<in> fst ready \<union> snd ready \<longrightarrow> i < FD_MAX_SIZE" using assms(2) by (auto simp: ready_ok_def)
    from serve_fd_ends[OF Cons.prems this] have "ends slots_ok F (bnd (serve_fd ready i bufs) (serve_all lfd ready is) w)"
      by (rule ends_bnd) (rule Cons.IH)
    with False show ?thesis by simp
  qed (use Cons in simp)
qed simp

lemma select_turn_ends:
  assumes "slots_ok bufs"
  shows "ends slots_ok (fd_128_accepted lfd) (select_turn lfd bufs w)"
proof -
  obtain rd wr m where wt: "watched lfd bufs = (rd, wr, m)" by (cases "watched lfd bufs")
  show ?thesis unfolding select_turn_def wt prod.case
  proof (rule ends_bnd[OF ends_sys(4)], clarify)
    fix r rs v
    let ?ready = "select_sets rd wr rs"
    have "ends slots_ok (fd_128_accepted lfd) (bnd (if lfd \<in> fst ?ready then accept_step lfd bufs else ret bufs)
        (serve_all lfd ?ready [0..<nat (m + 1)]) v)"
    proof (rule ends_bnd)
      show "ends slots_ok (fd_128_accepted lfd) ((if lfd \<in> fst ?ready then accept_step lfd bufs else ret bufs) v)"
        using accept_ends[OF assms] assms by simp
    qed (rule serve_all_ends[OF _ select_sets_ok[OF assms wt]])
    then show "ends slots_ok (fd_128_accepted lfd) ((if r < 0 then die 1
        else let ready = ?ready in
          bnd (if lfd \<in> fst ready then accept_step lfd bufs else ret bufs)
            (\<lambda>bufs. serve_all lfd ready [0..<nat (m + 1)] bufs)) v)"
      by (simp add: Let_def)
  qed
qed

lemma select_loop_ends:
  "slots_ok bufs \<Longrightarrow> ends slots_ok (fd_128_accepted lfd) (select_loop k lfd bufs w)"
proof (induction k arbitrary: bufs w)
  case (Suc k)
  have "ends slots_ok (fd_128_accepted lfd) (bnd (select_turn lfd bufs) (select_loop k lfd) w)"
    by (rule ends_bnd[OF select_turn_ends[OF Suc.prems]]) (rule Suc.IH)
  then show ?case by simp
qed simp

subsection \<open>The whole server\<close>

lemma those_Some: "those xs = Some ys \<longleftrightarrow> xs = map Some ys"
  by (induction xs arbitrary: ys) (auto split: option.splits)

lemma those_None: "those xs = None \<longleftrightarrow> None \<in> set xs"
  by (induction xs) (auto split: option.splits)

lemma alloc_buffers_None: "alloc_buffers blocks = None \<longleftrightarrow> (\<exists>i < FD_MAX_SIZE. blocks i = None)"
  by (force simp: alloc_buffers_def those_None alloc_buffer_def split: option.splits)

lemma alloc_buffers_Some:
  assumes "alloc_buffers blocks = Some bufs" and "i < FD_MAX_SIZE"
  shows "\<exists>junk. blocks i = Some junk \<and> bufs ! i = empty_buffer junk"
proof -
  have "map Some bufs = map (\<lambda>i. alloc_buffer (blocks i)) [0..<FD_MAX_SIZE]"
    using assms(1) by (simp add: alloc_buffers_def those_Some)
  from arg_cong[OF this, of "\<lambda>xs. xs ! i"] arg_cong[OF this, of length] assms(2)
  have "Some (bufs ! i) = alloc_buffer (blocks i)" by simp
  then show ?thesis by (auto simp: alloc_buffer_def split: option.splits)
qed

lemma alloc_buffers_length: "alloc_buffers blocks = Some bufs \<Longrightarrow> length bufs = FD_MAX_SIZE"
  unfolding alloc_buffers_def those_Some using length_map[of Some bufs] by (metis length_map length_upt diff_zero)

lemma alloc_buffers_const: "alloc_buffers (\<lambda>_. Some junk) = Some (replicate FD_MAX_SIZE (empty_buffer junk))"
  by (simp add: alloc_buffers_def those_Some alloc_buffer_def map_replicate_trivial)

lemma slots_ok_alloc:
  assumes "alloc_buffers blocks = Some bufs" and "\<And>i junk. blocks i = Some junk \<Longrightarrow> length junk = MAX_LINE"
  shows "slots_ok bufs"
  unfolding slots_ok_def
  using alloc_buffers_Some[OF assms(1)] alloc_buffers_length[OF assms(1)] assms(2)
  by (fastforce simp: buffer_ok_def empty_buffer_def)

lemma ends_listen: "ends (\<lambda>_. True) F (create_nonblocking_tcp_server port w)"
  unfolding create_nonblocking_tcp_server_def by (auto intro!: ends_bnd[OF ends_sys(1)])

lemma ends_weaken: "ends P F r \<Longrightarrow> (\<And>w. F w \<Longrightarrow> G w) \<Longrightarrow> ends P G r"
  by (auto simp: ends_def split: outcome.splits)

text \<open>
  C10.  In every world and for any number of turns the server keeps its array in order: each buffer's
  indices are ordered and within the buffer, and a buffer serves no descriptor but its own index.  There
  are only two ways in which it can leave the array or a buffer, or follow a null pointer: a \<open>malloc\<close> of
  \<open>alloc_buffer\<close> has failed, and then it never completes a turn; or it has accepted a connection whose
  descriptor is 128.
\<close>

theorem select_server_safe:
  assumes "\<forall>i junk. blocks i = Some junk \<longrightarrow> length junk = MAX_LINE"
    and "trace w = []" and "select_server_main k blocks w = (r, w')"
  shows "(\<forall>bufs. r = Ret bufs \<longrightarrow> slots_ok bufs \<and> (\<forall>i < FD_MAX_SIZE. blocks i \<noteq> None)) \<and>
    ((\<exists>e. r = Fault e) \<longrightarrow> (\<exists>i < FD_MAX_SIZE. blocks i = None) \<or>
      (\<exists>lfd. ESys (Accept lfd) (int FD_MAX_SIZE) \<in> set (trace w')))"
proof -
  let ?bad = "\<exists>i < FD_MAX_SIZE. blocks i = None"
  let ?F = "\<lambda>w. ?bad \<or> (\<exists>lfd. fd_128_accepted lfd w)"
  have "ends (\<lambda>bufs. slots_ok bufs \<and> \<not> ?bad) ?F (select_server_main k blocks w)"
    unfolding select_server_main_def
  proof (rule ends_bnd[OF ends_listen])
    fix lfd v
    show "ends (\<lambda>bufs. slots_ok bufs \<and> \<not> ?bad) ?F
      ((case alloc_buffers blocks of None \<Rightarrow> fault NullDeref | Some bufs \<Rightarrow> select_loop k lfd bufs) v)"
    proof (cases "alloc_buffers blocks")
      case None
      then have "?bad" using alloc_buffers_None by blast
      then show ?thesis using None by simp
    next
      case (Some bufs)
      then have "\<not> ?bad" using alloc_buffers_None by (metis option.distinct(1))
      moreover have "slots_ok bufs" using slots_ok_alloc[OF Some] assms(1) by blast
      ultimately show ?thesis
        using Some ends_weaken[OF select_loop_ends[of bufs lfd k v], of ?F] by auto
    qed
  qed
  then show ?thesis using assms(3) by (auto simp: fd_128_accepted_def)
qed

theorem select_server_safe_witness:
  "\<exists>bufs w'. select_server_main 1 (\<lambda>_. Some (replicate MAX_LINE 0))
      \<lparr>rx = (\<lambda>_. []), answers = [AOk 3, AOk 0, AOk 0, AOk 0, AOk 0, AOk 0], errno = 0, trace = []\<rparr> = (Ret bufs, w') \<and>
    slots_ok bufs"
proof -
  define bufs where "bufs = replicate FD_MAX_SIZE (empty_buffer (replicate MAX_LINE 0))"
  let ?w = "\<lparr>rx = (\<lambda>_. []), answers = [AOk 3, AOk 0, AOk 0, AOk 0, AOk 0, AOk 0], errno = 0, trace = []\<rparr>"
  have "watched 3 (replicate n (empty_buffer j)) = ([3], [], 3)" for n j
    by (induction n) (simp_all add: empty_buffer_def)
  then have wt: "watched 3 bufs = ([3], [], 3)" by (simp add: bufs_def)
  have idle: "serve_all 3 (select_sets [3] [] []) is bufs v = (Ret bufs, v)" for "is" v
    by (induction "is") (auto simp: serve_fd_def select_sets_def revents_def)
  obtain v where v: "create_nonblocking_tcp_server 8022 ?w = (Ret 3, v)" "answers v = [AOk 0]"
    by (simp add: create_nonblocking_tcp_server_def sys_def)
  have "select_loop 1 3 bufs v = (Ret bufs, v\<lparr>answers := []\<rparr>)"
    using v(2) wt idle by (simp add: select_turn_def sys_wait_def select_sets_def revents_def)
  then have run: "select_server_main 1 (\<lambda>_. Some (replicate MAX_LINE 0)) ?w = (Ret bufs, v\<lparr>answers := []\<rparr>)"
    using v(1) by (simp add: select_server_main_def alloc_buffers_const bufs_def)
  from select_server_safe[OF _ _ run] run show ?thesis by auto
qed

end
