(* ===== verification/Event_Loop.thy ===== *)
theory Event_Loop
  imports Common_IO
begin

text \<open>
  The event loop of \<^verbatim>\<open>lib/\<close>: channels (\<^verbatim>\<open>channel.c\<close>), the table that maps descriptors to
  channels (\<^verbatim>\<open>channel_map.c\<close>), the loop itself (\<^verbatim>\<open>event_loop.c\<close>) and the listening socket
  (\<^verbatim>\<open>acceptor.c\<close>).  Callbacks are code of the library's clients: a call of one is an event of the
  trace that names the callback and its argument.
\<close>

subsection \<open>Channels\<close>

definition EVENT_READ :: u32 where "EVENT_READ = 1"
definition EVENT_WRITE :: u32 where "EVENT_WRITE = 2"

record channel =
  ch_fd :: int
  ch_events :: u32
  ch_data :: ptr
  ch_read :: nat
  ch_write :: nat

text \<open>The channels that are allocated.  \<open>channel_create\<close> does not test the result of \<open>malloc\<close>.\<close>

type_synonym chan_heap = "addr \<Rightarrow> channel option"

definition channel_create ::
  "ptr \<Rightarrow> int \<Rightarrow> u32 \<Rightarrow> ptr \<Rightarrow> nat \<Rightarrow> nat \<Rightarrow> chan_heap \<Rightarrow> (ptr \<times> chan_heap) outcome" where
  "channel_create mem fd ev data rd wr h = (case mem of
     None \<Rightarrow> Fault NullDeref
   | Some a \<Rightarrow> Ret (Some a, h(a \<mapsto> \<lparr>ch_fd = fd, ch_events = ev, ch_data = data,
       ch_read = rd, ch_write = wr\<rparr>)))"

definition channel_write_event_is_enabled :: "channel \<Rightarrow> u32" where
  "channel_write_event_is_enabled c = ch_events c AND EVENT_WRITE"

subsection \<open>The map from descriptors to channels\<close>

text \<open>
  A cell of the array holds a pointer, or whatever the memory held before.  The array has
  \<open>available_num\<close> cells; \<open>entries\<close> may be null.
\<close>

datatype cell = Junk | Cell ptr

record channel_map =
  entries :: "cell list option"
  available_num :: int

definition CHANNEL_MAP_DEFAULT_ENTRIES_SIZE :: int where
  "CHANNEL_MAP_DEFAULT_ENTRIES_SIZE = 32"

text \<open>\<open>None\<close> is a shift that overflows an \<open>int\<close>.\<close>

partial_function (option) grow_loop :: "int \<Rightarrow> int \<Rightarrow> int option" where
  "grow_loop n slot =
     (if n \<le> slot then (if 2 * n \<le> INT_MAX then grow_loop (2 * n) slot else None) else Some n)"

definition the_cells :: "channel_map \<Rightarrow> cell list" where
  "the_cells m = (case entries m of None \<Rightarrow> [] | Some es \<Rightarrow> es)"

text \<open>\<open>realloc\<close> to \<open>k\<close> bytes keeps what fits; a pointer takes eight bytes.\<close>

definition realloc_cells :: "nat \<Rightarrow> cell list \<Rightarrow> cell list" where
  "realloc_cells k es = take (k div 8) es @ replicate (k div 8 - length es) Junk"

definition memset_cells :: "nat \<Rightarrow> nat \<Rightarrow> cell list \<Rightarrow> cell list" where
  "memset_cells i k es = take i es @ replicate (k div 8) (Cell NULL) @ drop (i + k div 8) es"

text \<open>The first argument says whether \<open>realloc\<close> succeeds.\<close>

definition map_make_space ::
  "bool \<Rightarrow> channel_map \<Rightarrow> int \<Rightarrow> int \<Rightarrow> (int \<times> channel_map) outcome" where
  "map_make_space mem m slot entry_size =
     (if available_num m > slot then Ret (0, m)
      else case grow_loop (if available_num m \<noteq> 0 then available_num m
                           else CHANNEL_MAP_DEFAULT_ENTRIES_SIZE) slot of
        None \<Rightarrow> Fault IntOverflow
      | Some n \<Rightarrow>
          if n * entry_size > INT_MAX then Fault IntOverflow
          else if \<not> mem then Ret (-1, m)
          else let es = realloc_cells (nat (n * entry_size)) (the_cells m);
                   old = available_num m; k = (n - old) * entry_size
            in if 8 * old + k > n * entry_size then Fault OutOfBounds
               else Ret (0, \<lparr>entries = Some (memset_cells (nat old) (nat k) es), available_num = n\<rparr>))"

definition map_init :: channel_map where
  "map_init = \<lparr>entries = None, available_num = 0\<rparr>"

text \<open>\<open>map_clear\<close> frees every channel of the table: a fault if a cell was never written or the
  channel is not allocated.\<close>

fun free_cells :: "cell list \<Rightarrow> chan_heap \<Rightarrow> chan_heap outcome" where
  "free_cells [] h = Ret h"
| "free_cells (Junk # es) h = Fault Uninitialised"
| "free_cells (Cell None # es) h = free_cells es h"
| "free_cells (Cell (Some a) # es) h = (case h a of
     None \<Rightarrow> Fault OutOfBounds
   | Some _ \<Rightarrow> free_cells es (h(a := None)))"

definition map_clear :: "channel_map \<Rightarrow> chan_heap \<Rightarrow> (channel_map \<times> chan_heap) outcome" where
  "map_clear m h = (case entries m of
     None \<Rightarrow> Ret (m\<lparr>available_num := 0\<rparr>, h)
   | Some es \<Rightarrow> (case free_cells (take (nat (available_num m)) es) h of
       Ret h \<Rightarrow> Ret (\<lparr>entries = None, available_num = 0\<rparr>, h)
     | Fault e \<Rightarrow> Fault e | Exit c \<Rightarrow> Exit c | Blocked \<Rightarrow> Blocked))"

definition map_ok :: "channel_map \<Rightarrow> bool" where
  "map_ok m \<longleftrightarrow> 0 \<le> available_num m \<and> length (the_cells m) = nat (available_num m) \<and>
     (available_num m = 0 \<longleftrightarrow> entries m = None) \<and>
     (\<exists>k. available_num m = 0 \<or> available_num m = 32 * 2 ^ k)"

lemma map_ok_init: "map_ok map_init"
  by (simp add: map_ok_def map_init_def the_cells_def)

text \<open>The doubling stops at the least doubling that exceeds the slot, if an \<open>int\<close> can hold it.\<close>

lemma grow_loop_value:
  assumes "0 < n" and "n * 2 ^ k \<le> INT_MAX" and "slot < n * 2 ^ k"
  shows "\<exists>j \<le> k. grow_loop n slot = Some (n * 2 ^ j) \<and> slot < n * 2 ^ j \<and>
    (j = 0 \<or> n * 2 ^ (j - 1) \<le> slot)"
  using assms
proof (induction k arbitrary: n)
  case 0
  then show ?case by (simp add: grow_loop.simps)
next
  case (Suc k)
  show ?case
  proof (cases "n \<le> slot")
    case False
    then show ?thesis by (intro exI[of _ 0]) (simp add: grow_loop.simps)
  next
    case True
    have "2 * n * 1 \<le> 2 * n * 2 ^ k" using Suc.prems(1) by (intro mult_left_mono) simp_all
    then have le: "2 * n \<le> INT_MAX" using Suc.prems(2) by (simp add: mult.assoc)
    from Suc.IH[of "2 * n"] Suc.prems obtain j where j: "j \<le> k"
      "grow_loop (2 * n) slot = Some (2 * n * 2 ^ j)" "slot < 2 * n * 2 ^ j"
      "j = 0 \<or> 2 * n * 2 ^ (j - 1) \<le> slot" by (auto simp: mult.assoc mult.left_commute)
    have "grow_loop n slot = Some (n * 2 ^ Suc j)"
      using True le j(2) by (subst grow_loop.simps) (simp add: mult.commute mult.left_commute)
    moreover have "n * 2 ^ (Suc j - 1) \<le> slot"
      using j(4) True by (cases j) (auto simp: mult.assoc mult.left_commute)
    ultimately show ?thesis using j(1,3)
      by (intro exI[of _ "Suc j"]) (simp add: mult.assoc mult.left_commute)
  qed
qed

lemma grow_loop_result:
  assumes "grow_loop n slot = Some n'"
  shows "slot < n' \<and> (\<exists>j. n' = n * 2 ^ j)"
proof (rule grow_loop.raw_induct[OF _ assms])
  fix f n slot n'
  assume IH: "\<And>n slot n'. f n slot = Some n' \<Longrightarrow> slot < n' \<and> (\<exists>j. n' = n * 2 ^ j)"
    and eq: "(if n \<le> slot then if 2 * n \<le> INT_MAX then f (2 * n) slot else None else Some n) = Some n'"
  show "slot < n' \<and> (\<exists>j. n' = n * 2 ^ j)"
  proof (cases "n \<le> slot")
    case True
    with eq have "f (2 * n) slot = Some n'" by (auto split: if_splits)
    from IH[OF this] obtain j where "slot < n'" "n' = n * 2 ^ Suc j"
      by (auto simp: mult.assoc mult.left_commute)
    then show ?thesis by blast
  next
    case False
    with eq show ?thesis by (auto intro: exI[of _ 0])
  qed
qed

lemma realloc_memset_cells:
  assumes "length es = i" and "i \<le> n"
  shows "memset_cells i (8 * (n - i)) (realloc_cells (8 * n) es) = es @ replicate (n - i) (Cell NULL)"
  using assms by (simp add: memset_cells_def realloc_cells_def)

text \<open>What \<open>map_make_space\<close> starts doubling from: the old size, or 32.\<close>

definition start_size :: "channel_map \<Rightarrow> int" where
  "start_size m = (if available_num m \<noteq> 0 then available_num m else 32)"

lemma start_size_pow2:
  assumes "map_ok m"
  obtains i where "start_size m = 32 * 2 ^ i"
  using assms by (metis map_ok_def mult.right_neutral power_0 start_size_def)

lemma make_space_grow:
  assumes "available_num m \<le> slot"
  shows "map_make_space b m slot 8 = (case grow_loop (start_size m) slot of None \<Rightarrow> Fault IntOverflow
    | Some n' \<Rightarrow> if n' * 8 > INT_MAX then Fault IntOverflow else if \<not> b then Ret (-1, m)
       else if 8 * available_num m + (n' - available_num m) * 8 > n' * 8 then Fault OutOfBounds
       else Ret (0, \<lparr>entries = Some (memset_cells (nat (available_num m))
           (nat ((n' - available_num m) * 8)) (realloc_cells (nat (n' * 8)) (the_cells m))),
         available_num = n'\<rparr>))"
  using assms by (simp add: map_make_space_def start_size_def CHANNEL_MAP_DEFAULT_ENTRIES_SIZE_def Let_def
      split: option.split)

text \<open>Below \<open>2 ^ 27\<close> the doubling finds the least size, and its bytes fit an \<open>int\<close>.\<close>

lemma grow_loop_small:
  assumes "map_ok m" and "available_num m \<le> slot" and "slot < 2 ^ 27"
  obtains i j where "start_size m = 32 * 2 ^ i" "grow_loop (start_size m) slot = Some (32 * 2 ^ (i + j))"
    "slot < 32 * 2 ^ (i + j)" "32 * 2 ^ (i + j) * 8 \<le> INT_MAX"
    "j = 0 \<or> 32 * 2 ^ (i + (j - 1)) \<le> slot"
proof -
  obtain i where i: "start_size m = 32 * 2 ^ i" using start_size_pow2[OF assms(1)] .
  have "start_size m \<le> 2 ^ 27" using assms(2,3) by (auto simp: start_size_def)
  then have "(2::int) ^ (5 + i) \<le> 2 ^ 27" by (simp add: i power_add)
  then have i27: "i \<le> 22" by (subst (asm) power_increasing_iff) simp_all
  have top: "start_size m * 2 ^ (22 - i) = 2 ^ 27"
    using i27 by (simp add: i power_add[symmetric] flip: power_add)
  have n0: "0 < start_size m" using i by simp
  from grow_loop_value[OF n0, of "22 - i" slot] top assms(3) obtain j where
    j: "j \<le> 22 - i" "grow_loop (start_size m) slot = Some (start_size m * 2 ^ j)"
      "slot < start_size m * 2 ^ j" "j = 0 \<or> start_size m * 2 ^ (j - 1) \<le> slot" by (auto simp: INT_MAX_def)
  have "start_size m * 2 ^ j \<le> start_size m * 2 ^ (22 - i)" using n0 j(1) by (simp add: power_increasing)
  then have bd: "start_size m * 2 ^ j * 8 \<le> INT_MAX" using top by (simp add: INT_MAX_def)
  show thesis by (rule that[of i j]) (use i j bd in \<open>simp_all add: power_add mult.assoc\<close>)
qed

lemma grow_loop_large:
  assumes "map_ok m" and "2 ^ 27 \<le> slot" and "grow_loop (start_size m) slot = Some n"
  shows "n * 8 > INT_MAX"
proof -
  obtain i where i: "start_size m = 32 * 2 ^ i" using start_size_pow2[OF assms(1)] .
  from grow_loop_result[OF assms(3)] obtain j where j: "slot < n" "n = 2 ^ (5 + i + j)"
    by (auto simp: i power_add)
  then have "(2::int) ^ 27 < 2 ^ (5 + i + j)" using assms(2) by linarith
  then have "27 < 5 + i + j" by (subst (asm) power_strict_increasing_iff) simp_all
  then have "(2::int) ^ 28 \<le> n" unfolding j(2) by (intro power_increasing) simp_all
  then show ?thesis by (simp add: INT_MAX_def)
qed

lemma new_cells:
  assumes "map_ok m" and "available_num m \<le> n"
  shows "memset_cells (nat (available_num m)) (nat ((n - available_num m) * 8))
      (realloc_cells (nat (n * 8)) (the_cells m)) =
    the_cells m @ replicate (nat (n - available_num m)) (Cell NULL)"
proof -
  have len: "length (the_cells m) = nat (available_num m)" and old: "0 \<le> available_num m"
    using assms(1) by (auto simp: map_ok_def)
  have "nat ((n - available_num m) * 8) = 8 * (nat n - nat (available_num m))"
    "nat (n * 8) = 8 * nat n" "nat (n - available_num m) = nat n - nat (available_num m)"
    using assms(2) old by (simp_all add: nat_mult_distrib nat_diff_distrib)
  moreover have "nat (available_num m) \<le> nat n" using assms(2) by simp
  ultimately show ?thesis using realloc_memset_cells[OF len] by presburger
qed

text \<open>
  C28.  For a descriptor below \<open>2 ^ 27\<close> and entries of pointer size, \<open>map_make_space\<close> keeps every
  cell, appends null cells only, and leaves a table whose size is 32 times the least power of two
  (or the old size) that has room for the descriptor; if \<open>realloc\<close> fails it returns -1 and changes
  nothing.  For a descriptor above that bound the size computation overflows.
\<close>

theorem map_make_space_room:
  assumes "map_ok m" and "0 \<le> slot" and "available_num m \<le> slot"
  shows "(slot < 2 ^ 27 \<longrightarrow> map_make_space False m slot 8 = Ret (-1, m) \<and>
      (\<exists>m'. map_make_space True m slot 8 = Ret (0, m') \<and> map_ok m' \<and> slot < available_num m' \<and>
         (available_num m' = 32 \<or> available_num m' div 2 \<le> slot) \<and>
         the_cells m' = the_cells m @
           replicate (nat (available_num m' - available_num m)) (Cell NULL))) \<and>
    (2 ^ 27 \<le> slot \<longrightarrow> map_make_space mem m slot 8 = Fault IntOverflow)"
proof (intro conjI impI)
  assume small: "slot < 2 ^ 27"
  obtain i j where g: "start_size m = 32 * 2 ^ i" "grow_loop (start_size m) slot = Some (32 * 2 ^ (i + j))"
    "slot < 32 * 2 ^ (i + j)" "32 * 2 ^ (i + j) * 8 \<le> INT_MAX" "j = 0 \<or> 32 * 2 ^ (i + (j - 1)) \<le> slot"
    using grow_loop_small[OF assms(1,3) small] .
  let ?n = "32 * 2 ^ (i + j) :: int"
  have le: "available_num m \<le> ?n" using assms(3) g(3) by linarith
  have fits: "\<not> 8 * available_num m + (?n - available_num m) * 8 > ?n * 8" by simp
  let ?m = "\<lparr>entries = Some (the_cells m @ replicate (nat (?n - available_num m)) (Cell NULL)),
    available_num = ?n\<rparr>"
  show "map_make_space False m slot 8 = Ret (-1, m)"
    using g(4) by (simp add: make_space_grow[OF assms(3)] g(2))
  have "map_make_space True m slot 8 = Ret (0, ?m)"
    using g(4) fits new_cells[OF assms(1) le]
    by (simp add: make_space_grow[OF assms(3)] g(2) del: left_diff_distrib_numeral)
  moreover have "map_ok ?m" using assms(1) le by (auto simp: map_ok_def the_cells_def nat_diff_distrib)
  moreover have "?n = 32 \<or> ?n div 2 \<le> slot"
    using g(1,5) assms(2,3) by (cases j) (auto simp: start_size_def split: if_splits)
  ultimately show "\<exists>m'. map_make_space True m slot 8 = Ret (0, m') \<and> map_ok m' \<and> slot < available_num m' \<and>
      (available_num m' = 32 \<or> available_num m' div 2 \<le> slot) \<and>
      the_cells m' = the_cells m @ replicate (nat (available_num m' - available_num m)) (Cell NULL)"
    using g(3) by (auto simp: the_cells_def)
next
  assume "2 ^ 27 \<le> slot"
  then show "map_make_space mem m slot 8 = Fault IntOverflow"
    using grow_loop_large[OF assms(1)] by (auto simp: make_space_grow[OF assms(3)] split: option.split)
qed

theorem map_make_space_room_witness:
  "\<exists>m'. map_make_space True map_init 40 8 = Ret (0, m') \<and> 40 < available_num m' \<and>
     the_cells m' = replicate (nat (available_num m')) (Cell NULL)"
  using map_make_space_room[of map_init 40] map_ok_init
  by (auto simp: map_init_def the_cells_def)

subsection \<open>The event loop\<close>

text \<open>
  \<open>el_map\<close> is the allocated \<open>struct channel_map\<close>; \<open>None\<close> as long as nothing has initialised it.
  \<open>el_data\<close> is what the dispatcher keeps; a failed \<open>socketpair\<close> leaves its array unset.
\<close>

record 'd event_loop =
  el_quit :: bool
  el_dispatcher :: "byte list"
  el_data :: 'd
  el_is_handle_pending :: bool
  el_map :: "channel_map option"
  el_pending_head :: ptr
  el_pending_tail :: ptr
  el_socket_pair :: "(int \<times> int) option"
  el_thread_name :: "byte list"

text \<open>The arguments are the dispatcher's name and \<open>init\<close>.  \<open>malloc\<close> leaves the map as it is.\<close>

definition sys_socketpair :: "(int \<times> int) option io" where
  "sys_socketpair w = (case answers w of
     [] \<Rightarrow> (Blocked, w)
   | AReady ((a, _) # (b, _) # _) # as \<Rightarrow> (Ret (Some (a, b)), w\<lparr>answers := as\<rparr>)
   | AErr e # as \<Rightarrow> (Ret None, w\<lparr>answers := as, errno := e\<rparr>)
   | _ # as \<Rightarrow> (Ret None, w\<lparr>answers := as\<rparr>))"

definition event_loop_init_with_name ::
  "byte list \<Rightarrow> 'd io \<Rightarrow> byte list option \<Rightarrow> 'd event_loop io" where
  "event_loop_init_with_name dispatcher init thread_name = (let name =
       (case thread_name of Some n \<Rightarrow> n | None \<Rightarrow> bytes ''main thread'')
     in bnd (print (bytes ''used '' @ dispatcher @ bytes '' dispatcher, '' @ name @ [10])) (\<lambda>_.
        bnd init (\<lambda>d.
        bnd sys_socketpair (\<lambda>pair.
        bnd (if pair = None then print (bytes ''socketpair set failed \<newline>'') else ret ()) (\<lambda>_.
        ret \<lparr>el_quit = False, el_dispatcher = dispatcher, el_data = d, el_is_handle_pending = False,
             el_map = None, el_pending_head = NULL, el_pending_tail = NULL,
             el_socket_pair = pair, el_thread_name = name\<rparr>)))))"

definition event_loop_init :: "byte list \<Rightarrow> 'd io \<Rightarrow> 'd event_loop io" where
  "event_loop_init dispatcher init = event_loop_init_with_name dispatcher init None"

definition event_loop_wakeup :: "'d event_loop \<Rightarrow> unit io" where
  "event_loop_wakeup el = (case el_socket_pair el of
     None \<Rightarrow> fault Uninitialised
   | Some (a, b) \<Rightarrow> bnd (sys_write a (bytes ''a'')) (\<lambda>n.
       if n \<noteq> 1 then print (bytes ''wakeup event loop thread failed \<newline>'') else ret ()))"

text \<open>What reading \<open>entries[fd]->fd\<close> gives.\<close>

definition lookup_channel :: "chan_heap \<Rightarrow> channel_map \<Rightarrow> int \<Rightarrow> channel outcome" where
  "lookup_channel h m fd =
     (if entries m = None then Fault NullDeref
      else if nat fd \<ge> length (the_cells m) then Fault OutOfBounds
      else case the_cells m ! nat fd of
        Junk \<Rightarrow> Fault Uninitialised
      | Cell None \<Rightarrow> Fault NullDeref
      | Cell (Some a) \<Rightarrow> (case h a of None \<Rightarrow> Fault OutOfBounds | Some c \<Rightarrow> Ret c))"

definition call :: "nat \<Rightarrow> ptr \<Rightarrow> unit io" where
  "call f p w = (Ret (), log_event (ECall f p) w)"

definition channel_event_activate ::
  "chan_heap \<Rightarrow> 'd event_loop \<Rightarrow> int \<Rightarrow> u32 \<Rightarrow> int io" where
  "channel_event_activate h el fd events =
     bnd (print (bytes ''activate channel fd=='' @ dec fd @ bytes '' events='' @ dec (sint events) @
                 bytes '', '' @ el_thread_name el @ [10])) (\<lambda>_.
     if fd < 0 then ret 0
     else (case el_map el of None \<Rightarrow> fault Uninitialised
     | Some m \<Rightarrow>
       if fd > available_num m then ret (-1)
       else (case lookup_channel h m fd of
         Ret c \<Rightarrow>
           if fd \<noteq> ch_fd c then fault AssertFailed
           else bnd (if events AND EVENT_READ \<noteq> 0 then call (ch_read c) (ch_data c) else ret ()) (\<lambda>_.
                bnd (if events AND EVENT_WRITE \<noteq> 0 then call (ch_write c) (ch_data c) else ret ()) (\<lambda>_.
                ret 0))
       | Fault e \<Rightarrow> fault e | Exit c \<Rightarrow> die c | Blocked \<Rightarrow> (\<lambda>w. (Blocked, w)))))"

lemma call_simps [simp]: "call f p w = (Ret (), log_event (ECall f p) w)"
  by (simp add: call_def)

text \<open>The callbacks a process has called, in order.\<close>

fun calls_made :: "event list \<Rightarrow> (nat \<times> ptr) list" where
  "calls_made [] = []"
| "calls_made (ECall f p # es) = (f, p) # calls_made es"
| "calls_made (_ # es) = calls_made es"

lemma calls_made_append [simp]: "calls_made (xs @ ys) = calls_made xs @ calls_made ys"
  by (induction xs rule: calls_made.induct) auto

text \<open>
  A registered descriptor that is ready has exactly the callbacks called that its events ask
  for, reading before writing, each with the channel's data.
\<close>

theorem activate_calls_back:
  assumes "el_map el = Some m" and "map_ok m" and "0 \<le> fd" and "fd < available_num m"
    and "the_cells m ! nat fd = Cell (Some a)" and "h a = Some c" and "ch_fd c = fd"
  shows "\<exists>w'. channel_event_activate h el fd events w = (Ret 0, w') \<and>
    calls_made (trace w') = calls_made (trace w) @
      (if events AND EVENT_READ \<noteq> 0 then [(ch_read c, ch_data c)] else []) @
      (if events AND EVENT_WRITE \<noteq> 0 then [(ch_write c, ch_data c)] else [])"
proof -
  have "entries m \<noteq> None" "nat fd < length (the_cells m)" using assms(2-4) by (auto simp: map_ok_def)
  then have "lookup_channel h m fd = Ret c" using assms(5,6) by (simp add: lookup_channel_def)
  then show ?thesis using assms(1,3,4,7) by (simp add: channel_event_activate_def)
qed

definition demo_map :: channel_map where
  "demo_map = \<lparr>entries = Some ((replicate 32 (Cell NULL))[7 := Cell (Some 100)]), available_num = 32\<rparr>"

definition demo_loop :: "'d \<Rightarrow> 'd event_loop" where
  "demo_loop d = \<lparr>el_quit = False, el_dispatcher = [], el_data = d, el_is_handle_pending = False,
     el_map = Some demo_map, el_pending_head = NULL, el_pending_tail = NULL,
     el_socket_pair = None, el_thread_name = []\<rparr>"

lemma demo_map_ok: "map_ok demo_map"
  by (auto simp: map_ok_def demo_map_def the_cells_def intro!: exI[of _ 0])

theorem activate_calls_back_witness:
  "\<exists>w'. channel_event_activate
      [100 \<mapsto> \<lparr>ch_fd = 7, ch_events = 3, ch_data = Some 9, ch_read = 1, ch_write = 2\<rparr>]
      (demo_loop ()) 7 3 demo_world = (Ret 0, w') \<and>
    calls_made (trace w') = [(1, Some 9), (2, Some 9)]"
  using activate_calls_back[of "demo_loop ()" demo_map 7 100
      "[100 \<mapsto> \<lparr>ch_fd = 7, ch_events = 3, ch_data = Some 9, ch_read = 1, ch_write = 2\<rparr>]"
      "\<lparr>ch_fd = 7, ch_events = 3, ch_data = Some 9, ch_read = 1, ch_write = 2\<rparr>" 3 demo_world] demo_map_ok
  by (auto simp: demo_loop_def demo_map_def the_cells_def demo_world_def EVENT_READ_def EVENT_WRITE_def)

text \<open>
  The range test of \<open>channel_event_activate\<close> lets through one descriptor too many: a
  descriptor above the size of the table is refused with -1, one equal to it is read outside of
  the array.
\<close>

theorem activate_off_by_one:
  assumes "el_map el = Some m" and "map_ok m" and "0 < available_num m"
  shows "(\<forall>fd > available_num m. fst (channel_event_activate h el fd events w) = Ret (-1)) \<and>
    fst (channel_event_activate h el (available_num m) events w) = Fault OutOfBounds"
  using assms by (auto simp: channel_event_activate_def lookup_channel_def map_ok_def)

theorem activate_off_by_one_witness:
  "fst (channel_event_activate (\<lambda>_. None) (demo_loop ()) 32 1 demo_world) = Fault OutOfBounds \<and>
   fst (channel_event_activate (\<lambda>_. None) (demo_loop ()) 33 1 demo_world) = Ret (-1)"
  using activate_off_by_one[of "demo_loop ()" demo_map "\<lambda>_. None" 1 demo_world] demo_map_ok
  by (simp add: demo_loop_def demo_map_def)

text \<open>
  A loop fresh from \<open>event_loop_init_with_name\<close> cannot serve any event: its map was allocated
  but never initialised, so the first activation reads memory nobody wrote.
\<close>

theorem fresh_loop_activation_faults:
  assumes "event_loop_init_with_name d init name w = (Ret el, w')" and "0 \<le> fd"
  shows "fst (channel_event_activate h el fd events v) = Fault Uninitialised"
proof -
  have "el_map el = None"
    using assms(1) unfolding event_loop_init_with_name_def Let_def
    by (auto elim!: bnd_RetE split: option.splits)
  then show ?thesis using assms(2) by (simp add: channel_event_activate_def)
qed

theorem fresh_loop_activation_faults_witness:
  "\<exists>el w'. event_loop_init_with_name (bytes ''poll'') (ret ()) None
      \<lparr>rx = (\<lambda>_. []), answers = [AOk 0], errno = 0, trace = []\<rparr> = (Ret el, w') \<and>
    fst (channel_event_activate (\<lambda>_. None) el 5 1 w') = Fault Uninitialised"
proof -
  obtain el w' where e: "event_loop_init_with_name (bytes ''poll'') (ret ()) None
      \<lparr>rx = (\<lambda>_. []), answers = [AOk 0], errno = 0, trace = []\<rparr> = (Ret el, w')"
    by (simp add: event_loop_init_with_name_def Let_def sys_socketpair_def)
  from fresh_loop_activation_faults[OF e, of 5 "\<lambda>_. None" 1 w'] e show ?thesis by simp
qed

subsection \<open>The listening socket\<close>

record acceptor =
  acc_fd :: int
  acc_port :: int

definition acceptor_init :: "int \<Rightarrow> acceptor io" where
  "acceptor_init port =
     bnd (sys (Socket ''AF_INET'' ''SOCK_STREAM'')) (\<lambda>fd. if fd < 0 then die 1
     else bnd (sys (Fcntl fd ''O_NONBLOCK'')) (\<lambda>_.
     bnd (sys (Setsockopt fd ''SO_REUSEADDR'')) (\<lambda>_.
     bnd (sys (Bind fd port)) (\<lambda>r. if r < 0 then die 1
     else bnd (sys (Listen fd 128)) (\<lambda>r. if r \<noteq> 0 then die 1
     else ret \<lparr>acc_fd = fd, acc_port = port\<rparr>)))))"

end
