(* ===== verification/Dispatchers.thy ===== *)
theory Dispatchers
  imports Event_Loop
begin

text \<open>
  The two implementations of \<^verbatim>\<open>struct event_dispatcher\<close>: \<^verbatim>\<open>lib/poll_dispatcher.c\<close> and
  \<^verbatim>\<open>lib/epoll_dispatcher.c\<close>.  A local variable that the code only ever updates with \<open>|=\<close> starts
  with whatever the stack holds: such a value is an argument called \<open>junk\<close>.
\<close>

subsection \<open>\<open>poll\<close>\<close>

definition POLLRDNORM :: "16 word" where "POLLRDNORM = 64"
definition POLLWRNORM :: "16 word" where "POLLWRNORM = 256"
definition POLL_INITIAL_SIZE :: nat where "POLL_INITIAL_SIZE = 1024"

record pollfd =
  pf_fd :: int
  pf_events :: "16 word"

record poll_data =
  pd_count :: int
  pd_nfds :: int
  pd_realloc_copy :: int
  pd_fds :: "pollfd list"

definition poll_init :: "16 word \<Rightarrow> poll_data" where
  "poll_init junk = \<lparr>pd_count = 0, pd_nfds = 0, pd_realloc_copy = 0,
     pd_fds = replicate POLL_INITIAL_SIZE \<lparr>pf_fd = -1, pf_events = junk\<rparr>\<rparr>"

text \<open>The loops of \<open>poll_add\<close>, \<open>poll_del\<close> and \<open>poll_update\<close> change the first entry that fits.\<close>

fun set_first :: "('a \<Rightarrow> bool) \<Rightarrow> ('a \<Rightarrow> 'a) \<Rightarrow> 'a list \<Rightarrow> 'a list option" where
  "set_first P f [] = None"
| "set_first P f (x # xs) =
     (if P x then Some (f x # xs) else map_option ((#) x) (set_first P f xs))"

text \<open>The tests of \<open>poll_add\<close> and \<open>poll_update\<close> are logical conjunctions.\<close>

definition poll_bits :: "channel \<Rightarrow> 16 word" where
  "poll_bits c = (if ch_events c \<noteq> 0 \<and> EVENT_READ \<noteq> 0 then POLLRDNORM else 0) OR
     (if ch_events c \<noteq> 0 \<and> EVENT_WRITE \<noteq> 0 then POLLWRNORM else 0)"

type_synonym poll_loop = "poll_data event_loop"

definition channel_line :: "string \<Rightarrow> channel \<Rightarrow> poll_loop \<Rightarrow> byte list" where
  "channel_line verb c el = bytes verb @ bytes '' channel fd=='' @ dec (ch_fd c) @ bytes '', '' @
     el_thread_name el @ bytes '' \<newline>''"

definition set_fds :: "poll_loop \<Rightarrow> pollfd list \<Rightarrow> poll_loop" where
  "set_fds el fds = el\<lparr>el_data := (el_data el)\<lparr>pd_fds := fds\<rparr>\<rparr>"

definition poll_add :: "poll_loop \<Rightarrow> channel \<Rightarrow> (int \<times> poll_loop) io" where
  "poll_add el c = bnd (print (channel_line ''poll added'' c el)) (\<lambda>_.
     case set_first (\<lambda>p. pf_fd p < 0) (\<lambda>p. \<lparr>pf_fd = ch_fd c, pf_events = poll_bits c\<rparr>)
        (pd_fds (el_data el)) of
       None \<Rightarrow> bnd (print (bytes ''too many clients, just abort it \<newline>'')) (\<lambda>_. ret (0, el))
     | Some fds \<Rightarrow> ret (0, set_fds el fds))"

definition poll_del :: "poll_loop \<Rightarrow> channel \<Rightarrow> (int \<times> poll_loop) io" where
  "poll_del el c = bnd (print (channel_line ''poll deleted'' c el)) (\<lambda>_.
     case set_first (\<lambda>p. pf_fd p = ch_fd c) (\<lambda>p. p\<lparr>pf_events := -1\<rparr>) (pd_fds (el_data el)) of
       None \<Rightarrow> bnd (print (bytes ''can not find fd, poll delete error it \<newline>'')) (\<lambda>_. ret (0, el))
     | Some fds \<Rightarrow> ret (0, set_fds el fds))"

definition poll_update :: "16 word \<Rightarrow> poll_loop \<Rightarrow> channel \<Rightarrow> (int \<times> poll_loop) io" where
  "poll_update junk el c = bnd (print (channel_line ''poll updated'' c el)) (\<lambda>_.
     case set_first (\<lambda>p. pf_fd p = ch_fd c) (\<lambda>p. p\<lparr>pf_events := junk OR poll_bits c\<rparr>)
        (pd_fds (el_data el)) of
       None \<Rightarrow> bnd (print (bytes ''can not find fd, poll update error it \<newline>'')) (\<lambda>_. ret (0, el))
     | Some fds \<Rightarrow> ret (0, set_fds el fds))"

text \<open>\<open>revents\<close> is a \<open>short\<close>; the entry at index \<open>i\<close> of the array got the bits \<open>revents rs i\<close>.\<close>

definition poll_revents :: "(int \<times> nat) list \<Rightarrow> int \<Rightarrow> 16 word" where
  "poll_revents rs i = of_nat (revents rs i)"

definition ready_events :: "16 word \<Rightarrow> u32" where
  "ready_events re = (if re AND POLLRDNORM \<noteq> 0 then EVENT_READ else 0) OR
     (if re AND POLLWRNORM \<noteq> 0 then EVENT_WRITE else 0)"

fun poll_scan ::
  "chan_heap \<Rightarrow> poll_loop \<Rightarrow> (int \<times> nat) list \<Rightarrow> pollfd list \<Rightarrow> int \<Rightarrow> int \<Rightarrow> unit io" where
  "poll_scan h el rs [] i ready_num = ret ()"
| "poll_scan h el rs (p # ps) i ready_num = (let re = poll_revents rs i in
     if pf_fd p < 0 \<or> sint re \<le> 0 then poll_scan h el rs ps (i + 1) ready_num
     else bnd (print (bytes ''get message channel i=='' @ dec i @ bytes '' fd=='' @ dec (pf_fd p) @
                      bytes '', '' @ el_thread_name el @ bytes '' \<newline>'')) (\<lambda>_.
          bnd (if ready_events re \<noteq> 0
               then bnd (channel_event_activate h el (pf_fd p) (ready_events re)) (\<lambda>_. ret ())
               else ret ()) (\<lambda>_.
          if ready_num - 1 \<le> 0 then ret () else poll_scan h el rs ps (i + 1) (ready_num - 1))))"

definition poll_dispatch :: "chan_heap \<Rightarrow> poll_loop \<Rightarrow> int io" where
  "poll_dispatch h el = bnd sys_wait (\<lambda>(ready_num, rs).
     if ready_num < 0 then die 1
     else if ready_num \<le> 0 then ret 0
     else bnd (poll_scan h el rs (pd_fds (el_data el)) 0 ready_num) (\<lambda>_. ret 0))"

text \<open>\<open>poll_clear\<close> frees the array and the data; the loop is left without any.\<close>

definition poll_clear :: "poll_data option event_loop \<Rightarrow> poll_data option event_loop outcome" where
  "poll_clear el = (case el_data el of
     None \<Rightarrow> Fault NullDeref
   | Some d \<Rightarrow> Ret (el\<lparr>el_data := None\<rparr>))"

subsection \<open>Interest in \<open>poll\<close>\<close>

lemma poll_bits_eq: "poll_bits c = (if ch_events c = 0 then 0 else POLLRDNORM OR POLLWRNORM)"
  by (simp add: poll_bits_def EVENT_READ_def EVENT_WRITE_def)

lemma poll_add_result:
  "\<exists>w'. poll_add el c w = (Ret (0, case set_first (\<lambda>p. pf_fd p < 0)
       (\<lambda>p. \<lparr>pf_fd = ch_fd c, pf_events = poll_bits c\<rparr>) (pd_fds (el_data el)) of
       None \<Rightarrow> el | Some fds \<Rightarrow> set_fds el fds), w')"
  by (simp add: poll_add_def split: option.split)

lemma poll_del_result:
  "\<exists>w'. poll_del el c w = (Ret (0, case set_first (\<lambda>p. pf_fd p = ch_fd c)
       (\<lambda>p. p\<lparr>pf_events := -1\<rparr>) (pd_fds (el_data el)) of
       None \<Rightarrow> el | Some fds \<Rightarrow> set_fds el fds), w')"
  by (simp add: poll_del_def split: option.split)

lemma set_fds_simps [simp]: "pd_fds (el_data (set_fds el fds)) = fds"
  by (simp add: set_fds_def)

definition free_slots :: "pollfd list \<Rightarrow> nat" where
  "free_slots ps = length (filter (\<lambda>p. pf_fd p < 0) ps)"

lemma set_first_None: "set_first P f xs = None \<longleftrightarrow> (\<forall>x \<in> set xs. \<not> P x)"
  by (induction xs) auto

lemma set_first_Some:
  assumes "set_first P f xs = Some ys"
  shows "\<exists>as x bs. xs = as @ x # bs \<and> (\<forall>a \<in> set as. \<not> P a) \<and> P x \<and> ys = as @ f x # bs"
  using assms
proof (induction xs arbitrary: ys)
  case (Cons x xs)
  show ?case
  proof (cases "P x")
    case True
    with Cons.prems show ?thesis by (intro exI[of _ "[]"]) auto
  next
    case False
    with Cons.prems obtain zs where "set_first P f xs = Some zs" "ys = x # zs" by auto
    with Cons.IH[of zs] False obtain as a bs where "xs = as @ a # bs" "\<forall>a \<in> set as. \<not> P a" "P a"
      "ys = (x # as) @ f a # bs" by auto
    with False show ?thesis by (intro exI[of _ "x # as"] exI[of _ a] exI[of _ bs]) auto
  qed
qed simp

text \<open>
  \<open>poll_add\<close> puts the channel's descriptor into the first free slot and leaves all other
  slots alone, but because of its logical conjunctions any channel that waits for anything is
  registered for reading and for writing.
\<close>

theorem poll_add_registers_both:
  assumes "pd_fds (el_data el) = as @ p # bs" and "\<forall>a \<in> set as. 0 \<le> pf_fd a" and "pf_fd p < 0"
    and "ch_events c \<noteq> 0"
  shows "\<exists>el' w'. poll_add el c w = (Ret (0, el'), w') \<and>
    pd_fds (el_data el') = as @ \<lparr>pf_fd = ch_fd c, pf_events = POLLRDNORM OR POLLWRNORM\<rparr> # bs"
proof -
  let ?f = "\<lambda>p. \<lparr>pf_fd = ch_fd c, pf_events = poll_bits c\<rparr>"
  have "set_first (\<lambda>p. pf_fd p < 0) ?f (as @ p # bs) = Some (as @ ?f p # bs)"
    using assms(2,3) by (induction as) auto
  then show ?thesis using poll_add_result[of el c w] assms(1,4) by (auto simp: poll_bits_eq)
qed

theorem poll_add_registers_both_witness:
  "\<exists>el' w'. poll_add (demo_loop (poll_init 5))
      \<lparr>ch_fd = 9, ch_events = EVENT_READ, ch_data = NULL, ch_read = 0, ch_write = 0\<rparr> demo_world
      = (Ret (0, el'), w') \<and>
    hd (pd_fds (el_data el')) = \<lparr>pf_fd = 9, pf_events = 320\<rparr>"
proof -
  have "pd_fds (el_data (demo_loop (poll_init 5))) = [] @ \<lparr>pf_fd = -1, pf_events = 5\<rparr> #
      replicate 1023 \<lparr>pf_fd = -1, pf_events = 5\<rparr>"
    by (simp add: demo_loop_def poll_init_def POLL_INITIAL_SIZE_def flip: replicate_Suc)
  from poll_add_registers_both[OF this, of "\<lparr>ch_fd = 9, ch_events = EVENT_READ, ch_data = NULL,
      ch_read = 0, ch_write = 0\<rparr>" demo_world]
  show ?thesis by (auto simp: EVENT_READ_def POLLRDNORM_def POLLWRNORM_def)
qed

lemma free_slots_add:
  assumes "0 \<le> ch_fd c"
  shows "\<exists>el' w'. poll_add el c w = (Ret (0, el'), w') \<and>
    free_slots (pd_fds (el_data el')) = free_slots (pd_fds (el_data el)) - 1 \<and>
    (free_slots (pd_fds (el_data el)) = 0 \<longrightarrow> el' = el)"
proof -
  let ?f = "\<lambda>p. \<lparr>pf_fd = ch_fd c, pf_events = poll_bits c\<rparr>"
  show ?thesis
  proof (cases "set_first (\<lambda>p. pf_fd p < 0) ?f (pd_fds (el_data el))")
    case None
    then have "free_slots (pd_fds (el_data el)) = 0"
      by (auto simp: free_slots_def set_first_None filter_empty_conv)
    with None poll_add_result[of el c w] show ?thesis by auto
  next
    case (Some fds)
    from set_first_Some[OF this] obtain as x bs where "pd_fds (el_data el) = as @ x # bs"
      "pf_fd x < 0" "fds = as @ ?f x # bs" by blast
    with Some poll_add_result[of el c w] assms show ?thesis by (auto simp: free_slots_def)
  qed
qed

lemma free_slots_del:
  "\<exists>el' w'. poll_del el c w = (Ret (0, el'), w') \<and>
    free_slots (pd_fds (el_data el')) = free_slots (pd_fds (el_data el))"
proof (cases "set_first (\<lambda>p. pf_fd p = ch_fd c) (\<lambda>p. p\<lparr>pf_events := -1\<rparr>) (pd_fds (el_data el))")
  case None
  with poll_del_result[of el c w] show ?thesis by auto
next
  case (Some fds)
  from set_first_Some[OF this] obtain as x bs where "pd_fds (el_data el) = as @ x # bs"
    "fds = as @ x\<lparr>pf_events := -1\<rparr> # bs" by blast
  with Some poll_del_result[of el c w] show ?thesis by (auto simp: free_slots_def)
qed

text \<open>A connection that comes and goes, and a series of them.\<close>

fun poll_cycles :: "poll_loop \<Rightarrow> channel list \<Rightarrow> poll_loop io" where
  "poll_cycles el [] = ret el"
| "poll_cycles el (c # cs) = bnd (poll_add el c) (\<lambda>(_, el).
     bnd (poll_del el c) (\<lambda>(_, el). poll_cycles el cs))"

lemma poll_cycles_slots:
  "\<forall>c \<in> set cs. 0 \<le> ch_fd c \<Longrightarrow> \<exists>el' w'. poll_cycles el cs w = (Ret el', w') \<and>
     free_slots (pd_fds (el_data el')) = free_slots (pd_fds (el_data el)) - length cs"
proof (induction cs arbitrary: el w)
  case (Cons c cs)
  from Cons.prems free_slots_add[of c el w] obtain el1 w1 where 1:
    "poll_add el c w = (Ret (0, el1), w1)"
    "free_slots (pd_fds (el_data el1)) = free_slots (pd_fds (el_data el)) - 1" by auto
  from free_slots_del[of el1 c w1] obtain el2 w2 where 2:
    "poll_del el1 c w1 = (Ret (0, el2), w2)"
    "free_slots (pd_fds (el_data el2)) = free_slots (pd_fds (el_data el1))" by auto
  from Cons.IH[of el2 w2] Cons.prems obtain el3 w3 where
    "poll_cycles el2 cs w2 = (Ret el3, w3)"
    "free_slots (pd_fds (el_data el3)) = free_slots (pd_fds (el_data el2)) - length cs" by auto
  with 1 2 show ?case by simp
qed simp

text \<open>
  \<open>poll_del\<close> never gives a slot back: after any 1024 connections have come and gone the
  table of a fresh dispatcher has no free slot, and a further channel is reported as added with
  result 0 although the table is unchanged.
\<close>

theorem poll_slots_leak:
  assumes "el_data el = poll_init junk" and "length cs = 1024" and "\<forall>c \<in> set cs. 0 \<le> ch_fd c"
    and "0 \<le> ch_fd c"
  shows "\<exists>el' w' w''. poll_cycles el cs w = (Ret el', w') \<and> free_slots (pd_fds (el_data el')) = 0 \<and>
    poll_add el' c w' = (Ret (0, el'), w'')"
proof -
  have "free_slots (pd_fds (el_data el)) = 1024"
    by (simp add: assms(1) poll_init_def POLL_INITIAL_SIZE_def free_slots_def)
  with poll_cycles_slots[OF assms(3), of el w] assms(2) obtain el' w' where
    e: "poll_cycles el cs w = (Ret el', w')" "free_slots (pd_fds (el_data el')) = 0" by auto
  with free_slots_add[OF assms(4), of el' w'] show ?thesis by auto
qed

theorem poll_slots_leak_witness:
  "\<exists>el' w' w''. poll_cycles (demo_loop (poll_init 0)) (replicate 1024 \<lparr>ch_fd = 9, ch_events = 1,
       ch_data = NULL, ch_read = 0, ch_write = 0\<rparr>) demo_world = (Ret el', w') \<and>
     poll_add el' \<lparr>ch_fd = 10, ch_events = 1, ch_data = NULL, ch_read = 0, ch_write = 0\<rparr> w'
       = (Ret (0, el'), w'')"
  using poll_slots_leak[of "demo_loop (poll_init 0)" 0 "replicate 1024 \<lparr>ch_fd = 9, ch_events = 1,
      ch_data = NULL, ch_read = 0, ch_write = 0\<rparr>"
      "\<lparr>ch_fd = 10, ch_events = 1, ch_data = NULL, ch_read = 0, ch_write = 0\<rparr>" demo_world]
  by (auto simp: demo_loop_def)

subsection \<open>Dispatch in \<open>poll\<close>\<close>

definition is_ready :: "(int \<times> nat) list \<Rightarrow> pollfd \<Rightarrow> int \<Rightarrow> bool" where
  "is_ready rs p i \<longleftrightarrow> 0 \<le> pf_fd p \<and> 0 < sint (poll_revents rs i)"

definition callbacks :: "channel \<Rightarrow> u32 \<Rightarrow> (nat \<times> ptr) list" where
  "callbacks c ev = (if ev AND EVENT_READ \<noteq> 0 then [(ch_read c, ch_data c)] else []) @
     (if ev AND EVENT_WRITE \<noteq> 0 then [(ch_write c, ch_data c)] else [])"

text \<open>The descriptor's cell of the table holds an allocated channel of that descriptor.\<close>

definition registered :: "chan_heap \<Rightarrow> channel_map \<Rightarrow> int \<Rightarrow> channel \<Rightarrow> bool" where
  "registered h m fd c \<longleftrightarrow> 0 \<le> fd \<and> fd < available_num m \<and> lookup_channel h m fd = Ret c \<and> ch_fd c = fd"

fun ready_count :: "(int \<times> nat) list \<Rightarrow> pollfd list \<Rightarrow> int \<Rightarrow> int" where
  "ready_count rs [] i = 0"
| "ready_count rs (p # ps) i = (if is_ready rs p i then 1 else 0) + ready_count rs ps (i + 1)"

text \<open>What a dispatcher promises: the callbacks of the ready descriptors, in table order.\<close>

fun ready_calls :: "(int \<Rightarrow> channel) \<Rightarrow> (int \<times> nat) list \<Rightarrow> pollfd list \<Rightarrow> int \<Rightarrow> (nat \<times> ptr) list" where
  "ready_calls chan rs [] i = []"
| "ready_calls chan rs (p # ps) i =
     (if is_ready rs p i then callbacks (chan (pf_fd p)) (ready_events (poll_revents rs i)) else []) @
     ready_calls chan rs ps (i + 1)"

lemma ready_count_nonneg [simp]: "0 \<le> ready_count rs ps i"
  by (induction rs ps i rule: ready_count.induct) auto

lemma no_ready_calls: "ready_count rs ps i = 0 \<Longrightarrow> ready_calls chan rs ps i = []"
proof (induction rs ps i rule: ready_count.induct)
  case (2 rs p ps i)
  have "\<not> is_ready rs p i"
  proof
    assume "is_ready rs p i"
    with "2.prems" have "1 + ready_count rs ps (i + 1) = 0" by simp
    with ready_count_nonneg[of rs ps "i + 1"] show False by linarith
  qed
  with 2 show ?case by simp
qed simp

lemma activate_registered:
  assumes "el_map el = Some m" and "registered h m fd c"
  shows "\<exists>w'. channel_event_activate h el fd ev w = (Ret 0, w') \<and>
    calls_made (trace w') = calls_made (trace w) @ callbacks c ev"
  using assms by (auto simp: channel_event_activate_def registered_def callbacks_def)

lemma poll_scan_calls:
  assumes "el_map el = Some m" and "\<forall>p \<in> set ps. 0 \<le> pf_fd p \<longrightarrow> registered h m (pf_fd p) (chan (pf_fd p))"
    and "ready_count rs ps i \<le> n"
  shows "\<exists>w'. poll_scan h el rs ps i n w = (Ret (), w') \<and>
    calls_made (trace w') = calls_made (trace w) @ ready_calls chan rs ps i"
  using assms(2,3)
proof (induction ps arbitrary: i n w)
  case (Cons p ps)
  show ?case
  proof (cases "is_ready rs p i")
    case False
    then have "poll_scan h el rs (p # ps) i n = poll_scan h el rs ps (i + 1) n"
      by (auto simp: is_ready_def Let_def)
    with Cons False show ?thesis by simp
  next
    case True
    let ?ev = "ready_events (poll_revents rs i)"
    define act where "act = (if ?ev \<noteq> 0 then bnd (channel_event_activate h el (pf_fd p) ?ev) (\<lambda>_. ret ())
      else ret ())"
    have reg: "registered h m (pf_fd p) (chan (pf_fd p))"
      using Cons.prems(1) True by (auto simp: is_ready_def)
    have no: "callbacks c 0 = []" for c by (simp add: callbacks_def)
    obtain t where t: "poll_scan h el rs (p # ps) i n w = bnd act (\<lambda>_. if n - 1 \<le> 0 then ret ()
        else poll_scan h el rs ps (i + 1) (n - 1)) (log_event (EPrint t) w)"
      using True by (auto simp: is_ready_def Let_def act_def)
    obtain v where v: "act (log_event (EPrint t) w) = (Ret (), v)"
      "calls_made (trace v) = calls_made (trace w) @ callbacks (chan (pf_fd p)) ?ev"
    proof -
      obtain u where "channel_event_activate h el (pf_fd p) ?ev (log_event (EPrint t) w) = (Ret 0, u)"
        "calls_made (trace u) = calls_made (trace w) @ callbacks (chan (pf_fd p)) ?ev"
        using activate_registered[OF assms(1) reg, of ?ev "log_event (EPrint t) w"] by auto
      then show thesis
        by (intro that[of "if ?ev = 0 then log_event (EPrint t) w else u"]) (auto simp: no act_def)
    qed
    have le: "ready_count rs ps (i + 1) \<le> n - 1" using Cons.prems(2) True by simp
    show ?thesis
    proof (cases "n - 1 \<le> 0")
      case True
      then have "ready_count rs ps (i + 1) = 0" using le ready_count_nonneg[of rs ps "i + 1"] by linarith
      with True v \<open>is_ready rs p i\<close> show ?thesis by (simp add: t no_ready_calls del: poll_scan.simps)
    next
      case False
      with v \<open>is_ready rs p i\<close> Cons.IH[of "i + 1" "n - 1" v] Cons.prems(1) le show ?thesis
        by (simp add: t del: poll_scan.simps)
    qed
  qed
qed simp

text \<open>
  C18.  When \<open>poll\<close> reports at least as many entries as are ready, and every descriptor of the
  table has its channel in the map, \<open>poll_dispatch\<close> calls exactly the callbacks of the ready
  descriptors, in the order of the table, and returns 0.
\<close>

theorem poll_dispatch_calls:
  assumes "el_map el = Some m" and "answers w = AReady rs # as"
    and "\<forall>p \<in> set (pd_fds (el_data el)). 0 \<le> pf_fd p \<longrightarrow> registered h m (pf_fd p) (chan (pf_fd p))"
    and "ready_count rs (pd_fds (el_data el)) 0 \<le> int (length rs)"
  shows "\<exists>w'. poll_dispatch h el w = (Ret 0, w') \<and>
    calls_made (trace w') = calls_made (trace w) @ ready_calls chan rs (pd_fds (el_data el)) 0"
proof -
  let ?v = "w\<lparr>answers := as\<rparr>"
  have wait: "sys_wait w = (Ret (int (length rs), rs), ?v)" by (simp add: sys_wait_def assms(2))
  show ?thesis
  proof (cases "rs = []")
    case True
    then have "ready_calls chan rs (pd_fds (el_data el)) 0 = []"
      using assms(4) by (intro no_ready_calls antisym) simp_all
    then show ?thesis using True wait by (simp add: poll_dispatch_def)
  next
    case False
    from poll_scan_calls[OF assms(1,3,4), of ?v] False wait show ?thesis
      by (auto simp: poll_dispatch_def)
  qed
qed

theorem poll_dispatch_calls_witness:
  "\<exists>w'. poll_dispatch [100 \<mapsto> \<lparr>ch_fd = 7, ch_events = 1, ch_data = Some 9, ch_read = 1, ch_write = 2\<rparr>]
      (demo_loop \<lparr>pd_count = 0, pd_nfds = 0, pd_realloc_copy = 0,
         pd_fds = [\<lparr>pf_fd = -1, pf_events = 0\<rparr>, \<lparr>pf_fd = 7, pf_events = 320\<rparr>]\<rparr>)
      \<lparr>rx = (\<lambda>_. []), answers = [AReady [(1, 64)]], errno = 0, trace = []\<rparr> = (Ret 0, w') \<and>
    calls_made (trace w') = [(1, Some 9)]"
proof -
  let ?c = "\<lparr>ch_fd = 7, ch_events = 1, ch_data = Some 9, ch_read = 1, ch_write = 2\<rparr>"
  have rv: "poll_revents [(1, 64)] i = (if i = 1 then 64 else 0)" for i
    by (auto simp: poll_revents_def revents_def)
  have reg: "registered [100 \<mapsto> ?c] demo_map 7 ?c"
    by (simp add: registered_def lookup_channel_def demo_map_def the_cells_def)
  show ?thesis
    using poll_dispatch_calls[of "demo_loop \<lparr>pd_count = 0, pd_nfds = 0, pd_realloc_copy = 0,
         pd_fds = [\<lparr>pf_fd = -1, pf_events = 0\<rparr>, \<lparr>pf_fd = 7, pf_events = 320\<rparr>]\<rparr>" demo_map
        "\<lparr>rx = (\<lambda>_. []), answers = [AReady [(1, 64)]], errno = 0, trace = []\<rparr>" "[(1, 64)]" "[]"
        "[100 \<mapsto> ?c]" "\<lambda>_. ?c"] reg
    by (simp add: demo_loop_def rv is_ready_def ready_events_def callbacks_def POLLRDNORM_def
        POLLWRNORM_def EVENT_READ_def EVENT_WRITE_def)
qed

subsection \<open>\<open>epoll\<close>\<close>

definition EPOLLIN :: u32 where "EPOLLIN = 1"
definition EPOLLOUT :: u32 where "EPOLLOUT = 4"
definition EPOLLERR :: u32 where "EPOLLERR = 8"
definition EPOLLHUP :: u32 where "EPOLLHUP = 16"
definition EPOLL_INITIAL_SIZE :: nat where "EPOLL_INITIAL_SIZE = 128"

record epoll_data =
  ed_count :: int
  ed_nfds :: int
  ed_realloc_copy :: int
  ed_epoll_fd :: int

type_synonym epoll_loop = "epoll_data event_loop"

definition epoll_init :: "epoll_data io" where
  "epoll_init = bnd (sys EpollCreate) (\<lambda>fd. if fd < 0 then die 1
     else ret \<lparr>ed_count = 0, ed_nfds = 0, ed_realloc_copy = 0, ed_epoll_fd = fd\<rparr>)"

definition epoll_ctrl :: "u32 \<Rightarrow> epoll_loop \<Rightarrow> channel \<Rightarrow> string \<Rightarrow> int io" where
  "epoll_ctrl junk el c op = (let events = junk OR
       (if ch_events c AND EVENT_READ \<noteq> 0 then EPOLLIN else 0) OR
       (if ch_events c AND EVENT_WRITE \<noteq> 0 then EPOLLOUT else 0)
     in bnd (sys (EpollCtl (ed_epoll_fd (el_data el)) op (ch_fd c) (unat events))) (\<lambda>r.
        if r < 0 then die 1 else ret 0))"

definition epoll_add :: "u32 \<Rightarrow> epoll_loop \<Rightarrow> channel \<Rightarrow> int io" where
  "epoll_add junk el c = epoll_ctrl junk el c ''EPOLL_CTL_ADD''"

definition epoll_del :: "u32 \<Rightarrow> epoll_loop \<Rightarrow> channel \<Rightarrow> int io" where
  "epoll_del junk el c = epoll_ctrl junk el c ''EPOLL_CTL_DEL''"

definition epoll_update :: "u32 \<Rightarrow> epoll_loop \<Rightarrow> channel \<Rightarrow> int io" where
  "epoll_update junk el c = epoll_ctrl junk el c ''EPOLL_CTL_MOD''"

text \<open>The loop over the events that \<open>epoll_wait\<close> stored.\<close>

fun epoll_scan :: "chan_heap \<Rightarrow> epoll_loop \<Rightarrow> (int \<times> nat) list \<Rightarrow> unit io" where
  "epoll_scan h el [] = ret ()"
| "epoll_scan h el ((fd, e) # es) = (let ev = of_nat e :: u32; name = el_thread_name el in
     if ((ev OR EPOLLERR) OR (ev OR EPOLLHUP)) \<noteq> 0
     then bnd (sys (Close fd)) (\<lambda>_. epoll_scan h el es)
     else
       bnd (if ev AND EPOLLIN \<noteq> 0
            then print (bytes ''get message channel fd=='' @ dec fd @ bytes '' for read, '' @ name)
            else ret ()) (\<lambda>_.
       bnd (if ev AND EPOLLOUT \<noteq> 0
            then print (bytes ''get message channel fd=='' @ dec fd @ bytes '' for write, '' @ name)
            else ret ()) (\<lambda>_.
       let events = (if ev AND EPOLLIN \<noteq> 0 then EVENT_READ else 0) OR
                    (if ev AND EPOLLOUT \<noteq> 0 then EVENT_WRITE else 0)
       in bnd (if events \<noteq> 0 then bnd (channel_event_activate h el fd events) (\<lambda>_. ret ()) else ret ())
            (\<lambda>_. epoll_scan h el es))))"

definition epoll_dispatch :: "chan_heap \<Rightarrow> epoll_loop \<Rightarrow> int io" where
  "epoll_dispatch h el = bnd sys_wait (\<lambda>(wakeup_num, rs).
     bnd (print (bytes ''epoll wakeup: '' @ dec wakeup_num @ bytes '', '' @ el_thread_name el)) (\<lambda>_.
     bnd (epoll_scan h el (take EPOLL_INITIAL_SIZE rs)) (\<lambda>_. ret 0)))"

definition epoll_clear :: "epoll_data option event_loop \<Rightarrow> epoll_data option event_loop io" where
  "epoll_clear el = (case el_data el of
     None \<Rightarrow> fault NullDeref
   | Some d \<Rightarrow> bnd (sys (Close (ed_epoll_fd d))) (\<lambda>_. ret (el\<lparr>el_data := None\<rparr>)))"

text \<open>The descriptors a process has asked to close, in order.\<close>

fun closes :: "event list \<Rightarrow> int list" where
  "closes [] = []"
| "closes (ESys (Close fd) r # es) = fd # closes es"
| "closes (_ # es) = closes es"

lemma closes_append [simp]: "closes (xs @ ys) = closes xs @ closes ys"
  by (induction xs rule: closes.induct) auto

lemma error_test_always_true: "((ev OR EPOLLERR) OR (ev OR EPOLLHUP)) \<noteq> 0"
proof
  assume z: "((ev OR EPOLLERR) OR (ev OR EPOLLHUP)) = 0"
  have "bit ((ev OR EPOLLERR) OR (ev OR EPOLLHUP)) 3"
    by (simp add: bit_or_iff EPOLLERR_def EPOLLHUP_def) 
  then show False unfolding z by simp
qed

lemma epoll_scan_closes:
  assumes "answers w = map (AOk \<circ> int) ns @ as" and "length ns = length es"
  shows "\<exists>w'. epoll_scan h el es w = (Ret (), w') \<and> calls_made (trace w') = calls_made (trace w) \<and>
    closes (trace w') = closes (trace w) @ map fst es"
  using assms
proof (induction es arbitrary: w ns)
  case (Cons p es)
  obtain fd e where p: "p = (fd, e)" by (cases p)
  obtain n ns' where ns: "ns = n # ns'" "length ns' = length es" using Cons.prems(2) by (cases ns) auto
  let ?w = "log_event (ESys (Close fd) (int n)) (w\<lparr>answers := map (AOk \<circ> int) ns' @ as\<rparr>)"
  have s: "sys (Close fd) w = (Ret (int n), ?w)" using Cons.prems(1) ns by (simp add: sys_def)
  have "epoll_scan h el (p # es) w = epoll_scan h el es ?w"
    by (simp add: p Let_def error_test_always_true s)
  with Cons.IH[of ?w ns'] ns p show ?case by auto
qed simp

text \<open>
  C40.  \<open>epoll_dispatch\<close> tests for errors with a bitwise or, which is never zero: whatever the
  reported events are, it calls no callback and closes every descriptor that is ready.
\<close>

theorem epoll_dispatch_closes_everything:
  assumes "answers w = AReady rs # map (AOk \<circ> int) ns @ as" and "length ns = length rs"
    and "length rs \<le> EPOLL_INITIAL_SIZE"
  shows "\<exists>w'. epoll_dispatch h el w = (Ret 0, w') \<and> calls_made (trace w') = calls_made (trace w) \<and>
    closes (trace w') = closes (trace w) @ map fst rs"
proof -
  obtain t where "epoll_dispatch h el w = bnd (epoll_scan h el rs) (\<lambda>_. ret 0)
      (log_event (EPrint t) (w\<lparr>answers := map (AOk \<circ> int) ns @ as\<rparr>))"
    using assms(1,3) by (simp add: epoll_dispatch_def sys_wait_def)
  with epoll_scan_closes[of "log_event (EPrint t) (w\<lparr>answers := map (AOk \<circ> int) ns @ as\<rparr>)" ns as rs
      h el] assms(2) show ?thesis by auto
qed

theorem epoll_dispatch_closes_everything_witness:
  "\<exists>w'. epoll_dispatch (\<lambda>_. None)
      (demo_loop \<lparr>ed_count = 0, ed_nfds = 0, ed_realloc_copy = 0, ed_epoll_fd = 3\<rparr>)
      \<lparr>rx = (\<lambda>_. []), answers = [AReady [(7, 1), (8, 4)], AOk 0, AOk 0], errno = 0, trace = []\<rparr>
      = (Ret 0, w') \<and> calls_made (trace w') = [] \<and> closes (trace w') = [7, 8]"
  using epoll_dispatch_closes_everything[of "\<lparr>rx = (\<lambda>_. []),
      answers = [AReady [(7, 1), (8, 4)], AOk 0, AOk 0], errno = 0, trace = []\<rparr>" "[(7, 1), (8, 4)]"
      "[0, 0]" "[]" "\<lambda>_. None"]
  by (simp add: EPOLL_INITIAL_SIZE_def)

text \<open>
  The interest that \<open>epoll_ctrl\<close> registers is not determined by the channel: every bit
  pattern that contains the wanted bits is registered in some run, since the structure on the stack
  is never cleared.
\<close>

theorem epoll_interest_is_junk:
  assumes "answers w = AOk 0 # as" and "want = (if ch_events c AND EVENT_READ \<noteq> 0 then EPOLLIN else 0)
      OR (if ch_events c AND EVENT_WRITE \<noteq> 0 then EPOLLOUT else 0)" and "want AND ev = want"
  shows "\<exists>junk w'. epoll_add junk el c w = (Ret 0, w') \<and>
    trace w' = trace w @ [ESys (EpollCtl (ed_epoll_fd (el_data el)) ''EPOLL_CTL_ADD'' (ch_fd c) (unat ev)) 0]"
proof -
  have "bit want n \<Longrightarrow> bit ev n" for n
    using arg_cong[OF assms(3), of "\<lambda>x. bit x n"] by (simp add: bit_and_iff)
  then have "ev OR want = ev" by (auto intro!: bit_word_eqI simp: bit_or_iff)
  then show ?thesis using assms(1,2)
    by (intro exI[of _ ev]) (simp add: epoll_add_def epoll_ctrl_def Let_def sys_def or.assoc[symmetric])
qed

theorem epoll_interest_is_junk_witness:
  "\<exists>junk w'. epoll_add junk (demo_loop \<lparr>ed_count = 0, ed_nfds = 0, ed_realloc_copy = 0, ed_epoll_fd = 3\<rparr>)
      \<lparr>ch_fd = 7, ch_events = 1, ch_data = NULL, ch_read = 1, ch_write = 2\<rparr>
      \<lparr>rx = (\<lambda>_. []), answers = [AOk 0], errno = 0, trace = []\<rparr> = (Ret 0, w') \<and>
    trace w' = [ESys (EpollCtl 3 ''EPOLL_CTL_ADD'' 7 5) 0]"
  using epoll_interest_is_junk[of "\<lparr>rx = (\<lambda>_. []), answers = [AOk 0], errno = 0, trace = []\<rparr>" "[]" 1
      "\<lparr>ch_fd = 7, ch_events = 1, ch_data = NULL, ch_read = 1, ch_write = 2\<rparr>" 5
      "demo_loop \<lparr>ed_count = 0, ed_nfds = 0, ed_realloc_copy = 0, ed_epoll_fd = 3\<rparr>"]
  by (simp add: EVENT_READ_def EVENT_WRITE_def EPOLLIN_def EPOLLOUT_def demo_loop_def)

end
