(* ===== verification/Poll_Servers.thy ===== *)
theory Poll_Servers
  imports Echo_Servers Dispatchers
begin

text \<open>
  The servers that multiplex with \<open>poll\<close> (\<^verbatim>\<open>chap-21/poll_server.c\<close>) and with \<open>epoll\<close>
  (\<^verbatim>\<open>chap-23/epoll_server.c\<close>) in one loop each.
\<close>

subsection \<open>\<open>poll\<close>\<close>

definition POLLERR :: "16 word" where "POLLERR = 8"
definition POLL_FD_SIZE :: nat where "POLL_FD_SIZE = 128"

text \<open>The first entry is the listening socket's; \<open>junk\<close> is what the other \<open>events\<close> hold.\<close>

definition poll_server_init :: "16 word \<Rightarrow> int \<Rightarrow> pollfd list" where
  "poll_server_init junk listen_fd = \<lparr>pf_fd = listen_fd, pf_events = POLLRDNORM\<rparr> #
     replicate (POLL_FD_SIZE - 1) \<lparr>pf_fd = -1, pf_events = junk\<rparr>"

text \<open>\<open>fd_idx\<close> is never changed after its initialisation with 0.\<close>

definition poll_server_accept :: "int \<Rightarrow> pollfd list \<Rightarrow> pollfd list io" where
  "poll_server_accept listen_fd fds = bnd (sys (Accept listen_fd)) (\<lambda>conn_fd.
     let fd_idx = (0 :: nat);
         fds = (case set_first (\<lambda>p. pf_fd p < 0)
                  (\<lambda>p. \<lparr>pf_fd = conn_fd, pf_events = POLLRDNORM\<rparr>) (tl fds) of
                  None \<Rightarrow> fds | Some ps \<Rightarrow> hd fds # ps)
     in if fd_idx = POLL_FD_SIZE then die 1 else ret fds)"

definition poll_server_serve :: "pollfd \<Rightarrow> pollfd io" where
  "poll_server_serve p = bnd (sys_read (pf_fd p) MAX_LINE) (\<lambda>(recved_count, buf).
     if recved_count > 0 then
       bnd (sys_write (pf_fd p) buf) (\<lambda>r. if r < 0 then die 1 else ret p)
     else bnd get_errno (\<lambda>e.
       if recved_count = 0 \<or> e = ECONNRESET
       then bnd (sys (Close (pf_fd p))) (\<lambda>_. ret (p\<lparr>pf_fd := -1\<rparr>))
       else die 1))"

fun poll_server_scan :: "(int \<times> nat) list \<Rightarrow> pollfd list \<Rightarrow> int \<Rightarrow> int \<Rightarrow> pollfd list io" where
  "poll_server_scan rs [] i ready_num = ret []"
| "poll_server_scan rs (p # ps) i ready_num =
     (if pf_fd p < 0 \<or> poll_revents rs i AND (POLLRDNORM OR POLLERR) = 0
      then bnd (poll_server_scan rs ps (i + 1) ready_num) (\<lambda>ps. ret (p # ps))
      else bnd (poll_server_serve p) (\<lambda>p.
        if ready_num - 1 \<le> 0 then ret (p # ps)
        else bnd (poll_server_scan rs ps (i + 1) (ready_num - 1)) (\<lambda>ps. ret (p # ps))))"

definition poll_server_turn :: "int \<Rightarrow> pollfd list \<Rightarrow> pollfd list io" where
  "poll_server_turn listen_fd fds = bnd sys_wait (\<lambda>(ready_num, rs).
     if ready_num < 0 then die 1
     else if poll_revents rs 0 AND POLLRDNORM \<noteq> 0 then
       bnd (poll_server_accept listen_fd fds) (\<lambda>fds.
       if ready_num - 1 \<le> 0 then ret fds
       else bnd (poll_server_scan rs (tl fds) 1 (ready_num - 1)) (\<lambda>ps. ret (hd fds # ps)))
     else bnd (poll_server_scan rs (tl fds) 1 ready_num) (\<lambda>ps. ret (hd fds # ps)))"

fun poll_server_loop :: "nat \<Rightarrow> int \<Rightarrow> pollfd list \<Rightarrow> pollfd list io" where
  "poll_server_loop 0 listen_fd fds = ret fds"
| "poll_server_loop (Suc k) listen_fd fds =
     bnd (poll_server_turn listen_fd fds) (poll_server_loop k listen_fd)"

text \<open>Both servers have a copy of the set-up of the thread-pool server.\<close>

definition poll_server_listen :: "int \<Rightarrow> int io" where
  "poll_server_listen port = create_tcp_server port"

definition poll_server_main :: "nat \<Rightarrow> 16 word \<Rightarrow> pollfd list io" where
  "poll_server_main k junk = bnd (poll_server_listen 8021) (\<lambda>listen_fd.
     poll_server_loop k listen_fd (poll_server_init junk listen_fd))"

text \<open>
  When all 127 client slots are taken, a further connection is accepted and then forgotten:
  it is neither watched nor closed, and the test that should end the server never fires.
\<close>

theorem poll_server_forgets_connection:
  assumes "\<forall>p \<in> set (tl fds). 0 \<le> pf_fd p" and "answers w = AReady [(0, 64)] # AOk c # as" and "0 \<le> c"
  shows "\<exists>w'. poll_server_turn lfd fds w = (Ret fds, w') \<and> rx w' = rx w \<and>
    trace w' = trace w @ [ESys (Accept lfd) c]"
proof -
  let ?f = "\<lambda>p. \<lparr>pf_fd = c, pf_events = POLLRDNORM\<rparr>"
  have n: "set_first (\<lambda>p. pf_fd p < 0) ?f (tl fds) = None"
    using assms(1) by (auto simp: set_first_None)
  have r: "poll_revents [(0, 64)] 0 AND POLLRDNORM \<noteq> 0"
    by (simp add: poll_revents_def revents_def POLLRDNORM_def)
  show ?thesis using assms(2,3) r
    by (simp add: poll_server_turn_def sys_wait_def poll_server_accept_def Let_def sys_def n POLL_FD_SIZE_def)
qed

theorem poll_server_forgets_connection_witness:
  "\<exists>w'. poll_server_turn 3 (replicate 128 \<lparr>pf_fd = 7, pf_events = 64\<rparr>)
      \<lparr>rx = (\<lambda>_. []), answers = [AReady [(0, 64)], AOk 9], errno = 0, trace = []\<rparr> =
      (Ret (replicate 128 \<lparr>pf_fd = 7, pf_events = 64\<rparr>), w') \<and> trace w' = [ESys (Accept 3) 9]"
proof -
  have "\<forall>p \<in> set (tl (replicate 128 \<lparr>pf_fd = 7, pf_events = 64\<rparr>)). 0 \<le> pf_fd p"
    by (auto dest!: list.set_sel(2)[rotated])
  from poll_server_forgets_connection[OF this, of "\<lparr>rx = (\<lambda>_. []),
      answers = [AReady [(0, 64)], AOk 9], errno = 0, trace = []\<rparr>" 9 "[]" 3]
  show ?thesis by (auto simp del: replicate.simps)
qed

subsection \<open>\<open>epoll\<close>\<close>

text \<open>The body of the loop over the reported events.\<close>

definition epoll_server_event :: "int \<Rightarrow> int \<Rightarrow> int \<times> nat \<Rightarrow> unit io" where
  "epoll_server_event listen_fd epoll_fd ev = (let (fd, e) = ev; events = of_nat e :: u32 in
     if events AND EPOLLERR \<noteq> 0 \<or> events AND EPOLLHUP \<noteq> 0 \<or> events AND EPOLLIN = 0 then
       bnd (print (bytes ''epoll error \<newline>'')) (\<lambda>_. bnd (sys (Close fd)) (\<lambda>_. ret ()))
     else if listen_fd = fd then
       bnd (print (bytes ''client connected!\<newline>'')) (\<lambda>_.
       bnd (sys (Accept listen_fd)) (\<lambda>conn_fd.
       bnd (sys (Fcntl conn_fd ''O_NONBLOCK'')) (\<lambda>_.
       bnd (sys (EpollCtl epoll_fd ''EPOLL_CTL_ADD'' conn_fd (unat EPOLLIN))) (\<lambda>_. ret ()))))
     else bnd (sys_read fd MAX_LINE) (\<lambda>(received_num, buf).
       if received_num < 0 then ret ()
       else if received_num = 0 then
         bnd (sys (Close fd)) (\<lambda>_.
         bnd (sys (EpollCtl epoll_fd ''EPOLL_CTL_DEL'' fd (unat EPOLLIN))) (\<lambda>_.
         print (bytes ''client closed \<newline>'')))
       else bnd (print_received [] received_num buf) (\<lambda>_.
         bnd (sys_write fd (map rot13_char buf)) (\<lambda>_. ret ()))))"

fun epoll_server_events :: "int \<Rightarrow> int \<Rightarrow> (int \<times> nat) list \<Rightarrow> unit io" where
  "epoll_server_events listen_fd epoll_fd [] = ret ()"
| "epoll_server_events listen_fd epoll_fd (ev # evs) =
     bnd (epoll_server_event listen_fd epoll_fd ev) (\<lambda>_. epoll_server_events listen_fd epoll_fd evs)"

fun epoll_server_loop :: "nat \<Rightarrow> int \<Rightarrow> int \<Rightarrow> unit io" where
  "epoll_server_loop 0 listen_fd epoll_fd = ret ()"
| "epoll_server_loop (Suc k) listen_fd epoll_fd =
     bnd sys_wait (\<lambda>(wakeup_num, rs).
     bnd (epoll_server_events listen_fd epoll_fd (take 128 rs)) (\<lambda>_.
     epoll_server_loop k listen_fd epoll_fd))"

text \<open>The bits \<open>EPOLLIN | EPOLLET\<close> of the listening socket: edge-triggered.\<close>

definition EPOLLET :: u32 where "EPOLLET = push_bit 31 1"

definition epoll_server_listen :: "int \<Rightarrow> int io" where
  "epoll_server_listen port = create_tcp_server port"

definition epoll_server_main :: "nat \<Rightarrow> unit io" where
  "epoll_server_main k = bnd (epoll_server_listen 8023) (\<lambda>listen_fd.
     bnd (sys EpollCreate) (\<lambda>epoll_fd. if epoll_fd < 0 then die 1
     else bnd (sys (EpollCtl epoll_fd ''EPOLL_CTL_ADD'' listen_fd (unat (EPOLLIN OR EPOLLET)))) (\<lambda>r.
     if r < 0 then die 1 else epoll_server_loop k listen_fd epoll_fd)))"

lemma epoll_server_event_data:
  assumes "fd \<noteq> lfd" and "rx w fd = RxData seg # xs" and "seg \<noteq> []" and "length seg < MAX_LINE"
    and "answers w = AOk (int n) # as"
  shows "\<exists>w'. epoll_server_event lfd efd (fd, 1) w = (Ret (), w') \<and> answers w' = as \<and>
    (\<forall>f. f \<noteq> fd \<longrightarrow> rx w' f = rx w f \<and> bytes_sent f (trace w') = bytes_sent f (trace w)) \<and>
    bytes_sent fd (trace w') = bytes_sent fd (trace w) @ map rot13_char (take n seg)"
proof -
  let ?w1 = "log_event (ERead fd seg) (w\<lparr>rx := (rx w)(fd := xs)\<rparr>)"
  have rd: "sys_read fd MAX_LINE w = (Ret (int (length seg), seg), ?w1)"
    using assms(2-4) by (intro sys_read_segment) simp_all
  obtain t where pr: "print_received [] (int (length seg)) seg ?w1 = (Ret (), log_event (EPrint t) ?w1)"
    using print_received_ok[OF assms(4)] by blast
  let ?r = "min (int n) (int (length seg))"
  let ?w3 = "log_event (EWrite fd (map rot13_char seg) ?r) (log_event (EPrint t) ?w1\<lparr>answers := as\<rparr>)"
  have wr: "sys_write fd (map rot13_char seg) (log_event (EPrint t) ?w1) = (Ret ?r, ?w3)"
    using assms(5) by (subst sys_write_ok) simp_all
  have "epoll_server_event lfd efd (fd, 1) w = (Ret (), ?w3)"
    using assms(1,3) by (simp add: epoll_server_event_def Let_def EPOLLERR_def EPOLLHUP_def EPOLLIN_def rd pr wr)
  moreover have "take (nat ?r) (map rot13_char seg) = map rot13_char (take n seg)"
    by (simp add: take_map min_def)
  ultimately show ?thesis by auto
qed

text \<open>
  C17.  One turn of the \<open>epoll\<close> server serves every client that is ready: each gets the ROT13 of its
  own segment, as far as the kernel takes it, and nothing of another client's.
\<close>

theorem epoll_server_serves_all:
  assumes "distinct fds" and "lfd \<notin> set fds" and "length ns = length fds"
    and "\<forall>fd \<in> set fds. \<exists>xs. rx w fd = RxData (seg fd) # xs \<and> seg fd \<noteq> [] \<and> length (seg fd) < MAX_LINE"
    and "answers w = map (AOk \<circ> int) ns @ as"
  shows "\<exists>w'. epoll_server_events lfd efd (map (\<lambda>fd. (fd, 1)) fds) w = (Ret (), w') \<and>
    (\<forall>i < length fds. bytes_sent (fds ! i) (trace w') =
       bytes_sent (fds ! i) (trace w) @ map rot13_char (take (ns ! i) (seg (fds ! i))))"
proof -
  have "\<exists>w'. epoll_server_events lfd efd (map (\<lambda>fd. (fd, 1)) fds) w = (Ret (), w') \<and>
    (\<forall>f. f \<notin> set fds \<longrightarrow> bytes_sent f (trace w') = bytes_sent f (trace w)) \<and>
    (\<forall>i < length fds. bytes_sent (fds ! i) (trace w') =
       bytes_sent (fds ! i) (trace w) @ map rot13_char (take (ns ! i) (seg (fds ! i))))"
    using assms
  proof (induction fds arbitrary: ns w)
    case (Cons fd fds)
    then obtain n ns' where ns: "ns = n # ns'" "length ns' = length fds" by (cases ns) auto
    obtain xs where xs: "rx w fd = RxData (seg fd) # xs" "seg fd \<noteq> []" "length (seg fd) < MAX_LINE"
      using Cons.prems(4) by auto
    have ans: "answers w = AOk (int n) # map (AOk \<circ> int) ns' @ as" using Cons.prems(5) ns by simp
    have "fd \<noteq> lfd" using Cons.prems(2) by auto
    from epoll_server_event_data[OF this xs ans, of efd] obtain v where v:
      "epoll_server_event lfd efd (fd, 1) w = (Ret (), v)" "answers v = map (AOk \<circ> int) ns' @ as"
      "\<forall>f. f \<noteq> fd \<longrightarrow> rx v f = rx w f \<and> bytes_sent f (trace v) = bytes_sent f (trace w)"
      "bytes_sent fd (trace v) = bytes_sent fd (trace w) @ map rot13_char (take n (seg fd))" by blast
    have fresh: "fd \<notin> set fds" "distinct fds" "lfd \<notin> set fds" using Cons.prems(1,2) by auto
    have "\<forall>f \<in> set fds. \<exists>xs. rx v f = RxData (seg f) # xs \<and> seg f \<noteq> [] \<and> length (seg f) < MAX_LINE"
      using Cons.prems(4) v(3) fresh(1) by (metis list.set_intros(2))
    from Cons.IH[OF fresh(2,3) ns(2) this v(2)] obtain w' where w':
      "epoll_server_events lfd efd (map (\<lambda>fd. (fd, 1)) fds) v = (Ret (), w')"
      "\<forall>f. f \<notin> set fds \<longrightarrow> bytes_sent f (trace w') = bytes_sent f (trace v)"
      "\<forall>i < length fds. bytes_sent (fds ! i) (trace w') =
         bytes_sent (fds ! i) (trace v) @ map rot13_char (take (ns' ! i) (seg (fds ! i)))" by blast
    have "\<forall>i < length (fd # fds). bytes_sent ((fd # fds) ! i) (trace w') =
       bytes_sent ((fd # fds) ! i) (trace w) @ map rot13_char (take (ns ! i) (seg ((fd # fds) ! i)))"
    proof (intro allI impI)
      fix i assume "i < length (fd # fds)"
      then show "bytes_sent ((fd # fds) ! i) (trace w') =
        bytes_sent ((fd # fds) ! i) (trace w) @ map rot13_char (take (ns ! i) (seg ((fd # fds) ! i)))"
        using w'(2,3) v(3,4) fresh(1) ns(1) by (cases i) (auto, metis nth_mem)
    qed
    then show ?case using v(1,3) w'(1,2) by auto
  qed simp
  then show ?thesis by blast
qed

theorem epoll_server_serves_all_witness:
  "\<exists>w'. epoll_server_events 3 4 [(5, 1), (6, 1)] \<lparr>rx = (\<lambda>fd. if fd = 5 then [RxData [72]] else [RxData [73]]),
      answers = [AOk 1, AOk 1], errno = 0, trace = []\<rparr> = (Ret (), w') \<and>
    bytes_sent 5 (trace w') = [85] \<and> bytes_sent 6 (trace w') = [86]"
proof -
  let ?w = "\<lparr>rx = (\<lambda>fd. if fd = 5 then [RxData [72]] else [RxData [73]]),
      answers = [AOk 1, AOk 1], errno = 0, trace = []\<rparr>"
  from epoll_server_serves_all[of "[5, 6]" 3 "[1, 1]" ?w "\<lambda>fd. if fd = 5 then [72] else [73]" "[]" 4]
  obtain w' where w': "epoll_server_events 3 4 [(5, 1), (6, 1)] ?w = (Ret (), w')"
    "\<forall>i < length [5, 6 :: int]. bytes_sent ([5, 6] ! i) (trace w') = bytes_sent ([5, 6] ! i) (trace ?w) @
       map rot13_char (take ([1, 1] ! i) (if [5, 6 :: int] ! i = 5 then [72] else [73]))"
    by (auto simp: MAX_LINE_def)
  have "bytes_sent 5 (trace w') = [85]" using spec[OF w'(2), of 0] by (simp add: rot13_char_def)
  moreover have "bytes_sent 6 (trace w') = [86]" using spec[OF w'(2), of 1] by (simp add: rot13_char_def)
  ultimately show ?thesis using w'(1) by blast
qed

end
