(* ===== verification/Echo_Safety.thy ===== *)
theory Echo_Safety
  imports Select_Safety Poll_Servers "HOL-Library.Sublist"
begin

text \<open>
  What all echo servers promise their clients, whatever the network does: on every descriptor, at every
  moment, the bytes sent are some of the bytes received, encoded, in their order and none of them twice.
  A small calculus of what a server still owes carries the promise through its calls.
\<close>

subsection \<open>The promise\<close>

definition echoes :: "(byte \<Rightarrow> byte) \<Rightarrow> event list \<Rightarrow> bool" where
  "echoes enc es \<longleftrightarrow> (\<forall>ys fd. prefix ys es \<longrightarrow> subseq (bytes_sent fd ys) (map enc (bytes_read fd ys)))"

lemma echoes_Nil [simp]: "echoes enc []"
  by (simp add: echoes_def)

lemma echoes_snoc [simp]:
  "echoes enc (es @ [e]) \<longleftrightarrow> echoes enc es \<and>
     (\<forall>fd. subseq (bytes_sent fd (es @ [e])) (map enc (bytes_read fd (es @ [e]))))"
  by (auto simp: echoes_def)

text \<open>The server keeps its promise and can still send \<open>p fd\<close> on \<open>fd\<close> without breaking it.\<close>

definition owes :: "(byte \<Rightarrow> byte) \<Rightarrow> (int \<Rightarrow> byte list) \<Rightarrow> world \<Rightarrow> bool" where
  "owes enc p w \<longleftrightarrow> echoes enc (trace w) \<and>
     (\<forall>fd. subseq (bytes_sent fd (trace w) @ p fd) (map enc (bytes_read fd (trace w))))"

definition settled :: "(byte \<Rightarrow> byte) \<Rightarrow> world \<Rightarrow> bool" where
  "settled enc w \<longleftrightarrow> echoes enc (trace w)"

lemma settled_log:
  "settled enc (log_event (EPrint s) w) = settled enc w" "settled enc (log_event (ESys c r) w) = settled enc w"
  by (auto simp: settled_def echoes_def)

lemma settled_cong:
  "settled enc (w\<lparr>answers := as\<rparr>) = settled enc w" "settled enc (w\<lparr>answers := as, errno := e\<rparr>) = settled enc w"
  by (simp_all add: settled_def)

lemma owes_settled: "owes enc p w \<Longrightarrow> settled enc w"
  by (simp add: owes_def settled_def)

lemma settled_owes: "settled enc w \<Longrightarrow> owes enc (\<lambda>_. []) w"
  by (auto simp: owes_def settled_def echoes_def)

lemma owes_sent: "owes enc p w \<Longrightarrow> subseq (bytes_sent fd (trace w)) (map enc (bytes_read fd (trace w)))"
  by (auto simp: owes_def echoes_def)

lemma owes_less: "owes enc p w \<Longrightarrow> (\<And>fd. subseq (q fd) (p fd)) \<Longrightarrow> owes enc q w"
  unfolding owes_def by (meson list_emb_append_mono subseq_order.order_refl subseq_order.order_trans)

subsection \<open>How an action leaves the world\<close>

text \<open>If it returns, result and world have \<open>P\<close>; however else it ends, the world has \<open>E\<close>.\<close>

definition leaves :: "('a \<Rightarrow> world \<Rightarrow> bool) \<Rightarrow> (world \<Rightarrow> bool) \<Rightarrow> 'a outcome \<times> world \<Rightarrow> bool" where
  "leaves P E r = (case fst r of Ret x \<Rightarrow> P x (snd r) | _ \<Rightarrow> E (snd r))"

lemma leaves_simps [simp]:
  "leaves P E (Ret x, w) = P x w" "leaves P E (Fault e, w) = E w" "leaves P E (Exit c, w) = E w"
  "leaves P E (Blocked, w) = E w"
  by (simp_all add: leaves_def)

lemma leaves_bnd:
  assumes "leaves P E (m w)" and "\<And>x v. m w = (Ret x, v) \<Longrightarrow> P x v \<Longrightarrow> leaves Q E (f x v)"
  shows "leaves Q E (bnd m f w)"
proof -
  obtain r v where m: "m w = (r, v)" by (cases "m w")
  show ?thesis using assms m by (cases r) simp_all
qed

lemma leaves_weaken:
  "leaves P E r \<Longrightarrow> (\<And>x w. P x w \<Longrightarrow> Q x w) \<Longrightarrow> leaves Q E r"
  by (auto simp: leaves_def split: outcome.splits)

lemma leaves_ends: "ends P F r \<Longrightarrow> leaves Q E r \<Longrightarrow> leaves (\<lambda>x w. P x \<and> Q x w) E r"
  by (auto simp: leaves_def ends_def split: outcome.splits)

subsection \<open>The calls\<close>

lemma owes_log [simp]:
  "owes enc p (log_event (EPrint s) w) = owes enc p w" "owes enc p (log_event (ESys c r) w) = owes enc p w"
  by (auto simp: owes_def log_event_def intro: subseq_order.order_trans[rotated])

lemma owes_cong: "trace v = trace w \<Longrightarrow> owes enc p v = owes enc p w"
  by (simp add: owes_def)

lemma owes_sys: "owes enc p w \<Longrightarrow> leaves (\<lambda>_. owes enc p) (settled enc) (sys c w)"
  by (auto simp: sys_def Let_def owes_settled owes_cong[of "w\<lparr>answers := as\<rparr>" w for as]
      owes_cong[of "w\<lparr>answers := as, errno := e\<rparr>" w for as e] split: list.split answer.split)


lemma owes_wait: "owes enc p w \<Longrightarrow> leaves (\<lambda>_. owes enc p) (settled enc) (sys_wait w)"
  by (auto simp: sys_wait_def owes_settled owes_cong[of "w\<lparr>answers := as\<rparr>" w for as]
      owes_cong[of "w\<lparr>answers := as, errno := e\<rparr>" w for as e] split: list.split answer.split)

text \<open>What is read is owed from then on.\<close>

lemma owes_read:
  assumes "owes enc p w"
  shows "leaves (\<lambda>(_, bs). owes enc (p(fd := p fd @ map enc bs))) (settled enc) (sys_read fd n w)"
proof -
  have "owes enc (p(fd := p fd @ map enc bs)) (log_event (ERead fd bs) (w\<lparr>rx := r\<rparr>))" for bs r
  proof -
    have "subseq (bytes_sent f (trace w) @ p f @ map enc bs) (map enc (bytes_read f (trace w)) @ map enc bs)" for f
      using assms by (simp add: owes_def flip: append_assoc)
    moreover note owes_sent[OF assms]
    ultimately show ?thesis using assms by (auto simp: owes_def intro: subseq_rev_drop_many)
  qed
  then show ?thesis using assms
    by (auto simp: sys_read_def owes_settled owes_cong[of "w\<lparr>rx := r, errno := e\<rparr>" w for r e]
        split: option.split sum.split)
qed

text \<open>What the kernel has taken is not owed any more.\<close>

lemma owes_write:
  assumes "owes enc p w" and "p fd = bs"
  shows "leaves (\<lambda>r. owes enc (p(fd := drop (nat r) bs))) (settled enc) (sys_write fd bs w)"
proof -
  have "owes enc (p(fd := drop (nat r) bs)) (log_event (EWrite fd bs r) v)" if "trace v = trace w" for r v
  proof -
    have owed: "subseq (bytes_sent f (trace w) @ p f) (map enc (bytes_read f (trace w)))" for f
      using assms(1) by (simp add: owes_def)
    have "subseq (bytes_sent f (trace w) @ take k (p f)) (bytes_sent f (trace w) @ p f)" for f k
      by (simp add: subseq_append' prefix_imp_subseq take_is_prefix)
    then have part: "subseq (bytes_sent f (trace w) @ take k (p f)) (map enc (bytes_read f (trace w)))" for f k
      using owed subseq_order.order_trans by blast
    from owed[of fd] part[of fd "nat r"] owed part[of _ 0] assms that show ?thesis
      by (auto simp: owes_def)
  qed
  note step = this
  have "owes enc p (log_event (EWrite fd bs (-1)) v)" if "trace v = trace w" for v
    using step[OF that, of "-1"] assms(2) by auto
  moreover have "owes enc (p(fd := [])) (log_event (EWrite fd bs (int (length bs))) v)" if "trace v = trace w" for v
    using step[OF that, of "int (length bs)"] by simp
  ultimately show ?thesis using assms step
    by (auto simp: sys_write_def Let_def owes_settled split: list.split answer.split)
qed


subsection \<open>Actions that keep the promise\<close>

definition promise :: "(byte \<Rightarrow> byte) \<Rightarrow> 'a io \<Rightarrow> bool" where
  "promise enc m \<longleftrightarrow> (\<forall>w. settled enc w \<longrightarrow> settled enc (snd (m w)))"

lemma promiseD: "promise enc m \<Longrightarrow> settled enc w \<Longrightarrow> settled enc (snd (m w))"
  by (simp add: promise_def)

lemma leaves_const [simp]: "leaves (\<lambda>_. S) S r \<longleftrightarrow> S (snd r)"
  by (cases r; cases "fst r") auto

lemma promise_basic:
  "promise enc (ret x)" "promise enc (die c)" "promise enc (fault e)" "promise enc (print s)" "promise enc get_errno"
  "promise enc (sys c')" "promise enc sys_wait" "promise enc (of_outcome r)"
  "promise enc f \<Longrightarrow> promise enc g \<Longrightarrow> promise enc (if b then f else g)"
  by (auto simp: promise_def settled_log settled_cong sys_def sys_wait_def Let_def split: list.split answer.split)

lemma promise_pair: "(\<And>a b. promise enc (f a b)) \<Longrightarrow> promise enc (case x of (a, b) \<Rightarrow> f a b)"
  by (cases x) simp

lemma promise_bnd: "promise enc m \<Longrightarrow> (\<And>x. promise enc (f x)) \<Longrightarrow> promise enc (bnd m f)"
  unfolding promise_def leaves_const[symmetric] by (blast intro: leaves_bnd)

declare promise_basic [io_intros] promise_bnd [io_intros] promise_pair [io_intros]

lemma promise_read:
  assumes "\<And>r bs w v. sys_read fd n w = (Ret (r, bs), v) \<Longrightarrow> owes enc ((\<lambda>_. [])(fd := map enc bs)) v \<Longrightarrow>
    settled enc (snd (f (r, bs) v))"
  shows "promise enc (bnd (sys_read fd n) f)"
  unfolding promise_def
proof (intro allI impI)
  fix w assume "settled enc w"
  note o = owes_read[OF settled_owes[OF this], of fd n, unfolded append_Nil]
  have "leaves (\<lambda>_. settled enc) (settled enc) (bnd (sys_read fd n) f w)"
    by (rule leaves_bnd, rule o) (use assms in auto)
  then show "settled enc (snd (bnd (sys_read fd n) f w))" by simp
qed

text \<open>The answer to a segment that has just been read.\<close>

lemma owes_print_received:
  "owes enc p w \<Longrightarrow> leaves (\<lambda>_. owes enc p) (settled enc) (print_received tag n bs w)"
  by (simp add: print_received_def owes_settled)

lemma settled_write:
  assumes "owes enc (p(fd := bs)) w" and "\<And>r v. sys_write fd bs w = (Ret r, v) \<Longrightarrow> settled enc v \<Longrightarrow>
    settled enc (snd (f r v))"
  shows "settled enc (snd (bnd (sys_write fd bs) f w))"
proof -
  have "leaves (\<lambda>_. settled enc) (settled enc) (bnd (sys_write fd bs) f w)"
    by (rule leaves_bnd, rule owes_write, rule assms(1), simp) (use assms(2) owes_settled in auto)
  then show ?thesis by simp
qed

lemma settled_answer:
  assumes "owes enc (p(fd := map enc bs)) w"
    and "\<And>v r u. print_received tag n bs w = (Ret (), v) \<Longrightarrow> sys_write fd (map enc bs) v = (Ret r, u) \<Longrightarrow>
      settled enc u \<Longrightarrow> settled enc (snd (f r u))"
  shows "settled enc (snd (bnd (print_received tag n bs) (\<lambda>_ w. bnd (sys_write fd (map enc bs)) f w) w))"
proof -
  have "leaves (\<lambda>_. settled enc) (settled enc)
    (bnd (print_received tag n bs) (\<lambda>_ w. bnd (sys_write fd (map enc bs)) f w) w)"
    by (rule leaves_bnd, rule owes_print_received, rule assms(1)) (auto intro!: settled_write assms(2))
  then show ?thesis by simp
qed

subsection \<open>The blocking servers\<close>

lemma settled_connection_loop:
  "settled rot13_char w \<Longrightarrow> settled rot13_char (snd (connection_loop tid fd w))"
proof (induction tid fd w rule: connection_loop.induct)
  case (1 tid fd w)
  let ?tag = "bytes ''[tid:'' @ dec tid @ bytes ''] ''"
  have bye: "promise rot13_char (bnd (print (bytes ''client closed \<newline>'')) (\<lambda>_. bnd (sys (Close fd)) (\<lambda>_. ret ())))"
    by (intro io_intros)
  have "leaves (\<lambda>_. settled rot13_char) (settled rot13_char) (connection_loop tid fd w)"
  proof (subst connection_loop.simps, rule leaves_bnd, rule owes_read, rule settled_owes, rule "1.prems", clarify)
    fix r bs v
    assume rd: "sys_read fd MAX_LINE w = (Ret (r, bs), v)"
      and "owes rot13_char ((\<lambda>_. [])(fd := [] @ map rot13_char bs)) v"
    then have v: "owes rot13_char ((\<lambda>_. [])(fd := map rot13_char bs)) v" by simp
    consider "r < 0" | "r = 0" | "0 < r" by linarith
    then show "leaves (\<lambda>_. settled rot13_char) (settled rot13_char) (if r < 0 then die 1 v
      else if r = 0 then bnd (print (bytes ''client closed \<newline>'')) (\<lambda>_. bnd (sys (Close fd)) (\<lambda>_. ret ())) v
      else bnd (print_received ?tag r bs) (\<lambda>_ w.
        bnd (sys_write fd (map rot13_char bs)) (\<lambda>r w. if r < 0 then die 1 w else connection_loop tid fd w) w) v)"
    proof cases
      case 3
      from settled_answer[OF v, of ?tag r "\<lambda>r w. if r < 0 then die 1 w else connection_loop tid fd w"]
        "1.IH"[OF rd refl] 3 show ?thesis by auto
    qed (use promiseD[OF bye] owes_settled[OF v] in simp_all)
  qed
  then show ?case by simp
qed

text \<open>The child's loop does the same, and printing does not matter.\<close>

lemma bytes_silent: "bytes_sent fd (silent es) = bytes_sent fd es" "bytes_read fd (silent es) = bytes_read fd es"
  by (induction es rule: bytes_sent.induct) (auto simp: silent_def split: event.splits)

lemma echoes_all: "echoes enc es \<Longrightarrow> subseq (bytes_sent fd es) (map enc (bytes_read fd es))"
  by (simp add: echoes_def)

lemma echoes_silent: "echoes enc (silent es) \<longleftrightarrow> echoes enc es"
proof (induction es rule: rev_induct)
  case (snoc e es)
  have "silent [ECall n p] = [ECall n p]" for n p by (simp add: silent_def)
  with snoc echoes_all[of enc es] show ?case by (cases e) (auto simp: bytes_silent)
qed simp

lemma echoes_prefix: "echoes enc (es @ es') \<Longrightarrow> echoes enc es"
  by (auto simp: echoes_def)

lemma promise_child_run: "promise rot13_char (child_run pid fd)"
  unfolding promise_def
proof (intro allI impI)
  fix w
  assume "settled rot13_char w"
  then have "settled rot13_char (snd (connection_loop 0 fd w))" by (rule settled_connection_loop)
  moreover have "alike w w" by (simp add: alike_def)
  from worker_child_alike[OF this, of 0 fd pid]
  have "silent (trace (snd (connection_loop 0 fd w))) =
      silent (trace (snd (bnd (child_run pid fd) (\<lambda>_. bnd (sys (Close fd)) (\<lambda>_. ret ())) w)))"
    by (simp add: alike_def)
  ultimately have "echoes rot13_char (trace (snd (bnd (child_run pid fd) (\<lambda>_. bnd (sys (Close fd)) (\<lambda>_. ret ())) w)))"
    unfolding settled_def by (metis echoes_silent)
  moreover obtain x v where "child_run pid fd w = (x, v)" by (cases "child_run pid fd w")
  moreover have "\<exists>es. trace (snd (bnd (sys (Close fd)) (\<lambda>_. ret ()) v)) = trace v @ es"
    by (auto simp: bnd_def sys_def split: list.split answer.split)
  ultimately show "settled rot13_char (snd (child_run pid fd w))"
    by (cases x) (auto simp: settled_def dest: echoes_prefix)
qed

lemma promise_connection_loop: "promise rot13_char (connection_loop tid fd)"
  by (simp add: promise_def settled_connection_loop)

lemma promise_create_tcp_server: "promise enc (create_tcp_server port)"
  unfolding create_tcp_server_def by (intro io_intros)

lemma promise_process_server: "promise rot13_char (process_server_main k pid)"
proof -
  have "promise rot13_char (process_server_loop k pid lfd)" for lfd
    by (induction k) (simp_all only: process_server_loop.simps process_server_turn_def, (intro io_intros promise_child_run)+)
  then show ?thesis unfolding process_server_main_def process_server_listen_def
    by (intro io_intros promise_create_tcp_server)
qed

subsection \<open>The \<open>poll\<close> and the \<open>epoll\<close> server\<close>

lemma promise_epoll_event: "promise rot13_char (epoll_server_event lfd efd ev)"
proof -
  have "promise rot13_char (bnd (sys_read fd MAX_LINE) (\<lambda>(received_num, buf).
       if received_num < 0 then ret ()
       else if received_num = 0 then
         bnd (sys (Close fd)) (\<lambda>_.
         bnd (sys (EpollCtl efd ''EPOLL_CTL_DEL'' fd (unat EPOLLIN))) (\<lambda>_.
         print (bytes ''client closed \<newline>'')))
       else bnd (print_received [] received_num buf) (\<lambda>_.
         bnd (sys_write fd (map rot13_char buf)) (\<lambda>_. ret ()))))" for fd
  proof (rule promise_read, clarify)
    fix r bs v
    assume o: "owes rot13_char ((\<lambda>_. [])(fd := map rot13_char bs)) v"
    have q: "promise rot13_char (bnd (sys (Close fd)) (\<lambda>_. bnd (sys (EpollCtl efd ''EPOLL_CTL_DEL'' fd (unat EPOLLIN)))
      (\<lambda>_. print (bytes ''client closed \<newline>''))))" by (intro io_intros)
    from settled_answer[OF o, of "[]" r "\<lambda>_. ret ()"] promiseD[OF q owes_settled[OF o]] owes_settled[OF o]
    show "settled rot13_char (snd ((if r < 0 then ret ()
      else if r = 0 then bnd (sys (Close fd)) (\<lambda>_. bnd (sys (EpollCtl efd ''EPOLL_CTL_DEL'' fd (unat EPOLLIN)))
        (\<lambda>_. print (bytes ''client closed \<newline>'')))
      else bnd (print_received [] r bs) (\<lambda>_. bnd (sys_write fd (map rot13_char bs)) (\<lambda>_. ret ()))) v))"
      by auto
  qed
  note read = this[unfolded case_prod_beta]
  show ?thesis unfolding epoll_server_event_def Let_def case_prod_beta by (intro io_intros read)
qed

lemma promise_epoll_server: "promise rot13_char (epoll_server_main k)"
proof -
  have "promise rot13_char (epoll_server_events lfd efd evs)" for lfd efd evs
    by (induction evs) (simp_all only: epoll_server_events.simps, (intro io_intros promise_epoll_event | assumption)+)
  then have "promise rot13_char (epoll_server_loop k lfd efd)" for lfd efd
    by (induction k) (simp_all only: epoll_server_loop.simps, (intro io_intros | assumption | blast)+)
  then show ?thesis unfolding epoll_server_main_def epoll_server_listen_def
    by (intro io_intros promise_create_tcp_server)
qed

lemma promise_poll_serve: "promise id (poll_server_serve p)"
  unfolding poll_server_serve_def
proof (rule promise_read, clarify)
  fix r :: int and bs v
  assume o: "owes id ((\<lambda>_. [])(pf_fd p := map id bs)) v"
  let ?rest = "bnd get_errno (\<lambda>e. if r = 0 \<or> e = ECONNRESET
    then bnd (sys (Close (pf_fd p))) (\<lambda>_. ret (p\<lparr>pf_fd := -1\<rparr>)) else die 1)"
  have q: "promise id ?rest" by (intro io_intros)
  have "settled id (snd (bnd (sys_write (pf_fd p) bs) (\<lambda>r. if r < 0 then die 1 else ret p) v))"
    by (rule settled_write, rule o[unfolded list.map_id]) simp
  with promiseD[OF q owes_settled[OF o]]
  show "settled id (snd ((if r > 0 then bnd (sys_write (pf_fd p) bs) (\<lambda>r. if r < 0 then die 1 else ret p)
    else ?rest) v))" by simp
qed

lemma promise_poll_server: "promise id (poll_server_main k junk)"
proof -
  have scan: "promise id (poll_server_scan rs ps i n)" for rs ps i n
    by (induction ps arbitrary: i n)
      (simp_all only: poll_server_scan.simps, (intro io_intros promise_poll_serve | assumption)+)
  have acc: "promise id (poll_server_accept lfd fds)" for lfd fds
    unfolding poll_server_accept_def Let_def by (intro io_intros)
  have turn: "promise id (poll_server_turn lfd fds)" for lfd fds
    unfolding poll_server_turn_def by (intro io_intros scan acc)
  have "promise id (poll_server_loop k lfd fds)" for lfd fds
    by (induction k arbitrary: fds) (simp_all only: poll_server_loop.simps, (intro io_intros turn | simp only:)+)
  then show ?thesis unfolding poll_server_main_def poll_server_listen_def
    by (intro io_intros promise_create_tcp_server)
qed


subsection \<open>The \<open>select\<close> server\<close>

text \<open>Between the events of a client the server owes what its buffer holds.\<close>

lemma take_in_owes:
  assumes "buffer_ok b" and "owes rot13_char (p(fd := pending b @ map rot13_char bs)) w"
  shows "owes rot13_char (p(fd := pending (take_in bs b))) w"
proof (rule owes_less[OF assms(2)])
  fix f
  have "subseq (map rot13_char (take k bs)) (map rot13_char bs)" for k
    by (intro subseq_map prefix_imp_subseq take_is_prefix)
  then show "subseq ((p(fd := pending (take_in bs b))) f) ((p(fd := pending b @ map rot13_char bs)) f)"
    using take_in_spec[OF assms(1), of bs] by (simp add: subseq_append')
qed

lemma readable_owes:
  "buffer_ok b \<Longrightarrow> owes rot13_char (p(fd := pending b)) w \<Longrightarrow>
     leaves (\<lambda>(r, b'). owes rot13_char (p(fd := pending b'))) (settled rot13_char) (on_socket_readable fd b w)"
proof (induction fd b w rule: on_socket_readable.induct)
  case (1 fd b w)
  let ?P = "\<lambda>(r :: int, b'). owes rot13_char (p(fd := pending b'))"
  show ?case
  proof (subst on_socket_readable.simps, rule leaves_bnd, rule owes_read, rule "1.prems"(2), clarify)
    fix r bs v
    assume rd: "sys_read fd MAX_LINE w = (Ret (r, bs), v)"
      and "owes rot13_char (p(fd := pending b, fd := (p(fd := pending b)) fd @ map rot13_char bs)) v"
    then have v: "owes rot13_char (p(fd := pending b @ map rot13_char bs)) v" by simp
    then have less: "owes rot13_char (p(fd := pending b)) v" by (rule owes_less) auto
    consider "r < 0" | "r = 0" | "0 < r" by linarith
    then show "leaves ?P (settled rot13_char) (if r = 0 then ret (1, b) v
      else if r < 0 then bnd get_errno (\<lambda>e. ret (if e = EAGAIN then 0 else -1, b)) v
      else on_socket_readable fd (take_in bs b) v)"
    proof cases
      case 3
      then have "r \<noteq> 0" "\<not> r < 0" by simp_all
      from "1.IH"[OF rd refl this take_in_ok[OF "1.prems"(1)] take_in_owes[OF "1.prems"(1) v]] this
      show ?thesis by (simp only: if_False)
    qed (use less in simp_all)
  qed
qed

lemma writable_owes:
  "buffer_ok b \<Longrightarrow> owes rot13_char (p(fd := pending b)) w \<Longrightarrow>
     leaves (\<lambda>(r, b'). owes rot13_char (p(fd := pending b'))) (settled rot13_char) (on_socket_writable fd b w)"
proof (induction fd b w rule: on_socket_writable.induct)
  case (1 fd b w)
  let ?P = "\<lambda>(r :: int, b'). owes rot13_char (p(fd := pending b'))"
  let ?out = "take (b_write_idx b - b_read_idx b) (drop (b_read_idx b) (b_buf b))"
  show ?case
  proof (cases "b_read_idx b < b_write_idx b")
    case False
    from "1.prems"(2) have "owes rot13_char (p(fd := [])) w" by (rule owes_less) auto
    with False "1.prems" show ?thesis
      by (subst on_socket_writable.simps) (auto simp: pending_def)
  next
    case more: True
    have "leaves ?P (settled rot13_char) (bnd (sys_write fd ?out) (\<lambda>r w.
        if r < 0 then bnd get_errno (\<lambda>e. ret (if e = EAGAIN then 0 else -1, b)) w
        else on_socket_writable fd (b\<lparr>b_read_idx := b_read_idx b + nat r\<rparr>) w) w)"
    proof (rule leaves_bnd, rule owes_write, rule "1.prems"(2), simp add: pending_def)
      fix k v
      assume wr: "sys_write fd ?out w = (Ret k, v)"
        and "owes rot13_char (p(fd := pending b, fd := drop (nat k) ?out)) v"
      then have v: "owes rot13_char (p(fd := drop (nat k) ?out)) v" by simp
      let ?b = "b\<lparr>b_read_idx := b_read_idx b + nat k\<rparr>"
      show "leaves ?P (settled rot13_char) (if k < 0 then bnd get_errno (\<lambda>e. ret (if e = EAGAIN then 0 else -1, b)) v
        else on_socket_writable fd ?b v)"
      proof (cases "k < 0")
        case True
        with v show ?thesis by (simp add: pending_def)
      next
        case False
        have "k \<le> int (length ?out)" using sys_write_result[OF wr] by blast
        then have "nat k \<le> b_write_idx b - b_read_idx b" by simp
        then have ok: "buffer_ok ?b" using "1.prems"(1) more by (auto simp: buffer_ok_def)
        have "pending ?b = drop (nat k) ?out" by (simp add: pending_def drop_take add.commute)
        with v have "owes rot13_char (p(fd := pending ?b)) v" by simp
        from "1.IH"[OF more wr False ok this] False show ?thesis by (simp only: if_False)
      qed
    qed
    with more show ?thesis by (subst on_socket_writable.simps) simp
  qed
qed

definition pendings :: "buffer list \<Rightarrow> int \<Rightarrow> byte list" where
  "pendings bufs fd = (if 0 \<le> fd \<and> nat fd < length bufs then pending (bufs ! nat fd) else [])"

lemma pendings_update:
  "i < length bufs \<Longrightarrow> pendings (bufs[i := b]) = (pendings bufs)(int i := pending b)"
  by (auto simp: pendings_def fun_eq_iff nth_list_update)

lemma pendings_same: "i < length bufs \<Longrightarrow> (pendings bufs)(int i := pending (bufs ! i)) = pendings bufs"
  by (auto simp: pendings_def fun_eq_iff)

text \<open>The number a buffer belongs to does not change what it owes.\<close>

lemma pendings_fd: "pendings (bufs[i := (bufs ! i)\<lparr>b_fd := c\<rparr>]) = pendings bufs"
  by (cases "i < length bufs") (auto simp: pendings_def pending_def fun_eq_iff nth_list_update)

definition server_owes :: "buffer list \<Rightarrow> world \<Rightarrow> bool" where
  "server_owes bufs w \<longleftrightarrow> slots_ok bufs \<and> owes rot13_char (pendings bufs) w"

lemma server_owes_handler:
  assumes "server_owes bufs w" and "i < FD_MAX_SIZE"
    and "leaves (\<lambda>(r, b'). owes rot13_char ((pendings bufs)(int i := pending b'))) (settled rot13_char) (m w)"
    and "ends (\<lambda>(r, b'). buffer_ok b' \<and> b_fd b' = b_fd (bufs ! i)) (\<lambda>_. True) (m w)"
  shows "leaves (\<lambda>(r, bufs'). server_owes bufs') (settled rot13_char)
    (bnd m (\<lambda>(err, b). ret (err, bufs[i := b])) w)"
proof (rule leaves_bnd, rule leaves_ends[OF assms(4,3)], clarify)
  fix r b v
  assume b: "buffer_ok b" "b_fd b = b_fd (bufs ! i)" "owes rot13_char ((pendings bufs)(int i := pending b)) v"
  have "length bufs = FD_MAX_SIZE" using assms(1) by (simp add: server_owes_def slots_ok_def)
  with slots_ok_update[of bufs b i] b assms(1,2)
  show "leaves (\<lambda>(r, bufs'). server_owes bufs') (settled rot13_char) (ret (r, bufs[i := b]) v)"
    by (auto simp: server_owes_def slots_ok_def pendings_update)
qed


lemma leaves_sys:
  assumes "owes enc p w" and "\<And>r v. owes enc p v \<Longrightarrow> leaves Q (settled enc) (f r v)"
  shows "leaves Q (settled enc) (bnd (sys c) f w)"
  by (rule leaves_bnd, rule owes_sys, rule assms(1), rule assms(2))

lemma accept_owes:
  assumes "server_owes bufs w"
  shows "leaves server_owes (settled rot13_char) (accept_step lfd bufs w)"
proof -
  let ?P = "\<lambda>bufs. owes rot13_char (pendings bufs)"
  have o: "owes rot13_char (pendings bufs) (log_event (EPrint s) w)" for s
    using assms by (simp add: server_owes_def)
  have "leaves ?P (settled rot13_char) (accept_step lfd bufs w)"
    unfolding accept_step_def
  proof (rule leaves_bnd[where P = "\<lambda>_. owes rot13_char (pendings bufs)"])
    show "leaves (\<lambda>_. owes rot13_char (pendings bufs)) (settled rot13_char)
      (print (bytes ''client connected \<newline>'') w)" using o by simp
  qed (auto intro!: leaves_sys[where p = "pendings bufs"] simp: owes_settled pendings_fd)
  with accept_ends[of bufs lfd w] assms show ?thesis
    unfolding server_owes_def[abs_def] using leaves_ends by blast
qed

lemma serve_fd_owes:
  assumes "server_owes bufs w" and "int i \<in> fst ready \<union> snd ready \<longrightarrow> i < FD_MAX_SIZE"
  shows "leaves server_owes (settled rot13_char) (serve_fd ready i bufs w)"
proof (cases "int i \<in> fst ready \<union> snd ready")
  case False
  then show ?thesis using assms(1) by (simp add: serve_fd_def)
next
  case True
  with assms(2) have i: "i < FD_MAX_SIZE" by blast
  let ?P = "\<lambda>(err :: int, bufs'). server_owes bufs'"
  have facts: "length bs = FD_MAX_SIZE" "buffer_ok (bs ! i)" "owes rot13_char ((pendings bs)(int i := pending (bs ! i))) v"
    if "server_owes bs v" for bs v using that i by (auto simp: server_owes_def slots_ok_def pendings_same)
  have handler: "leaves ?P (settled rot13_char) ((if b then (if i \<ge> length bs then fault OutOfBounds
      else bnd (h (int i) (bs ! i)) (\<lambda>(err, b). ret (err, bs[i := b]))) else ret (err, bs)) v)"
    if "server_owes bs v" "h = on_socket_readable \<or> h = on_socket_writable" for b h err bs v
    using server_owes_handler[OF that(1) i, of "h (int i) (bs ! i)"] that facts[OF that(1)] i
      readable_owes[of "bs ! i" "pendings bs" "int i" v] writable_owes[of "bs ! i" "pendings bs" "int i" v]
      readable_ends[of "bs ! i"] writable_ends[of "bs ! i"] by auto
  show ?thesis unfolding serve_fd_def
  proof (rule leaves_bnd, rule handler[OF assms(1)], simp, clarify)
    fix err bufs' v assume so: "server_owes bufs' v"
    let ?close = "\<lambda>(err :: int, bufs). if err \<noteq> 0
      then (if i \<ge> length bufs then fault OutOfBounds
            else bnd (sys (Close (int i))) (\<lambda>_. ret (bufs[i := (bufs ! i)\<lparr>b_fd := 0\<rparr>])))
      else ret bufs"
    have close: "leaves server_owes (settled rot13_char) (?close (err, bs) v)" if "server_owes bs v" for err bs v
    proof -
      have "slots_ok (bs[i := (bs ! i)\<lparr>b_fd := 0\<rparr>])"
        using that i by (intro slots_ok_update) (auto simp: server_owes_def slots_ok_def buffer_ok_def)
      then have "leaves server_owes (settled rot13_char) (bnd (sys (Close (int i))) (\<lambda>_. ret (bs[i := (bs ! i)\<lparr>b_fd := 0\<rparr>])) v)"
        using that by (intro leaves_sys[where p = "pendings bs"]) (auto simp: server_owes_def pendings_fd)
      then show ?thesis using that facts(1)[OF that] i by simp
    qed
    show "leaves server_owes (settled rot13_char) (bnd (if err = 0 \<and> int i \<in> snd ready
        then (if i \<ge> length bufs' then fault OutOfBounds
              else bnd (on_socket_writable (int i) (bufs' ! i)) (\<lambda>(err, b). ret (err, bufs'[i := b])))
        else ret (err, bufs')) ?close v)"
      by (rule leaves_bnd, rule handler[OF so], simp, simp only: split_paired_all, rule close, simp only: prod.case)
  qed
qed

lemma serve_all_owes:
  assumes "ready_ok lfd ready"
  shows "server_owes bufs w \<Longrightarrow> leaves server_owes (settled rot13_char) (serve_all lfd ready is bufs w)"
proof (induction "is" arbitrary: bufs w)
  case Nil
  then show ?case by simp
next
  case (Cons i "is")
  show ?case
  proof (cases "int i = lfd")
    case False
    then have "int i \<in> fst ready \<union> snd ready \<longrightarrow> i < FD_MAX_SIZE" using assms by (auto simp: ready_ok_def)
    from serve_fd_owes[OF Cons.prems this]
    have "leaves server_owes (settled rot13_char) (bnd (serve_fd ready i bufs) (serve_all lfd ready is) w)"
      by (rule leaves_bnd) (rule Cons.IH)
    with False show ?thesis by simp
  qed (use Cons in simp)
qed

lemma select_turn_owes:
  assumes so: "server_owes bufs w"
  shows "leaves server_owes (settled rot13_char) (select_turn lfd bufs w)"
proof -
  obtain rd wr m where wt: "watched lfd bufs = (rd, wr, m)" by (cases "watched lfd bufs")
  from so have bufs: "slots_ok bufs" "owes rot13_char (pendings bufs) w" by (simp_all add: server_owes_def)
  show ?thesis unfolding select_turn_def wt prod.case
  proof (rule leaves_bnd, rule owes_wait, rule bufs(2), clarify)
    fix r rs v
    assume v: "owes rot13_char (pendings bufs) v"
    let ?ready = "select_sets rd wr rs"
    have so': "server_owes bufs v" using bufs v by (simp add: server_owes_def)
    have "leaves server_owes (settled rot13_char) (bnd (if lfd \<in> fst ?ready then accept_step lfd bufs else ret bufs)
        (serve_all lfd ?ready [0..<nat (m + 1)]) v)"
      by (rule leaves_bnd[OF _ serve_all_owes[OF select_sets_ok[OF bufs(1) wt]]])
        (use accept_owes[OF so'] so' in auto)
    then show "leaves server_owes (settled rot13_char) ((if r < 0 then die 1
        else let ready = ?ready in
          bnd (if lfd \<in> fst ready then accept_step lfd bufs else ret bufs)
            (\<lambda>bufs. serve_all lfd ready [0..<nat (m + 1)] bufs)) v)"
      using owes_settled[OF v] by (simp add: Let_def)
  qed
qed

lemma promise_select_server:
  assumes "\<And>i junk. blocks i = Some junk \<Longrightarrow> length junk = MAX_LINE"
  shows "promise rot13_char (select_server_main k blocks)"
proof -
  have loop: "leaves server_owes (settled rot13_char) (select_loop k lfd bufs w)" if "server_owes bufs w" for k lfd bufs w
    using that
  proof (induction k arbitrary: bufs w)
    case (Suc k)
    have "leaves server_owes (settled rot13_char) (bnd (select_turn lfd bufs) (select_loop k lfd) w)"
      by (rule leaves_bnd, rule select_turn_owes, rule Suc.prems, rule Suc.IH)
    then show ?case by simp
  qed simp
  have start: "promise rot13_char (select_loop k lfd bufs)" if bufs: "alloc_buffers blocks = Some bufs" for lfd bufs
  proof -
    have "pendings bufs = (\<lambda>_. [])"
    proof
      fix fd
      have "pending (bufs ! i) = []" if "i < length bufs" for i
        using alloc_buffers_Some[OF bufs, of i] alloc_buffers_length[OF bufs] that
        by (auto simp: empty_buffer_def pending_def)
      then show "pendings bufs fd = []" by (auto simp: pendings_def)
    qed
    then have "server_owes bufs w" if "settled rot13_char w" for w
      using slots_ok_alloc[OF bufs assms] settled_owes[OF that] by (simp add: server_owes_def)
    from leaves_weaken[OF loop[OF this], of _ "\<lambda>_. settled rot13_char"]
    show ?thesis unfolding promise_def server_owes_def using owes_settled by (metis leaves_const)
  qed
  have "promise rot13_char (case alloc_buffers blocks of None \<Rightarrow> fault NullDeref | Some bufs \<Rightarrow> select_loop k lfd bufs)" for lfd
    using start by (cases "alloc_buffers blocks") (auto intro: io_intros)
  moreover have "promise rot13_char (create_nonblocking_tcp_server 8022)"
    unfolding create_nonblocking_tcp_server_def by (intro io_intros)
  ultimately show ?thesis unfolding select_server_main_def by (intro promise_bnd)
qed


text \<open>
  C5.  Whatever the clients and the network do, at every moment and on every descriptor the bytes that
  the \<open>select\<close> server has sent are bytes it has received before on this descriptor, encoded by ROT13,
  in the order of their arrival and none of them twice; only bytes that find the buffer full are left
  out.  This holds for any number of turns and however the server ends.
\<close>

theorem select_server_echoes:
  assumes "\<forall>i junk. blocks i = Some junk \<longrightarrow> length junk = MAX_LINE" and "trace w = []"
    and "select_server_main k blocks w = (r, w')"
    and "prefix es (trace w')"
  shows "subseq (bytes_sent fd es) (map rot13_char (bytes_read fd es))"
proof -
  have "promise rot13_char (select_server_main k blocks)" using assms(1) by (intro promise_select_server) blast
  from promiseD[OF this, of w] assms(2-4) show ?thesis by (simp add: settled_def echoes_def)
qed

text \<open>A run in which a client is accepted.\<close>

theorem select_server_echoes_witness:
  "\<exists>bufs w'. select_server_main 1 (\<lambda>_. Some (replicate MAX_LINE 0)) \<lparr>rx = (\<lambda>_. []), answers = [AOk 3, AOk 0, AOk 0,
      AOk 0, AOk 0, AReady [(3, 1)], AOk 5, AOk 0], errno = 0, trace = []\<rparr> = (Ret bufs, w') \<and>
    b_fd (bufs ! 5) = 5 \<and> subseq (bytes_sent 5 (trace w')) (map rot13_char (bytes_read 5 (trace w')))"
proof -
  define bufs where "bufs = replicate FD_MAX_SIZE (empty_buffer (replicate MAX_LINE 0))"
  let ?w = "\<lparr>rx = (\<lambda>_. []), answers = [AOk 3, AOk 0, AOk 0, AOk 0, AOk 0, AReady [(3, 1)], AOk 5, AOk 0],
    errno = 0, trace = []\<rparr>"
  have b: "length bufs = FD_MAX_SIZE" "b_fd (bufs ! 5) = 0"
    by (simp_all add: bufs_def empty_buffer_def FD_MAX_SIZE_def del: replicate.simps)
  have "watched 3 (replicate n (empty_buffer j)) = ([3], [], 3)" for n j
    by (induction n) (simp_all add: empty_buffer_def)
  then have wt: "watched 3 bufs = ([3], [], 3)" by (simp add: bufs_def)
  have idle: "serve_all 3 (select_sets [3] [] rs) is bs v = (Ret bs, v)" for "is" rs bs v
    by (induction "is") (auto simp: serve_fd_def select_sets_def)
  let ?b5 = "bufs[5 := (bufs ! 5)\<lparr>b_fd := 5\<rparr>]"
  have acc: "\<exists>u. accept_step 3 bufs v = (Ret ?b5, u)" if "answers v = [AOk 5, AOk 0]" for v
    using that by (simp add: accept_step_def sys_def b FD_MAX_SIZE_def)
  have turn: "\<exists>u. select_turn 3 bufs v = (Ret ?b5, u)" if ans: "answers v = [AReady [(3, 1)], AOk 5, AOk 0]" for v
  proof -
    let ?v = "v\<lparr>answers := [AOk 5, AOk 0]\<rparr>"
    obtain u where u: "accept_step 3 bufs ?v = (Ret ?b5, u)" using acc[of ?v] by auto
    have "sys_wait v = (Ret (1, [(3, 1)]), ?v)" using ans by (simp add: sys_wait_def)
    moreover have "3 \<in> fst (select_sets [3] [] [(3, 1)])" by (simp add: select_sets_def revents_def)
    ultimately have "select_turn 3 bufs v = (Ret ?b5, u)"
      by (simp add: select_turn_def wt u idle)
    then show ?thesis by blast
  qed
  have listen: "create_nonblocking_tcp_server 8022 ?w = (Ret 3, v) \<Longrightarrow> answers v = [AReady [(3, 1)], AOk 5, AOk 0]" for v
    by (auto simp: create_nonblocking_tcp_server_def sys_def)
  obtain v where v: "create_nonblocking_tcp_server 8022 ?w = (Ret 3, v)"
    by (simp add: create_nonblocking_tcp_server_def sys_def)
  obtain u where "select_turn 3 bufs v = (Ret ?b5, u)" using turn[OF listen[OF v]] by blast
  with v have "\<exists>w'. select_server_main 1 (\<lambda>_. Some (replicate MAX_LINE 0)) ?w = (Ret ?b5, w')"
    by (simp add: select_server_main_def alloc_buffers_const flip: bufs_def)
  then obtain w' where run: "select_server_main 1 (\<lambda>_. Some (replicate MAX_LINE 0)) ?w =
    (Ret (bufs[5 := (bufs ! 5)\<lparr>b_fd := 5\<rparr>]), w')" by blast
  from select_server_echoes[OF _ _ run, of "trace w'" 5]
  have "subseq (bytes_sent 5 (trace w')) (map rot13_char (bytes_read 5 (trace w')))" by simp
  with run b show ?thesis by (auto simp: FD_MAX_SIZE_def)
qed

end
