(* ===== verification/Event_Dispatcher.thy ===== *)
theory Event_Dispatcher
  imports Dispatchers
begin

text \<open>
  \<^verbatim>\<open>lib/event_dispatcher.h\<close>: the table of operations through which the event loop is to use a
  dispatcher, the two tables \<^verbatim>\<open>poll_dispatcher\<close> and \<^verbatim>\<open>epoll_dispatcher\<close>, and the contract both keep: the
  operations change nothing of the loop but the dispatcher's own data.
\<close>

record 'd event_dispatcher =
  d_name :: "byte list"
  d_init :: "'d io"
  d_add :: "'d event_loop \<Rightarrow> channel \<Rightarrow> (int \<times> 'd event_loop) io"
  d_del :: "'d event_loop \<Rightarrow> channel \<Rightarrow> (int \<times> 'd event_loop) io"
  d_update :: "'d event_loop \<Rightarrow> channel \<Rightarrow> (int \<times> 'd event_loop) io"
  d_dispatch :: "chan_heap \<Rightarrow> 'd event_loop \<Rightarrow> int io"
  d_clear :: "'d option event_loop \<Rightarrow> 'd option event_loop io"

definition poll_dispatcher :: "16 word \<Rightarrow> poll_data event_dispatcher" where
  "poll_dispatcher junk = \<lparr>d_name = bytes ''poll'', d_init = ret (poll_init junk), d_add = poll_add,
     d_del = poll_del, d_update = poll_update junk, d_dispatch = poll_dispatch,
     d_clear = (\<lambda>el w. (poll_clear el, w))\<rparr>"

definition epoll_dispatcher :: "u32 \<Rightarrow> epoll_data event_dispatcher" where
  "epoll_dispatcher junk = \<lparr>d_name = bytes ''epoll'', d_init = epoll_init,
     d_add = (\<lambda>el c. bnd (epoll_add junk el c) (\<lambda>r. ret (r, el))),
     d_del = (\<lambda>el c. bnd (epoll_del junk el c) (\<lambda>r. ret (r, el))),
     d_update = (\<lambda>el c. bnd (epoll_update junk el c) (\<lambda>r. ret (r, el))),
     d_dispatch = epoll_dispatch, d_clear = epoll_clear\<rparr>"

text \<open>What a client of the table asks for.\<close>

datatype control = AddChannel channel | DelChannel channel | UpdateChannel channel

fun d_control :: "'d event_dispatcher \<Rightarrow> control \<Rightarrow> 'd event_loop \<Rightarrow> (int \<times> 'd event_loop) io" where
  "d_control D (AddChannel c) el = d_add D el c"
| "d_control D (DelChannel c) el = d_del D el c"
| "d_control D (UpdateChannel c) el = d_update D el c"

fun run_controls :: "'d event_dispatcher \<Rightarrow> control list \<Rightarrow> 'd event_loop \<Rightarrow> 'd event_loop io" where
  "run_controls D [] el = ret el"
| "run_controls D (c # cs) el = bnd (d_control D c el) (\<lambda>(_, el). run_controls D cs el)"

subsection \<open>The contract\<close>

locale dispatcher_contract =
  fixes D :: "'d event_dispatcher"
  assumes control: "d_control D c el w = (Ret (r, el'), w') \<Longrightarrow> r = 0 \<and> (\<exists>d. el' = el\<lparr>el_data := d\<rparr>) \<and>
      rx w' = rx w \<and> calls_made (trace w') = calls_made (trace w)"
    and dispatch: "d_dispatch D h el w = (Ret r, w') \<Longrightarrow> r = 0"
begin

lemma controls_keep_loop:
  "run_controls D cs el w = (Ret el', w') \<Longrightarrow> (\<exists>d. el' = el\<lparr>el_data := d\<rparr>) \<and> rx w' = rx w \<and>
     calls_made (trace w') = calls_made (trace w)"
proof (induction cs arbitrary: el w)
  case Nil
  then show ?case by (auto intro!: exI[of _ "el_data el"])
next
  case (Cons c cs)
  from Cons.prems obtain r el1 w1 where 1: "d_control D c el w = (Ret (r, el1), w1)"
    "run_controls D cs el1 w1 = (Ret el', w')" by (auto elim!: bnd_RetE)
  from control[OF 1(1)] Cons.IH[OF 1(2)] show ?case by auto
qed

lemma controls_keep_activation:
  assumes "run_controls D cs el w = (Ret el', w')"
  shows "channel_event_activate h el' = channel_event_activate h el"
proof -
  from controls_keep_loop[OF assms] obtain d where "el' = el\<lparr>el_data := d\<rparr>" by blast
  then show ?thesis by (simp add: fun_eq_iff channel_event_activate_def)
qed

end

lemma set_fds_data: "\<exists>d. set_fds el fds = el\<lparr>el_data := d\<rparr>"
  by (auto simp: set_fds_def)

lemma same_data: "\<exists>d. el = el\<lparr>el_data := d\<rparr>"
  by (rule exI[of _ "el_data el"]) simp

lemma epoll_ctrl_result:
  assumes "epoll_ctrl junk el c op w = (Ret r, w')"
  shows "r = 0 \<and> rx w' = rx w \<and> calls_made (trace w') = calls_made (trace w)"
  using assms by (auto simp: epoll_ctrl_def Let_def sys_def elim!: bnd_RetE split: list.splits answer.splits if_splits)

lemma poll_control_result:
  assumes "d_control (poll_dispatcher junk) c el w = (Ret (r, el'), w')"
  shows "r = 0 \<and> (el' = el \<or> (\<exists>fds. el' = set_fds el fds)) \<and> rx w' = rx w \<and>
    calls_made (trace w') = calls_made (trace w)"
proof (cases c)
  case (AddChannel ch)
  with assms show ?thesis by (simp add: poll_dispatcher_def poll_add_def split: option.splits) auto
next
  case (DelChannel ch)
  with assms show ?thesis by (simp add: poll_dispatcher_def poll_del_def split: option.splits) auto
next
  case (UpdateChannel ch)
  with assms show ?thesis by (simp add: poll_dispatcher_def poll_update_def split: option.splits) auto
qed

interpretation poll_contract: dispatcher_contract "poll_dispatcher junk" for junk
proof (unfold_locales, goal_cases)
  case (1 c el w r el' w')
  from poll_control_result[OF 1] show ?case using set_fds_data same_data by metis
next
  case (2 h el w r w')
  then show ?case
    by (auto simp: poll_dispatcher_def poll_dispatch_def elim!: bnd_RetE split: if_splits)
qed

lemma epoll_control_result:
  assumes "d_control (epoll_dispatcher junk) c el w = (Ret (r, el'), w')"
  shows "el' = el \<and> (\<exists>ch op. epoll_ctrl junk el ch op w = (Ret r, w'))"
  using assms by (cases c) (auto simp: epoll_dispatcher_def epoll_add_def epoll_del_def epoll_update_def
    elim!: bnd_RetE, blast+)

interpretation epoll_contract: dispatcher_contract "epoll_dispatcher junk" for junk
proof (unfold_locales, goal_cases)
  case (1 c el w r el' w')
  from epoll_control_result[OF 1] epoll_ctrl_result same_data show ?case by metis
next
  case (2 h el w r w')
  then show ?case
    by (auto simp: epoll_dispatcher_def epoll_dispatch_def elim!: bnd_RetE)
qed

text \<open>
  C23.  Registering, removing and updating channels with either dispatcher, in any order and however
  often, changes nothing of the loop but the dispatcher's own data: its channel table, its pending
  operations, its threads and its quit flag stay as they are.  No callback is called, nothing is read,
  and afterwards the loop dispatches the events of every descriptor to the channels it did before.
\<close>

theorem controls_keep_channels:
  assumes "run_controls (poll_dispatcher junk) cs pl w = (Ret pl', w')"
    and "run_controls (epoll_dispatcher junk') cs el v = (Ret el', v')"
  shows "(\<exists>d. pl' = pl\<lparr>el_data := d\<rparr>) \<and> (\<exists>d. el' = el\<lparr>el_data := d\<rparr>) \<and>
    channel_event_activate h pl' = channel_event_activate h pl \<and>
    channel_event_activate h el' = channel_event_activate h el \<and>
    calls_made (trace w') = calls_made (trace w) \<and> calls_made (trace v') = calls_made (trace v) \<and>
    rx w' = rx w \<and> rx v' = rx v"
  using poll_contract.controls_keep_activation[OF assms(1)] epoll_contract.controls_keep_activation[OF assms(2)]
    poll_contract.controls_keep_loop[OF assms(1)] epoll_contract.controls_keep_loop[OF assms(2)] by simp

definition demo_channel :: channel where
  "demo_channel = \<lparr>ch_fd = 9, ch_events = 1, ch_data = None, ch_read = 1, ch_write = 2\<rparr>"

theorem controls_keep_channels_witness:
  "\<exists>pl' w' el' v'.
     run_controls (poll_dispatcher 0) [DelChannel demo_channel] (demo_loop (poll_init 0)) demo_world = (Ret pl', w') \<and>
     run_controls (epoll_dispatcher 0) [DelChannel demo_channel] (demo_loop \<lparr>ed_count = 0, ed_nfds = 0,
       ed_realloc_copy = 0, ed_epoll_fd = 4\<rparr>) (demo_world\<lparr>answers := [AOk 0]\<rparr>) = (Ret el', v') \<and>
     (\<exists>d. pl' = (demo_loop (poll_init 0))\<lparr>el_data := d\<rparr>) \<and>
     channel_event_activate Map.empty pl' = channel_event_activate Map.empty (demo_loop (poll_init 0)) \<and>
     calls_made (trace v') = []"
proof -
  let ?d = "demo_loop \<lparr>ed_count = 0, ed_nfds = 0, ed_realloc_copy = 0, ed_epoll_fd = 4\<rparr>"
  from poll_del_result[of "demo_loop (poll_init 0)" demo_channel demo_world] obtain pl' w' where
    "poll_del (demo_loop (poll_init 0)) demo_channel demo_world = (Ret (0, pl'), w')" by blast
  then have p: "run_controls (poll_dispatcher 0) [DelChannel demo_channel] (demo_loop (poll_init 0)) demo_world =
      (Ret pl', w')" by (simp add: poll_dispatcher_def)
  obtain el' v' where e: "run_controls (epoll_dispatcher 0) [DelChannel demo_channel] ?d
      (demo_world\<lparr>answers := [AOk 0]\<rparr>) = (Ret el', v')"
    by (simp add: epoll_dispatcher_def epoll_del_def epoll_ctrl_def Let_def sys_def)
  have "trace (demo_world\<lparr>answers := [AOk 0]\<rparr>) = []" by (simp add: demo_world_def)
  with controls_keep_channels[OF p e, of Map.empty] p e show ?thesis by auto
qed

end
