(* ===== verification/Keep_Alive.thy ===== *)
theory Keep_Alive
  imports Common_IO
begin

text \<open>
  The keep-alive programs of \<^verbatim>\<open>chap-12\<close>: a client that probes a silent server, and the server
  that answers the probes after a pause.
\<close>

definition MSG_PING :: u32 where "MSG_PING = 1"
definition MSG_PONG :: u32 where "MSG_PONG = 2"
definition MSG_TYPE1 :: u32 where "MSG_TYPE1 = 11"
definition MSG_TYPE2 :: u32 where "MSG_TYPE2 = 21"

definition KEEP_ALIVE_TIME :: int where "KEEP_ALIVE_TIME = 10"
definition KEEP_ALIVE_INTERVAL :: int where "KEEP_ALIVE_INTERVAL = 3"
definition KEEP_ALIVE_PROBE_TIMES :: int where "KEEP_ALIVE_PROBE_TIMES = 3"

subsection \<open>The client\<close>

text \<open>
  The loop on its two counters; \<open>junk\<close> is the body of the message, which is never written.  Of the time
  only the whole seconds are modelled that the program sets before a \<open>select\<close>: what a kernel may leave of
  an earlier wait in \<open>tv_usec\<close>, which the program never resets, can lengthen a wait by less than a second.
\<close>

function ping_client_loop :: "int \<Rightarrow> byte list \<Rightarrow> int \<Rightarrow> int \<Rightarrow> world \<Rightarrow> unit outcome \<times> world" where
  "ping_client_loop fd junk heartbeats tv_sec w = bnd (sys_select tv_sec) (\<lambda>x w. case x of (rc, rs) \<Rightarrow>
     if rc < 0 then die 1 w
     else if rc = 0 then
       (if heartbeats + 1 > KEEP_ALIVE_PROBE_TIMES then die 1 w
        else bnd (print (bytes ''sending heartbeat #'' @ dec (heartbeats + 1) @ bytes '' \<newline>'')) (\<lambda>_ w.
             bnd (sys_write fd (store32 (htonl MSG_PING) @ junk)) (\<lambda>rc w.
               if rc < 0 then die 1 w
               else ping_client_loop fd junk (heartbeats + 1) KEEP_ALIVE_INTERVAL w) w) w)
     else if revents rs fd \<noteq> 0 then
       bnd (sys_read fd 4096) (\<lambda>y w. case y of (n, _) \<Rightarrow>
         if n < 0 then die 1 w
         else if n = 0 then die 1 w
         else bnd (print (bytes ''received heartbeat, make heartbeats to 0 \<newline>'')) (\<lambda>_ w.
              ping_client_loop fd junk 0 KEEP_ALIVE_TIME w) w) w
     else ping_client_loop fd junk heartbeats tv_sec w) w"
  by pat_completeness auto
termination
  by (relation "measure (\<lambda>(fd, junk, hb, tv, w). length (answers w))")
    (auto dest!: answers_sys_select answers_sys_write answers_sys_read)

declare ping_client_loop.simps [simp del]

definition ping_client_main :: "nat \<Rightarrow> byte list \<Rightarrow> byte list \<Rightarrow> unit io" where
  "ping_client_main argc ip junk =
     (if argc \<noteq> 2 then die 1
      else bnd (sys (Socket ''AF_INET'' ''SOCK_STREAM'')) (\<lambda>fd. if fd < 0 then die 1
      else bnd (sys (Connect fd ip 8012)) (\<lambda>r. if r < 0 then die 1
      else ping_client_loop fd junk 0 KEEP_ALIVE_TIME)))"

subsection \<open>The server\<close>

text \<open>
  The 1028 bytes of \<open>message\<close> stay from one \<open>read\<close> to the next; a short one changes their first
  bytes only.  \<open>junk\<close> is the body of the reply.
\<close>

definition message_type :: "byte list \<Rightarrow> u32" where
  "message_type msg = ntohl (load32 (take 4 msg))"

function ping_server_loop ::
  "int \<Rightarrow> int \<Rightarrow> byte list \<Rightarrow> byte list \<Rightarrow> world \<Rightarrow> unit outcome \<times> world" where
  "ping_server_loop fd pause junk msg w = bnd (sys_read fd 1028) (\<lambda>x w. case x of (n, bs) \<Rightarrow>
     if n < 0 then die 1 w
     else if n = 0 then die 1 w
     else let msg = bs @ drop (length bs) msg in
       bnd (print (bytes ''received: '' @ dec n @ bytes '' bytes \<newline>'')) (\<lambda>_ w.
       if message_type msg = MSG_TYPE1 then
         bnd (print (bytes ''process MSG_TYPE1 \<newline>'')) (\<lambda>_ w. ping_server_loop fd pause junk msg w) w
       else if message_type msg = MSG_TYPE2 then
         bnd (print (bytes ''process MSG_TYPE2 \<newline>'')) (\<lambda>_ w. ping_server_loop fd pause junk msg w) w
       else if message_type msg = MSG_PING then
         bnd (sys (Sleep pause)) (\<lambda>_ w.
         bnd (sys_write fd (store32 MSG_PONG @ junk)) (\<lambda>r w.
           if r < 0 then die 1 w else ping_server_loop fd pause junk msg w) w) w
       else die 1 w) w) w"
  by pat_completeness auto
termination
  by (relation "measure (\<lambda>(fd, pause, junk, msg, w). rx_weight (rx w fd))")
    (auto dest!: rx_weight_sys_read rx_sys_write rx_sys)

declare ping_server_loop.simps [simp del]

text \<open>A failed \<open>socket\<close> is only reported; the first call that needs the descriptor then fails.\<close>

definition ping_server_main :: "nat \<Rightarrow> int \<Rightarrow> byte list \<Rightarrow> byte list \<Rightarrow> unit io" where
  "ping_server_main argc sleeping_time junk msg =
     (if argc \<noteq> 2 then die 1
      else bnd (sys (Socket ''AF_INET'' ''SOCK_STREAM'')) (\<lambda>listen_fd.
      bnd (sys (Bind listen_fd 8012)) (\<lambda>r. if r < 0 then die 1
      else bnd (sys (Listen listen_fd 128)) (\<lambda>r. if r < 0 then die 1
      else bnd (sys (Accept listen_fd)) (\<lambda>conn_fd. if conn_fd < 0 then die 1
      else ping_server_loop conn_fd sleeping_time junk msg)))))"

subsection \<open>Probing\<close>

text \<open>The timeouts a process has waited for.\<close>

fun waits :: "event list \<Rightarrow> int list" where
  "waits [] = []"
| "waits (ESys (Select sec) r # es) = sec # waits es"
| "waits (_ # es) = waits es"

lemma waits_append [simp]: "waits (xs @ ys) = waits xs @ waits ys"
  by (induction xs rule: waits.induct) auto

definition ping_message :: "byte list \<Rightarrow> byte list" where
  "ping_message junk = store32 (htonl MSG_PING) @ junk"

text \<open>One silent period: a probe while probes are left, the end of the process after the last.\<close>

lemma ping_client_probe:
  assumes "answers w = AOk 0 # AOk (int n) # as" and "length (ping_message junk) \<le> n" and "hb + 1 \<le> 3"
  shows "\<exists>v. ping_client_loop fd junk hb tv w = ping_client_loop fd junk (hb + 1) 3 v \<and> answers v = as \<and>
    rx v = rx w \<and> waits (trace v) = waits (trace w) @ [tv] \<and>
    bytes_sent fd (trace v) = bytes_sent fd (trace w) @ ping_message junk"
proof -
  let ?w1 = "log_event (ESys (Select tv) 0) (w\<lparr>answers := AOk (int n) # as\<rparr>)"
  let ?w2 = "log_event (EPrint (bytes ''sending heartbeat #'' @ dec (hb + 1) @ bytes '' \<newline>'')) ?w1"
  let ?k = "int (length (ping_message junk))"
  let ?w3 = "log_event (EWrite fd (ping_message junk) ?k) (?w2\<lparr>answers := as\<rparr>)"
  have 1: "sys_select tv w = (Ret (0, []), ?w1)"
    using assms(1) by (simp add: sys_select_def sys_wait_def)
  have 2: "sys_write fd (ping_message junk) ?w2 = (Ret ?k, ?w3)"
    using assms(2) by (simp add: sys_write_def Let_def)
  have "ping_client_loop fd junk hb tv w = ping_client_loop fd junk (hb + 1) 3 ?w3"
    using assms(3) 2 by (subst ping_client_loop.simps)
      (simp add: 1 KEEP_ALIVE_PROBE_TIMES_def KEEP_ALIVE_INTERVAL_def ping_message_def)
  then show ?thesis by (intro exI[of _ ?w3]) simp
qed

text \<open>
  C24.  A server that stays silent after the client has heard from it is declared dead after exactly
  three probes: the client waits 10 seconds, then 3 seconds after each probe, and ends with status 1.
\<close>

theorem silent_server_is_dead:
  assumes "answers w = AOk 0 # AOk (int n1) # AOk 0 # AOk (int n2) # AOk 0 # AOk (int n3) # AOk 0 # as"
    and "\<forall>n \<in> {n1, n2, n3}. length (ping_message junk) \<le> n"
  shows "\<exists>w'. ping_client_loop fd junk 0 KEEP_ALIVE_TIME w = (Exit 1, w') \<and>
    waits (trace w') = waits (trace w) @ [10, 3, 3, 3] \<and>
    bytes_sent fd (trace w') = bytes_sent fd (trace w) @ concat (replicate 3 (ping_message junk))"
proof -
  from ping_client_probe[OF assms(1), of junk 0 fd 10] assms(2) obtain v1 where
    1: "ping_client_loop fd junk 0 10 w = ping_client_loop fd junk 1 3 v1"
    "answers v1 = AOk 0 # AOk (int n2) # AOk 0 # AOk (int n3) # AOk 0 # as"
    "waits (trace v1) = waits (trace w) @ [10]"
    "bytes_sent fd (trace v1) = bytes_sent fd (trace w) @ ping_message junk" by auto
  from ping_client_probe[OF 1(2), of junk 1 fd 3] assms(2) obtain v2 where
    2: "ping_client_loop fd junk 1 3 v1 = ping_client_loop fd junk 2 3 v2"
    "answers v2 = AOk 0 # AOk (int n3) # AOk 0 # as" "waits (trace v2) = waits (trace v1) @ [3]"
    "bytes_sent fd (trace v2) = bytes_sent fd (trace v1) @ ping_message junk" by auto
  from ping_client_probe[OF 2(2), of junk 2 fd 3] assms(2) obtain v3 where
    3: "ping_client_loop fd junk 2 3 v2 = ping_client_loop fd junk 3 3 v3"
    "answers v3 = AOk 0 # as" "waits (trace v3) = waits (trace v2) @ [3]"
    "bytes_sent fd (trace v3) = bytes_sent fd (trace v2) @ ping_message junk" by auto
  have "ping_client_loop fd junk 3 3 v3 = (Exit 1, log_event (ESys (Select 3) 0) (v3\<lparr>answers := as\<rparr>))"
    using 3(2) by (subst ping_client_loop.simps) (simp add: sys_select_def sys_wait_def KEEP_ALIVE_PROBE_TIMES_def)
  then show ?thesis using 1 2 3 by (simp add: KEEP_ALIVE_TIME_def numeral_3_eq_3)
qed

theorem silent_server_is_dead_witness:
  "\<exists>w'. ping_client_loop 4 [] 0 KEEP_ALIVE_TIME \<lparr>rx = (\<lambda>_. []), answers =
      [AOk 0, AOk 9, AOk 0, AOk 9, AOk 0, AOk 9, AOk 0], errno = 0, trace = []\<rparr> = (Exit 1, w') \<and>
    waits (trace w') = [10, 3, 3, 3]"
  using silent_server_is_dead[of "\<lparr>rx = (\<lambda>_. []), answers =
      [AOk 0, AOk 9, AOk 0, AOk 9, AOk 0, AOk 9, AOk 0], errno = 0, trace = []\<rparr>" 9 9 9 "[]" "[]" 4]
  by (auto simp: ping_message_def)

text \<open>The results of the waits as well.\<close>

fun selects :: "event list \<Rightarrow> (int \<times> int) list" where
  "selects [] = []"
| "selects (ESys (Select sec) r # es) = (sec, r) # selects es"
| "selects (_ # es) = selects es"

lemma selects_append [simp]: "selects (xs @ ys) = selects xs @ selects ys"
  by (induction xs rule: selects.induct) auto

lemma sys_select_result:
  assumes "sys_select sec w = (Ret (rc, rs), v)"
  obtains a where "answers w = a # answers v" "trace v = trace w @ [ESys (Select sec) rc]"
    "rc > 0 \<Longrightarrow> a = AReady rs"
  using assms by (auto simp: sys_select_def sys_wait_def bnd_def split: list.splits answer.splits)

definition silence :: "int \<Rightarrow> int \<Rightarrow> (int \<times> int) list" where
  "silence hb tv = (tv, 0) # replicate (nat (KEEP_ALIVE_PROBE_TIMES - hb)) (KEEP_ALIVE_INTERVAL, 0)"

lemma silence_more:
  "hb < KEEP_ALIVE_PROBE_TIMES \<Longrightarrow> silence hb tv = (tv, 0) # silence (hb + 1) KEEP_ALIVE_INTERVAL"
  by (simp add: silence_def flip: replicate_Suc)

text \<open>One turn of the client that leads to its end, by what the wait has brought.\<close>

lemma ping_client_turn:
  assumes "ping_client_loop fd junk hb tv w = (Exit c, w')" and "last (trace w') = ESys (Select s) 0"
    and ready: "\<forall>rs. AReady rs \<in> set (answers w) \<longrightarrow> revents rs fd \<noteq> 0"
  obtains (dead) "hb + 1 > KEEP_ALIVE_PROBE_TIMES" "selects (trace w') = selects (trace w) @ [(tv, 0)]"
  | (probe) v u k x where "sys_select tv w = (Ret (0, x), v)" "hb + 1 \<le> KEEP_ALIVE_PROBE_TIMES"
      "sys_write fd (store32 (htonl MSG_PING) @ junk)
         (log_event (EPrint (bytes ''sending heartbeat #'' @ dec (hb + 1) @ bytes '' \<newline>'')) v) = (Ret k, u)" "\<not> k < 0"
      "ping_client_loop fd junk (hb + 1) KEEP_ALIVE_INTERVAL u = (Exit c, w')"
      "set (answers u) \<subseteq> set (answers w)" "selects (trace u) = selects (trace w) @ [(tv, 0)]"
  | (heard) rc rs v n bs u where "sys_select tv w = (Ret (rc, rs), v)" "\<not> rc < 0" "rc \<noteq> 0" "revents rs fd \<noteq> 0"
      "sys_read fd 4096 v = (Ret (n, bs), u)" "\<not> n < 0" "n \<noteq> 0"
      "ping_client_loop fd junk 0 KEEP_ALIVE_TIME
         (log_event (EPrint (bytes ''received heartbeat, make heartbeats to 0 \<newline>'')) u) = (Exit c, w')"
      "set (answers u) \<subseteq> set (answers w)" "\<exists>ss. selects (trace u) = selects (trace w) @ ss"
proof -
  have run: "bnd (sys_select tv) (\<lambda>x w. case x of (rc, rs) \<Rightarrow>
     if rc < 0 then die 1 w
     else if rc = 0 then
       (if hb + 1 > KEEP_ALIVE_PROBE_TIMES then die 1 w
        else bnd (print (bytes ''sending heartbeat #'' @ dec (hb + 1) @ bytes '' \<newline>'')) (\<lambda>_ w.
             bnd (sys_write fd (store32 (htonl MSG_PING) @ junk)) (\<lambda>rc w.
               if rc < 0 then die 1 w
               else ping_client_loop fd junk (hb + 1) KEEP_ALIVE_INTERVAL w) w) w)
     else if revents rs fd \<noteq> 0 then
       bnd (sys_read fd 4096) (\<lambda>y w. case y of (n, _) \<Rightarrow>
         if n < 0 then die 1 w
         else if n = 0 then die 1 w
         else bnd (print (bytes ''received heartbeat, make heartbeats to 0 \<newline>'')) (\<lambda>_ w.
              ping_client_loop fd junk 0 KEEP_ALIVE_TIME w) w) w
     else ping_client_loop fd junk hb tv w) w = (Exit c, w')" 
    using assms(1) by (simp only: ping_client_loop.simps[of fd junk hb tv w])
  have "\<nexists>v. sys_select tv w = (Exit c, v)"
    by (auto simp: sys_select_def sys_wait_def bnd_def split: list.splits answer.splits)
  with run obtain rc rs v where sel: "sys_select tv w = (Ret (rc, rs), v)"
    by (auto simp: bnd_def split: prod.splits outcome.splits)
  from sys_select_result[OF sel] obtain a where a: "answers w = a # answers v"
    "trace v = trace w @ [ESys (Select tv) rc]" "rc > 0 \<Longrightarrow> a = AReady rs" by blast
  consider "rc < 0" | "rc = 0" "hb + 1 > KEEP_ALIVE_PROBE_TIMES" | "rc = 0" "hb + 1 \<le> KEEP_ALIVE_PROBE_TIMES"
    | "rc > 0" by linarith
  then show thesis
  proof cases
    case 1
    with run sel a(2) assms(2) show thesis by auto
  next
    case 2
    with run sel a(2) that(1) show thesis by auto
  next
    case 3
    let ?v = "log_event (EPrint (bytes ''sending heartbeat #'' @ dec (hb + 1) @ bytes '' \<newline>'')) v"
    let ?msg = "store32 (htonl MSG_PING) @ junk"
    have w: "bnd (sys_write fd ?msg) (\<lambda>rc w. if rc < 0 then die 1 w
      else ping_client_loop fd junk (hb + 1) KEEP_ALIVE_INTERVAL w) ?v = (Exit c, w')" using 3 run sel by simp
    then obtain k u where k: "sys_write fd ?msg ?v = (Ret k, u)" "trace u = trace ?v @ [EWrite fd ?msg k]"
      "set (answers u) \<subseteq> set (answers v)"
      by (auto simp: bnd_def sys_write_def Let_def split: list.splits answer.splits)
    then have "\<not> k < 0" using w assms(2) by auto
    with 3 sel k w a that(2) show thesis by auto
  next
    case 4
    then have re: "revents rs fd \<noteq> 0" using a(1,3) ready by simp
    then have r: "bnd (sys_read fd 4096) (\<lambda>y w. case y of (n, _) \<Rightarrow>
         if n < 0 then die 1 w
         else if n = 0 then die 1 w
         else bnd (print (bytes ''received heartbeat, make heartbeats to 0 \<newline>'')) (\<lambda>_ w.
              ping_client_loop fd junk 0 KEEP_ALIVE_TIME w) w) v = (Exit c, w')"
      using 4 run sel by simp
    then obtain n bs u where n: "sys_read fd 4096 v = (Ret (n, bs), u)"
      "trace u = trace v \<and> n = -1 \<or> trace u = trace v @ [ERead fd bs]" "answers u = answers v"
      by (auto simp: bnd_def sys_read_def split: option.splits sum.splits)
    have "\<not> n < 0" "n \<noteq> 0" using r n a(2) assms(2) 4 by auto
    with 4 sel re n r a that(3)[OF sel _ _ re n(1)] show thesis by auto
  qed
qed

lemma dead_after_silence:
  assumes "\<forall>rs. AReady rs \<in> set (answers w) \<longrightarrow> revents rs fd \<noteq> 0" and "hb \<le> KEEP_ALIVE_PROBE_TIMES"
    and "ping_client_loop fd junk hb tv w = (Exit c, w')" and "last (trace w') = ESys (Select s) 0"
  shows "\<exists>ss. selects (trace w') = selects (trace w) @ ss \<and>
    (ss = silence hb tv \<or> (\<exists>ts. ss = ts @ silence 0 KEEP_ALIVE_TIME))"
  using assms
proof (induction fd junk hb tv w rule: ping_client_loop.induct)
  case (1 fd junk hb tv w)
  from "1.prems"(3,4,1) show ?case
  proof (cases rule: ping_client_turn)
    case dead
    with "1.prems"(2) show ?thesis by (auto simp: silence_def)
  next
    case (probe v u k x)
    have "\<forall>rs. AReady rs \<in> set (answers u) \<longrightarrow> revents rs fd \<noteq> 0" using probe(6) "1.prems"(1) by blast
    from "1.IH"(1)[OF probe(1) refl _ refl _ _ probe(3,4) this probe(2,5) "1.prems"(4)] probe(2,7)
    show ?thesis by (auto simp: silence_more)
  next
    case (heard rc rs v n bs u)
    let ?u = "log_event (EPrint (bytes ''received heartbeat, make heartbeats to 0 \<newline>'')) u"
    have "\<forall>rs. AReady rs \<in> set (answers ?u) \<longrightarrow> revents rs fd \<noteq> 0" using heard(9) "1.prems"(1) by auto
    from "1.IH"(2)[OF heard(1) refl heard(2,3,4,5) refl heard(6,7) _ this _ heard(8) "1.prems"(4)] heard(10)
    show ?thesis by (auto simp: KEEP_ALIVE_PROBE_TIMES_def)
  qed
qed

text \<open>
  C15.  The client declares its server dead only if it has been silent: when the last thing that has
  happened is a timeout, then the last four waits, of 10, 3, 3 and 3 seconds, have all timed out,
  whatever happened before.  (A \<open>select\<close> on the one descriptor that reports
  something reports this descriptor.)
\<close>

theorem dead_only_if_silent:
  assumes "\<forall>rs. AReady rs \<in> set (answers w) \<longrightarrow> revents rs fd \<noteq> 0"
    and "ping_client_loop fd junk 0 KEEP_ALIVE_TIME w = (Exit c, w')" and "last (trace w') = ESys (Select s) 0"
  shows "\<exists>ts. selects (trace w') = ts @ [(10, 0), (3, 0), (3, 0), (3, 0)]"
  using dead_after_silence[OF assms(1) _ assms(2,3)]
  by (auto simp: silence_def KEEP_ALIVE_PROBE_TIMES_def KEEP_ALIVE_TIME_def KEEP_ALIVE_INTERVAL_def numeral_3_eq_3)

theorem dead_only_if_silent_witness:
  "\<exists>w'. ping_client_loop 4 [] 0 KEEP_ALIVE_TIME \<lparr>rx = (\<lambda>_. [RxData [7]]), answers = [AReady [(4, 1)],
      AOk 0, AOk 9, AOk 0, AOk 9, AOk 0, AOk 9, AOk 0], errno = 0, trace = []\<rparr> = (Exit 1, w') \<and>
    (\<exists>ts. selects (trace w') = ts @ [(10, 0), (3, 0), (3, 0), (3, 0)])"
proof -
  let ?w = "\<lparr>rx = (\<lambda>_. [RxData [7]]), answers = [AReady [(4, 1)],
      AOk 0, AOk 9, AOk 0, AOk 9, AOk 0, AOk 9, AOk 0], errno = 0, trace = []\<rparr>"
  note ev = sys_select_def sys_wait_def sys_read_def sys_write_def revents_def Let_def bnd_def
    KEEP_ALIVE_PROBE_TIMES_def KEEP_ALIVE_TIME_def KEEP_ALIVE_INTERVAL_def store32_def
  have "\<exists>w'. ping_client_loop 4 [] 0 KEEP_ALIVE_TIME ?w = (Exit 1, w') \<and> last (trace w') = ESys (Select 3) 0"
    by (subst ping_client_loop.simps, simp add: ev, subst ping_client_loop.simps, simp add: ev,
        subst ping_client_loop.simps, simp add: ev, subst ping_client_loop.simps, simp add: ev,
        subst ping_client_loop.simps, simp add: ev)
  then show ?thesis using dead_only_if_silent[of ?w 4 "[]" 1] by (auto simp: revents_def)
qed

text \<open>
  The answer to a probe carries its type in host byte order: a whole PING message makes the
  server pause and send a message whose type, read the way the programs read types, is not PONG.
\<close>

theorem pong_type_not_converted:
  assumes "rx w fd = RxData (store32 (htonl MSG_PING) @ body) # xs" and "length body = 1024"
    and "answers w = AOk 0 # AOk (int n) # as" and "4 + length junk \<le> n" and "length msg = 1028"
  shows "\<exists>v. ping_server_loop fd pause junk msg w =
      ping_server_loop fd pause junk (store32 (htonl MSG_PING) @ body) v \<and>
    bytes_sent fd (trace v) = bytes_sent fd (trace w) @ store32 MSG_PONG @ junk \<and>
    message_type (store32 MSG_PONG @ junk) \<noteq> MSG_PONG"
proof -
  let ?m = "store32 (htonl MSG_PING) @ body"
  let ?w1 = "log_event (ERead fd ?m) (w\<lparr>rx := (rx w)(fd := xs)\<rparr>)"
  have rd: "sys_read fd 1028 w = (Ret (1028, ?m), ?w1)"
    using assms(1,2) by (auto simp: sys_read_def)
  let ?w2 = "log_event (EPrint (bytes ''received: '' @ dec 1028 @ bytes '' bytes \<newline>'')) ?w1"
  let ?w3 = "log_event (ESys (Sleep pause) 0) (?w2\<lparr>answers := AOk (int n) # as\<rparr>)"
  have sl: "sys (Sleep pause) ?w2 = (Ret 0, ?w3)" using assms(3) by (simp add: sys_def)
  let ?out = "store32 MSG_PONG @ junk"
  let ?w4 = "log_event (EWrite fd ?out (int (length ?out))) (?w3\<lparr>answers := as\<rparr>)"
  have wr: "sys_write fd ?out ?w3 = (Ret (int (length ?out)), ?w4)"
    using assms(4) by (simp add: sys_write_def Let_def)
  have ty: "message_type ?m = MSG_PING" by (simp add: message_type_def)
  have ne: "MSG_PING \<noteq> MSG_TYPE1" "MSG_PING \<noteq> MSG_TYPE2"
    by (simp_all add: MSG_PING_def MSG_TYPE1_def MSG_TYPE2_def)
  have "ping_server_loop fd pause junk msg w = ping_server_loop fd pause junk ?m ?w4"
    using assms(2,5) wr by (subst ping_server_loop.simps)
      (simp add: rd Let_def ty ne sl)
  moreover have "message_type ?out \<noteq> MSG_PONG"
    by (simp add: message_type_def ntohl_def MSG_PONG_def store32_def)
  ultimately show ?thesis by (intro exI[of _ ?w4]) simp
qed

theorem pong_type_not_converted_witness:
  "\<exists>v. ping_server_loop 4 1 [] (replicate 1028 0) \<lparr>rx = (\<lambda>_. [RxData (store32 (htonl MSG_PING) @
        replicate 1024 7)]), answers = [AOk 0, AOk 4], errno = 0, trace = []\<rparr> =
      ping_server_loop 4 1 [] (store32 (htonl MSG_PING) @ replicate 1024 7) v \<and>
    bytes_sent 4 (trace v) = [2, 0, 0, 0]"
proof -
  define body where "body = replicate 1024 (7 :: byte)"
  define msg where "msg = replicate 1028 (0 :: byte)"
  have l: "length body = 1024" "length msg = 1028" by (simp_all only: body_def msg_def length_replicate)
  let ?w = "\<lparr>rx = (\<lambda>_. [RxData (store32 (htonl MSG_PING) @ body)]), answers = [AOk 0, AOk 4],
    errno = 0, trace = []\<rparr>"
  have "rx ?w 4 = RxData (store32 (htonl MSG_PING) @ body) # []"
    and "answers ?w = AOk 0 # AOk (int 4) # []" and "4 + length ([] :: byte list) \<le> 4" by simp_all
  from pong_type_not_converted[OF this(1) l(1) this(2,3) l(2), of 1]
  show ?thesis unfolding body_def msg_def by (auto simp: store32_def MSG_PONG_def)
qed

end
