(* ===== verification/Http_Server.thy ===== *)
theory Http_Server
  imports Dict_Store Echo_Servers
begin

text \<open>
  The HTTP server of \<^verbatim>\<open>chap-16/tcp_http_server.c\<close>: reading lines byte by byte, splitting the request
  line, and storing its parts in the hash table of \<^verbatim>\<open>lib/dict.c\<close>.
\<close>

subsection \<open>Lines\<close>

text \<open>\<open>recv\<close> with \<open>MSG_PEEK\<close>: the data stays in the stream.\<close>

definition sys_peek :: "int \<Rightarrow> nat \<Rightarrow> (int \<times> byte list) io" where
  "sys_peek fd n w = (case rx_read n (rx w fd) of
     None \<Rightarrow> (Blocked, w)
   | Some (Inl e, xs) \<Rightarrow> (Ret (-1, []), w\<lparr>rx := (rx w)(fd := xs), errno := e\<rparr>)
   | Some (Inr bs, xs) \<Rightarrow> (Ret (int (length bs), bs), w))"

text \<open>What a one-byte \<open>recv\<close> leaves in the variable \<open>c\<close>.\<close>

definition got :: "byte list \<Rightarrow> byte \<Rightarrow> byte" where
  "got bs c = (case bs of [] \<Rightarrow> c | b # _ \<Rightarrow> b)"

text \<open>The loop on \<open>c\<close> and the bytes stored so far; after a failed \<open>recv\<close> it ends at once.\<close>

function read_line_loop :: "int \<Rightarrow> int \<Rightarrow> byte \<Rightarrow> byte list \<Rightarrow> world \<Rightarrow> byte list outcome \<times> world" where
  "read_line_loop fd sz c buf w =
     (if int (length buf) < sz - 1 \<and> c \<noteq> 10 then
        bnd (sys_read fd 1) (\<lambda>x w. case x of (r, bs) \<Rightarrow>
          if r < 0 then ret buf w
          else let c = got bs c in
            if c = 13 then
              bnd (sys_peek fd 1) (\<lambda>y w. case y of (r, bs) \<Rightarrow>
                if r > 0 \<and> got bs c = 10 then
                  bnd (sys_read fd 1) (\<lambda>z w. case z of (r, bs) \<Rightarrow>
                    read_line_loop fd sz (got bs 10) (buf @ [got bs 10]) w) w
                else read_line_loop fd sz 10 (buf @ [10]) w) w
            else read_line_loop fd sz c (buf @ [c]) w) w
      else ret buf w)"
  by pat_completeness auto
termination
  by (relation "measure (\<lambda>(fd, sz, c, buf, w). nat (sz - 1 - int (length buf)))") auto

declare read_line_loop.simps [simp del]

definition read_line :: "int \<Rightarrow> int \<Rightarrow> byte list io" where
  "read_line fd sz = read_line_loop fd sz 0 []"

subsection \<open>The request line\<close>

text \<open>\<open>strsep(&p, " ")\<close> on the text at \<open>p\<close>: the token and the rest.\<close>

fun strsep :: "byte list option \<Rightarrow> (byte list \<times> byte list option) option" where
  "strsep None = None"
| "strsep (Some s) = Some (takeWhile (\<lambda>b. b \<noteq> 32) s,
     case dropWhile (\<lambda>b. b \<noteq> 32) s of [] \<Rightarrow> None | _ # r \<Rightarrow> Some r)"

text \<open>\<open>strcpy\<close> into an array of the given size.\<close>

definition strcpy :: "int \<Rightarrow> byte list option \<Rightarrow> byte list outcome" where
  "strcpy n s = (case s of
     None \<Rightarrow> Fault NullDeref
   | Some t \<Rightarrow> if int (length t) + 1 \<le> n then Ret t else Fault OutOfBounds)"

text \<open>
  The parts of the line whose text, up to its NUL, is \<open>line\<close>: \<open>size\<close> is its length, and the last
  byte is cut off.  An array of no or a negative size is a fault, and so is \<open>buf[-1]\<close>.
\<close>

definition token :: "(byte list \<times> byte list option) option \<Rightarrow> byte list option" where
  "token r = map_option fst r"

definition after_token :: "(byte list \<times> byte list option) option \<Rightarrow> byte list option" where
  "after_token r = (case r of None \<Rightarrow> None | Some (_, p) \<Rightarrow> p)"

definition parse_request_line :: "byte list \<Rightarrow> (byte list \<times> byte list \<times> byte list) outcome" where
  "parse_request_line line = (let sz = int (length line) in
     if sz = 0 then Fault OutOfBounds
     else if sz - 16 \<le> 0 then Fault OutOfBounds
     else let a = strsep (Some (butlast line)); b = strsep (after_token a); c = strsep (after_token b) in
       case strcpy 6 (token a) of
         Ret method \<Rightarrow> (case strcpy (sz - 16) (token b) of
           Ret uri \<Rightarrow> (case strcpy 10 (token c) of
             Ret version \<Rightarrow> Ret (method, uri, version)
           | Fault e \<Rightarrow> Fault e | Exit x \<Rightarrow> Exit x | Blocked \<Rightarrow> Blocked)
         | Fault e \<Rightarrow> Fault e | Exit x \<Rightarrow> Exit x | Blocked \<Rightarrow> Blocked)
       | Fault e \<Rightarrow> Fault e | Exit x \<Rightarrow> Exit x | Blocked \<Rightarrow> Blocked)"

text \<open>
  The addresses of the three literals and of the three arrays on the stack; the arrays end with the
  call, the pointers to them stay in the table.
\<close>

record header_addrs =
  k_method :: addr  k_uri :: addr  k_version :: addr
  v_method :: addr  v_uri :: addr  v_version :: addr

definition add_request_line_to_dict ::
  "header_addrs \<Rightarrow> byte list \<Rightarrow> dict \<times> dmem \<Rightarrow> (dict \<times> dmem) outcome" where
  "add_request_line_to_dict ad line s = (case parse_request_line line of
     Ret (method, uri, version) \<Rightarrow>
       (let (d, m) = s;
            m = m\<lparr>strs := (strs m)(v_method ad \<mapsto> method, v_uri ad \<mapsto> uri, v_version ad \<mapsto> version)\<rparr>
        in case do {
             (_, d, m) \<leftarrow> dictAdd (Some (k_method ad)) (Some (v_method ad)) d m;
             (_, d, m) \<leftarrow> dictAdd (Some (k_uri ad)) (Some (v_uri ad)) d m;
             (_, d, m) \<leftarrow> dictAdd (Some (k_version ad)) (Some (v_version ad)) d m;
             Some (d, m)
           } of None \<Rightarrow> Fault NullDeref | Some s \<Rightarrow> Ret s)
   | Fault e \<Rightarrow> Fault e | Exit x \<Rightarrow> Exit x | Blocked \<Rightarrow> Blocked)"

subsection \<open>A request\<close>

text \<open>
  The headers after the request line are printed and dropped; \<open>k\<close> bounds their number.  The result
  is the length of the last line.
\<close>

fun skip_headers :: "nat \<Rightarrow> int \<Rightarrow> byte list \<Rightarrow> int io" where
  "skip_headers 0 fd buf = (\<lambda>w. (Blocked, w))"
| "skip_headers (Suc k) fd buf = bnd (read_line fd 4096) (\<lambda>line.
     let buf = lay line buf; n = int (length line) in
     if n > 0 then
       if n = 1 \<and> hd buf = 10 then ret n
       else if 0 \<in> set buf then
         bnd (print (bytes ''header: '' @ cstring buf)) (\<lambda>_. skip_headers k fd (replicate MAX_LINE 0))
       else fault OutOfBounds
     else ret n)"

definition parse_header ::
  "nat \<Rightarrow> header_addrs \<Rightarrow> byte list \<Rightarrow> int \<Rightarrow> dict \<times> dmem \<Rightarrow> (int \<times> dict \<times> dmem) io" where
  "parse_header k ad junk fd s = bnd (read_line fd 4096) (\<lambda>line.
     if length line = 0 then bnd (print (bytes ''read request line failed'')) (\<lambda>_. ret (0, s))
     else let buf = lay line junk in
       if 0 \<notin> set buf then fault OutOfBounds
       else bnd (of_outcome (add_request_line_to_dict ad (cstring buf) s)) (\<lambda>s.
            bnd (skip_headers k fd (buf[length (cstring buf) - 1 := 0])) (\<lambda>n. ret (n, s))))"

definition http_reply :: "byte list" where
  "http_reply = bytes ''HTTP/1.0 200 OK'' @ [13, 10] @ bytes ''Content-Length: 2'' @ [13, 10, 13, 10] @
     bytes ''Hi''"

definition create_web_server_socket :: "int \<Rightarrow> int io" where
  "create_web_server_socket port =
     bnd (sys (Socket ''AF_INET'' ''SOCK_STREAM'')) (\<lambda>listen_fd. if listen_fd < 0 then die 1
     else bnd (sys (Setsockopt listen_fd ''SO_REUSEADDR'')) (\<lambda>_.
     bnd (sys (Bind listen_fd port)) (\<lambda>r. if r < 0 then die 1
     else bnd (sys (Listen listen_fd 128)) (\<lambda>r. if r < 0 then die 1
     else ret listen_fd))))"

text \<open>
  One turn of the accept loop: an old \<open>EINTR\<close> in \<open>errno\<close> drops a good connection.  Every connection
  has a fresh table; the old one is never freed.
\<close>

definition http_turn :: "nat \<Rightarrow> header_addrs \<Rightarrow> byte list \<Rightarrow> int \<Rightarrow> dmem \<Rightarrow> dmem io" where
  "http_turn k ad junk listen_fd m = bnd (sys (Accept listen_fd)) (\<lambda>conn_fd.
     bnd get_errno (\<lambda>e.
     if conn_fd < 0 \<or> e = EINTR then ret m
     else (case dictCreate m of
       (None, m) \<Rightarrow> ret m
     | (Some d, m) \<Rightarrow>
         bnd (parse_header k ad junk conn_fd (d, m)) (\<lambda>(_, d, m).
         bnd (print (bytes ''headers end\<newline>'')) (\<lambda>_.
         bnd (sys_write conn_fd http_reply) (\<lambda>_.
         bnd (sys (Close conn_fd)) (\<lambda>_. ret m)))))))"

fun http_loop :: "nat \<Rightarrow> nat \<Rightarrow> header_addrs \<Rightarrow> byte list \<Rightarrow> int \<Rightarrow> dmem \<Rightarrow> dmem io" where
  "http_loop 0 k ad junk listen_fd m = ret m"
| "http_loop (Suc n) k ad junk listen_fd m =
     bnd (http_turn k ad junk listen_fd m) (http_loop n k ad junk listen_fd)"

definition http_server_main :: "nat \<Rightarrow> nat \<Rightarrow> header_addrs \<Rightarrow> byte list \<Rightarrow> dmem \<Rightarrow> dmem io" where
  "http_server_main n k ad junk m =
     bnd (create_web_server_socket 8016) (\<lambda>listen_fd. http_loop n k ad junk listen_fd m)"

subsection \<open>What the request line parser accepts\<close>

lemma strsep_word:
  assumes "32 \<notin> set u"
  shows "strsep (Some (u @ 32 # s)) = Some (u, Some s)" and "strsep (Some u) = Some (u, None)"
proof -
  have "\<forall>b \<in> set u. b \<noteq> 32" using assms by auto
  then have "takeWhile (\<lambda>b. b \<noteq> 32) u = u" "dropWhile (\<lambda>b. b \<noteq> 32) u = []"
    "takeWhile (\<lambda>b. b \<noteq> 32) (u @ 32 # s) = u" "dropWhile (\<lambda>b. b \<noteq> 32) (u @ 32 # s) = 32 # s"
    by (simp_all add: takeWhile_append2 dropWhile_append2)
  then show "strsep (Some (u @ 32 # s)) = Some (u, Some s)" "strsep (Some u) = Some (u, None)"
    by (simp_all only: strsep.simps list.case)
qed

text \<open>
  C34.  The array for the URI is too small for every ordinary request: a request line \<open>M U V\<close> is
  accepted exactly if \<open>M\<close> has five bytes and \<open>V\<close> nine, so every GET, PUT or POST request of HTTP/1.0
  or HTTP/1.1 overruns an array.
\<close>

theorem request_line_accepted_iff:
  assumes "32 \<notin> set me" and "32 \<notin> set u" and "32 \<notin> set v"
  shows "parse_request_line (me @ 32 # u @ 32 # v @ [10]) =
    (if length me = 5 \<and> length v = 9 then Ret (me, u, v) else Fault OutOfBounds)"
proof -
  let ?line = "me @ 32 # u @ 32 # v @ [10]"
  have bl: "butlast ?line = me @ 32 # u @ 32 # v" by (simp add: butlast_append)
  have a: "strsep (Some (butlast ?line)) = Some (me, Some (u @ 32 # v))"
    unfolding bl by (rule strsep_word(1)[OF assms(1)])
  have l: "int (length ?line) = int (length me) + int (length u) + int (length v) + 3" by simp
  show ?thesis
    unfolding parse_request_line_def Let_def a after_token_def option.case prod.case
      strsep_word(1)[OF assms(2)] strsep_word(2)[OF assms(3)] token_def l
    by (auto simp: strcpy_def)
qed

theorem request_line_accepted_iff_witness:
  "parse_request_line (bytes ''GET'' @ 32 # bytes ''/index.html'' @ 32 # bytes ''HTTP/1.1'' @ [10]) =
     Fault OutOfBounds"
  using request_line_accepted_iff[of "bytes ''GET''" "bytes ''/index.html''" "bytes ''HTTP/1.1''"]
  by (simp add: bytes_def)

subsection \<open>What \<open>read_line\<close> brings\<close>

text \<open>The next byte of the stream, read and peeked at.\<close>

lemma read_byte:
  assumes "brings w fd (b # bs) zs"
  obtains v where "sys_read fd (Suc 0) w = (Ret (1, [b]), v)" "sys_peek fd (Suc 0) w = (Ret (1, [b]), w)"
    "brings v fd bs zs"
proof -
  obtain xs where xs: "rx w fd = xs @ zs" "data_only xs" "payload xs = b # bs" using assms by (auto simp: brings_def)
  obtain ys where ys: "rx_read (Suc 0) (xs @ zs) = Some (Inr [b], ys @ zs)" "data_only ys" "payload ys = bs"
    using rx_read_byte[OF xs(2,3)] by blast
  let ?v = "log_event (ERead fd [b]) (w\<lparr>rx := (rx w)(fd := ys @ zs)\<rparr>)"
  have "sys_read fd (Suc 0) w = (Ret (1, [b]), ?v)" "sys_peek fd (Suc 0) w = (Ret (1, [b]), w)"
    using xs(1) ys(1) by (simp_all add: sys_read_def sys_peek_def)
  moreover have "brings ?v fd bs zs" using ys by (auto simp: brings_def)
  ultimately show thesis by (rule that)
qed

text \<open>Plain data goes into the buffer byte by byte.\<close>

lemma read_line_plain:
  assumes "brings w fd (cs @ ds) zs" and "10 \<notin> set cs" and "13 \<notin> set cs"
    and "int (length buf + length cs) \<le> sz - 1" and "c \<noteq> 10"
  shows "\<exists>w'. read_line_loop fd sz c buf w =
      read_line_loop fd sz (if cs = [] then c else last cs) (buf @ cs) w' \<and> brings w' fd ds zs"
  using assms
proof (induction cs arbitrary: w buf c)
  case Nil
  then show ?case by auto
next
  case (Cons b cs)
  then have "brings w fd (b # (cs @ ds)) zs" by simp
  then obtain v where v: "sys_read fd (Suc 0) w = (Ret (1, [b]), v)" "brings v fd (cs @ ds) zs" by (rule read_byte)
  have b: "b \<noteq> 10" "b \<noteq> 13" using Cons.prems(2,3) by auto
  have "read_line_loop fd sz c buf w = read_line_loop fd sz b (buf @ [b]) v"
    using Cons.prems(4,5) b by (subst read_line_loop.simps) (simp add: v(1) got_def Let_def)
  moreover have "10 \<notin> set cs" "13 \<notin> set cs" "int (length (buf @ [b]) + length cs) \<le> sz - 1"
    using Cons.prems by auto
  ultimately show ?case using Cons.IH[OF v(2) _ _ _ b(1), of "buf @ [b]"] by (auto split: if_splits)
qed

text \<open>
  How a line ends: LF, CR LF, or a CR alone, which needs a next byte to be told from CR LF.
\<close>

definition line_end :: "byte list \<Rightarrow> byte list \<Rightarrow> bool" where
  "line_end eol ds \<longleftrightarrow> eol = [10] \<or> eol = [13, 10] \<or> (eol = [13] \<and> ds \<noteq> [] \<and> hd ds \<noteq> 10)"

lemma read_line_end:
  assumes "brings w fd (eol @ ds) zs" and "line_end eol ds" and "int (length buf) < sz - 1" and "c \<noteq> 10"
  shows "\<exists>w'. read_line_loop fd sz c buf w = (Ret (buf @ [10]), w') \<and> brings w' fd ds zs"
proof -
  have stop: "read_line_loop fd sz 10 buf' v = (Ret buf', v)" for buf' v
    by (subst read_line_loop.simps) simp
  have "\<exists>w'. read_line_loop fd sz c buf w = read_line_loop fd sz 10 (buf @ [10]) w' \<and> brings w' fd ds zs"
  proof (cases "hd eol = 10")
    case True
    then have "brings w fd (10 # ds) zs" using assms(1,2) by (auto simp: line_end_def)
    then obtain v where v: "sys_read fd (Suc 0) w = (Ret (1, [10]), v)" "brings v fd ds zs" by (rule read_byte)
    have "read_line_loop fd sz c buf w = read_line_loop fd sz 10 (buf @ [10]) v"
      using assms(3,4) by (subst read_line_loop.simps) (simp add: v(1) got_def Let_def)
    with v(2) show ?thesis by blast
  next
    case False
    then obtain b bs where b: "eol @ ds = 13 # b # bs" "if b = 10 then ds = bs else ds = b # bs"
      using assms(2) by (cases ds) (auto simp: line_end_def)
    then have "brings w fd (13 # (b # bs)) zs" using assms(1) by simp
    then obtain v where v: "sys_read fd (Suc 0) w = (Ret (1, [13]), v)" "brings v fd (b # bs) zs" by (rule read_byte)
    obtain u where u: "sys_read fd (Suc 0) v = (Ret (1, [b]), u)" "sys_peek fd (Suc 0) v = (Ret (1, [b]), v)"
      "brings u fd bs zs" using v(2) by (rule read_byte)
    have "read_line_loop fd sz c buf w = read_line_loop fd sz 10 (buf @ [10]) (if b = 10 then u else v)"
      using assms(3,4) by (subst read_line_loop.simps) (simp add: v(1) u(1,2) got_def Let_def)
    moreover have "brings (if b = 10 then u else v) fd ds zs" using b(2) v(2) u(3) by (auto split: if_splits)
    ultimately show ?thesis by blast
  qed
  then show ?thesis using stop by auto
qed

text \<open>
  C30.  However the network has cut the stream, between CR and LF too, and as long as no \<open>recv\<close> fails,
  \<open>read_line\<close> takes one line from it: a line that fits into the buffer is returned with a single LF in place of its LF, CR LF or lone
  CR, and the stream goes on behind it; of a longer line the first \<open>sz - 1\<close> bytes are returned, without
  an LF, and the stream goes on with the rest of the line.
\<close>

theorem read_line_crlf:
  assumes "brings w fd (cs @ eol @ ds) zs" and "10 \<notin> set cs" and "13 \<notin> set cs" and "line_end eol ds"
  shows "\<exists>w'. if int (length cs) < sz - 1
    then read_line fd sz w = (Ret (cs @ [10]), w') \<and> brings w' fd ds zs
    else read_line fd sz w = (Ret (take (nat (sz - 1)) cs), w') \<and>
      brings w' fd (drop (nat (sz - 1)) cs @ eol @ ds) zs"
proof -
  have no_end: "(if xs = [] then 0 else last xs) \<noteq> 10" if "10 \<notin> set xs" for xs :: "byte list"
  proof (cases "xs = []")
    case False
    then have "last xs \<noteq> 10" using that by (metis last_in_set)
    with False show ?thesis by simp
  qed simp
  show ?thesis
  proof (cases "int (length cs) < sz - 1")
    case True
    obtain v where v: "read_line fd sz w = read_line_loop fd sz (if cs = [] then 0 else last cs) cs v"
      "brings v fd (eol @ ds) zs"
      using read_line_plain[OF assms(1-3), of "[]" sz 0] True by (auto simp: read_line_def)
    from read_line_end[OF v(2) assms(4) True no_end[OF assms(2)]] v(1) True show ?thesis by auto
  next
    case False
    let ?n = "nat (sz - 1)"
    let ?c = "if take ?n cs = [] then 0 else last (take ?n cs)"
    have "brings w fd (take ?n cs @ drop ?n cs @ eol @ ds) zs"
      using assms(1) by (simp only: append_assoc[symmetric] append_take_drop_id)
    moreover have "10 \<notin> set (take ?n cs)" "13 \<notin> set (take ?n cs)" using assms(2,3) in_set_takeD by fast+
    moreover have "int (length ([] :: byte list) + length (take ?n cs)) \<le> sz - 1 \<or> sz - 1 < 0" by auto
    ultimately have "sz - 1 < 0 \<or> (\<exists>v. read_line fd sz w = read_line_loop fd sz ?c (take ?n cs) v \<and>
        brings v fd (drop ?n cs @ eol @ ds) zs)"
      using read_line_plain[of w fd "take ?n cs" "drop ?n cs @ eol @ ds" zs "[]" sz 0] by (auto simp: read_line_def)
    moreover have "read_line_loop fd sz c (take ?n cs) v = (Ret (take ?n cs), v)" for c v
      using False by (subst read_line_loop.simps) auto
    ultimately show ?thesis using False assms(1) by (auto simp: read_line_def)
  qed
qed

text \<open>The CR and the LF of the line arrive in different segments.\<close>

theorem read_line_crlf_witness:
  "\<exists>w'. read_line 5 4096 \<lparr>rx = (\<lambda>_. [RxData [72], RxData [105, 13], RxData [10, 33], RxEof]), answers = [],
      errno = 0, trace = []\<rparr> = (Ret [72, 105, 10], w') \<and> brings w' 5 [33] [RxEof]"
proof -
  let ?w = "\<lparr>rx = (\<lambda>_. [RxData [72], RxData [105, 13], RxData [10, 33], RxEof]), answers = [], errno = 0, trace = []\<rparr>"
  have "brings ?w 5 ([72, 105] @ [13, 10] @ [33]) [RxEof]"
    unfolding brings_def by (intro exI[of _ "[RxData [72], RxData [105, 13], RxData [10, 33]]"]) (simp add: data_only_def)
  from read_line_crlf[OF this, of 4096] show ?thesis by (simp add: line_end_def)
qed

text \<open>At the end of the stream nothing more comes.\<close>

lemma read_at_eof:
  assumes "brings w fd [] (RxEof # zs)"
  obtains v where "sys_read fd (Suc 0) w = (Ret (0, []), v)" "brings v fd [] (RxEof # zs)"
proof -
  obtain xs where xs: "rx w fd = xs @ RxEof # zs" "data_only xs" "payload xs = []" using assms by (auto simp: brings_def)
  have "rx_read (Suc 0) (xs @ RxEof # zs) = Some (Inr [], RxEof # zs)"
    using rx_read_data[OF xs(2), of "Suc 0" "RxEof # zs"] xs(3) by auto
  then have "sys_read fd (Suc 0) w = (Ret (0, []), log_event (ERead fd []) (w\<lparr>rx := (rx w)(fd := RxEof # zs)\<rparr>))"
    using xs(1) by (simp add: sys_read_def)
  moreover have "brings (log_event (ERead fd []) (w\<lparr>rx := (rx w)(fd := RxEof # zs)\<rparr>)) fd [] (RxEof # zs)"
    unfolding brings_def by (intro exI[of _ "[]"]) (simp add: data_only_def)
  ultimately show thesis by (rule that)
qed

lemma read_line_at_eof:
  assumes "brings w fd [] (RxEof # zs)" and "c \<noteq> 10" and "c \<noteq> 13"
  shows "\<exists>w'. read_line_loop fd sz c buf w = (Ret (buf @ replicate (nat (sz - 1) - length buf) c), w')"
  using assms(1)
proof (induction "nat (sz - 1) - length buf" arbitrary: buf w)
  case 0
  then have "\<not> int (length buf) < sz - 1" by linarith
  then show ?case using 0 by (subst read_line_loop.simps) auto
next
  case (Suc k)
  then have lt: "int (length buf) < sz - 1" by linarith
  from Suc.prems obtain v where v: "sys_read fd (Suc 0) w = (Ret (0, []), v)" "brings v fd [] (RxEof # zs)"
    by (rule read_at_eof)
  have go: "read_line_loop fd sz c buf w = read_line_loop fd sz c (buf @ [c]) v"
    using lt assms(2,3) by (subst read_line_loop.simps) (simp add: v(1) got_def Let_def)
  have k: "nat (sz - 1) - length buf = Suc (nat (sz - 1) - length (buf @ [c]))" using Suc.hyps(2) by simp
  then have "k = nat (sz - 1) - length (buf @ [c])" using Suc.hyps(2) by simp
  from Suc.hyps(1)[OF this v(2)] go k show ?case by auto
qed

text \<open>
  When the client closes in the middle of a line, \<open>read_line\<close> does not notice: it stores the
  last byte again and again until the buffer is full.
\<close>

theorem read_line_floods:
  assumes "brings w fd cs (RxEof # zs)" and "10 \<notin> set cs" and "13 \<notin> set cs" and "cs \<noteq> []"
    and "int (length cs) < sz"
  shows "\<exists>w'. read_line fd sz w = (Ret (cs @ replicate (nat (sz - 1) - length cs) (last cs)), w')"
proof -
  have "brings w fd (cs @ []) (RxEof # zs)" using assms(1) by simp
  from read_line_plain[OF this assms(2,3), of "[]" sz 0] assms(4,5) obtain v where v:
    "read_line fd sz w = read_line_loop fd sz (last cs) cs v" "brings v fd [] (RxEof # zs)"
    by (auto simp: read_line_def)
  have "last cs \<noteq> 10" "last cs \<noteq> 13" using assms(2-4) last_in_set[of cs] by metis+
  from read_line_at_eof[OF v(2) this, of sz cs] v(1) show ?thesis by simp
qed

theorem read_line_floods_witness:
  "\<exists>w'. read_line 5 6 \<lparr>rx = (\<lambda>_. [RxData [72, 105], RxEof]), answers = [], errno = 0, trace = []\<rparr> =
    (Ret [72, 105, 105, 105, 105], w')"
proof -
  have "brings \<lparr>rx = (\<lambda>_. [RxData [72, 105], RxEof]), answers = [], errno = 0, trace = []\<rparr> 5 [72, 105] [RxEof]"
    unfolding brings_def by (intro exI[of _ "[RxData [72, 105]]"]) (simp add: data_only_def)
  from read_line_floods[OF this, of 6] show ?thesis by (simp add: numeral_3_eq_3)
qed

end
