(* ===== verification/Telnet.thy ===== *)
theory Telnet
  imports Keep_Alive Echo_Servers
begin

text \<open>
  The remote shell of \<^verbatim>\<open>mid-homework/\<close>: the server \<^verbatim>\<open>telnet_server.c\<close>, which executes \<open>ls\<close>,
  \<open>pwd\<close>, \<open>cd\<close> and \<open>quit\<close>, and the client \<^verbatim>\<open>telnet_client.c\<close>, which probes a silent server.  The
  log lines of the server go to \<open>stderr\<close> and are left out.
\<close>

definition MSG_TEXT :: u32 where "MSG_TEXT = 11"

text \<open>\<open>struct msg_obj\<close> is the 4 bytes of the type and \<open>MAX_LINE\<close> bytes of text.\<close>

definition msg_bytes :: "u32 \<Rightarrow> byte list \<Rightarrow> byte list" where
  "msg_bytes ty text = store32 ty @ text"

definition msg_size :: nat where "msg_size = 4 + MAX_LINE"

subsection \<open>C strings in arrays\<close>

text \<open>\<open>strcpy\<close> of a string into the text of a message.\<close>

definition copy_text :: "byte list \<Rightarrow> byte list \<Rightarrow> byte list outcome" where
  "copy_text str text = (if length str + 1 \<le> length text
     then Ret (str @ 0 # drop (length str + 1) text) else Fault OutOfBounds)"

text \<open>The same from a pointer that may be \<open>NULL\<close>.\<close>

definition copy_from :: "byte list option \<Rightarrow> byte list \<Rightarrow> byte list outcome" where
  "copy_from p text = (case p of None \<Rightarrow> Fault NullDeref | Some str \<Rightarrow> copy_text str text)"

subsection \<open>Commands\<close>

text \<open>
  \<open>execute_system_cmd\<close>: \<open>popen\<close> fails (\<open>None\<close>) or brings the output, which is copied line by line
  into a block of 16384 bytes of which only the first 8 are cleared; \<open>junk\<close> is what the block holds.
  The code does not expect \<open>malloc\<close> to fail.
\<close>

definition DATA_SIZE :: nat where "DATA_SIZE = 16384"
definition FILE_MAX_BUFFER :: nat where "FILE_MAX_BUFFER = 256"

function copy_lines :: "byte list \<Rightarrow> nat \<Rightarrow> byte list \<Rightarrow> byte list outcome" where
  "copy_lines data idx out = (case fgets 256 out of
     None \<Rightarrow> Ret data
   | Some (buf, rest) \<Rightarrow> let s = cstring buf; len = length s in
       if idx + len > length data then Fault OutOfBounds
       else copy_lines (take idx data @ s @ drop (idx + len) data) (idx + len) rest)"
  by pat_completeness auto
termination
  by (relation "measure (\<lambda>(data, idx, out). length out)") (auto dest: fgets_Some(4))

declare copy_lines.simps [simp del]

definition execute_system_cmd :: "byte list option \<Rightarrow> byte list option \<Rightarrow> byte list outcome" where
  "execute_system_cmd block out = (case block of
     None \<Rightarrow> Fault NullDeref
   | Some junk \<Rightarrow> (let data = replicate 8 0 @ drop 8 junk in
       case out of None \<Rightarrow> Ret data | Some bs \<Rightarrow> copy_lines data 0 bs))"

text \<open>The result is 0 when the client is gone.\<close>

definition reply_client_message :: "int \<Rightarrow> byte list \<Rightarrow> int io" where
  "reply_client_message conn_fd msg = sys_write conn_fd msg"

text \<open>
  What a command finds in the system and in uninitialised memory: \<open>popen\<close> and \<open>malloc\<close> may fail, and
  so may \<open>getcwd\<close>, whose \<open>NULL\<close> the code hands to \<open>strcpy\<close>.
\<close>

record shell =
  sh_ls :: "byte list option"
  sh_cwd :: "byte list option"
  sh_junk_msg :: "byte list"
  sh_junk_data :: "byte list option"

text \<open>
  \<open>cd\<close>: the path is copied with the length \<open>strlen(cmd) - 4\<close>, an unsigned number, into 256 cleared
  bytes, and has to end with a NUL for \<open>chdir\<close>.
\<close>

definition cd_path :: "byte list \<Rightarrow> byte list outcome" where
  "cd_path cmd = (let n = int (length cmd) - 4 in
     if n < 0 \<or> n > 256 then Fault OutOfBounds
     else let path = take (nat n) (drop 3 (cmd @ [0])) @ replicate (256 - nat n) 0
       in if 0 \<in> set path then Ret (cstring path) else Fault OutOfBounds)"

definition execute_cmd :: "shell \<Rightarrow> int \<Rightarrow> byte list \<Rightarrow> int io" where
  "execute_cmd sh conn_fd cmd = (let text = sh_junk_msg sh;
     reply = (\<lambda>text. bnd (reply_client_message conn_fd (msg_bytes (htonl MSG_TEXT) text)) (\<lambda>r.
       ret (if r = 0 then -1 else 1)))
   in if starts_with cmd (bytes ''quit'') then
        bnd (of_outcome (copy_text (bytes ''good bye!'') text)) (\<lambda>text.
        bnd (reply_client_message conn_fd (msg_bytes (htonl MSG_TEXT) text)) (\<lambda>_. ret (-1)))
      else if starts_with cmd (bytes ''ls'') then
        bnd (of_outcome (execute_system_cmd (sh_junk_data sh) (sh_ls sh))) (\<lambda>data.
        if 0 \<notin> set data then fault OutOfBounds
        else bnd (of_outcome (copy_text (cstring data) text)) reply)
      else if starts_with cmd (bytes ''pwd'') then
        bnd (of_outcome (copy_from (sh_cwd sh) text)) reply
      else if starts_with cmd (bytes ''cd'') then
        bnd (of_outcome (cd_path cmd)) (\<lambda>path.
        bnd (sys (Chdir path)) (\<lambda>r.
        if r < 0 then bnd (of_outcome (copy_text (bytes ''change dir failed'') text)) reply
        else reply text))
      else bnd (of_outcome (copy_text (bytes ''unknow command'') text)) reply)"

subsection \<open>A connection\<close>

text \<open>
  The loop of \<open>handle_client_request\<close>: a failed \<open>read\<close> is tried again for ever; the message is
  cleared before each one.
\<close>

lemma keeps_rx_execute_cmd [io_intros]: "keeps_rx (execute_cmd sh fd cmd)"
  unfolding execute_cmd_def Let_def reply_client_message_def by (intro io_intros)

function handle_client_request :: "shell \<Rightarrow> int \<Rightarrow> world \<Rightarrow> unit outcome \<times> world" where
  "handle_client_request sh conn_fd w = bnd (sys_read conn_fd msg_size) (\<lambda>x w. case x of (recv_rt, bs) \<Rightarrow>
     if recv_rt < 0 then handle_client_request sh conn_fd w
     else if recv_rt = 0 then ret () w
     else let msg = bs @ replicate (msg_size - length bs) 0; ty = message_type msg in
       if ty = MSG_PING then
         bnd (reply_client_message conn_fd (msg_bytes (htonl MSG_PONG) (drop 4 msg))) (\<lambda>r w.
           if r = 0 then ret () w else handle_client_request sh conn_fd w) w
       else if ty = MSG_TEXT then
         (if 0 \<notin> set (drop 4 msg) then fault OutOfBounds w
          else bnd (execute_cmd sh conn_fd (cstring (drop 4 msg))) (\<lambda>r w.
            if r < 0 then ret () w else handle_client_request sh conn_fd w) w)
       else handle_client_request sh conn_fd w) w"
  by pat_completeness auto
termination
proof (relation "measure (\<lambda>(sh, fd, w). rx_weight (rx w fd))", goal_cases)
  case (2 sh fd w x w' r bs)
  then show ?case
    by (auto simp: sys_read_def dest!: rx_read_weight_err split: option.splits sum.splits)
qed (auto simp: reply_client_message_def dest!: rx_weight_sys_read rx_sys_write keeps_rxD[OF keeps_rx_execute_cmd])

declare handle_client_request.simps [simp del]

text \<open>The accept loop: an old \<open>EINTR\<close> in \<open>errno\<close> drops a good connection.\<close>

definition accept_client_connect :: "int \<Rightarrow> int io" where
  "accept_client_connect listen_fd = bnd (sys (Accept listen_fd)) (\<lambda>conn_fd.
     bnd get_errno (\<lambda>e. ret (if conn_fd < 0 \<or> e = EINTR then -1 else conn_fd)))"

fun telnet_server_loop :: "nat \<Rightarrow> shell \<Rightarrow> int \<Rightarrow> unit io" where
  "telnet_server_loop 0 sh listen_fd = ret ()"
| "telnet_server_loop (Suc k) sh listen_fd = bnd (accept_client_connect listen_fd) (\<lambda>conn_fd.
     if conn_fd < 0 then telnet_server_loop k sh listen_fd
     else bnd (handle_client_request sh conn_fd) (\<lambda>_.
          bnd (sys (Close conn_fd)) (\<lambda>_. telnet_server_loop k sh listen_fd)))"

definition create_tcp_server_socket :: "int \<Rightarrow> int io" where
  "create_tcp_server_socket port =
     bnd (sys (Socket ''AF_INET'' ''SOCK_STREAM'')) (\<lambda>listen_fd. if listen_fd < 0 then die 1
     else bnd (sys (Setsockopt listen_fd ''SO_REUSEADDR'')) (\<lambda>_.
     bnd (sys (Bind listen_fd port)) (\<lambda>r. if r < 0 then die 1
     else bnd (sys (Listen listen_fd 128)) (\<lambda>r. if r < 0 then die 1
     else ret listen_fd))))"

definition telnet_server_main :: "nat \<Rightarrow> shell \<Rightarrow> unit io" where
  "telnet_server_main k sh = bnd (sys (Signal ''SIGPIPE'' ''SIG_IGN'')) (\<lambda>_.
     bnd (create_tcp_server_socket 8017) (\<lambda>listen_fd. telnet_server_loop k sh listen_fd))"

subsection \<open>The client\<close>

definition connect_server :: "byte list \<Rightarrow> int \<Rightarrow> int io" where
  "connect_server ip_addr port =
     bnd (sys (Socket ''AF_INET'' ''SOCK_STREAM'')) (\<lambda>socket_fd. if socket_fd < 0 then die 1
     else bnd (sys (Connect socket_fd ip_addr port)) (\<lambda>r. if r < 0 then die 1
     else ret socket_fd))"

definition send_message :: "int \<Rightarrow> byte list \<Rightarrow> int io" where
  "send_message socket_fd msg = bnd (sys_write socket_fd msg) (\<lambda>r.
     bnd (if r < 0 then print (bytes ''send failed \<newline>'')
          else if r = 0 then print (bytes ''server terminated \<newline>'') else ret ()) (\<lambda>_. ret r))"

definition telnet_read_message :: "int \<Rightarrow> (int \<times> byte list) io" where
  "telnet_read_message socket_fd = bnd (sys_read socket_fd msg_size) (\<lambda>(r, bs).
     bnd (if r < 0 then print (bytes ''read failed \<newline>'')
          else if r = 0 then print (bytes ''server terminated \<newline>'') else ret ()) (\<lambda>_. ret (r, bs)))"

text \<open>The socket's part of a turn: \<open>None\<close> ends the client, else the message is what it holds now.\<close>

definition receive_part :: "int \<Rightarrow> byte list option io" where
  "receive_part socket_fd = bnd (telnet_read_message socket_fd) (\<lambda>(r, bs).
     if r = 0 then ret None
     else let msg = bs @ replicate (msg_size - length bs) 0; ty = message_type msg in
       bnd (if ty = MSG_PONG then print (bytes ''received server pong \<newline>'')
            else if ty = MSG_TEXT then
              (if 0 \<in> set (drop 4 msg) then print (cstring (drop 4 msg) @ [10]) else fault OutOfBounds)
            else print (bytes ''unknow message type.'')) (\<lambda>_. ret (Some msg)))"

text \<open>The keyboard's part of a turn for one line: the result of sending it.\<close>

definition send_part :: "int \<Rightarrow> byte list \<Rightarrow> byte list \<Rightarrow> int io" where
  "send_part socket_fd msg line = (let text = line @ 0 # drop (length line + 1) (drop 4 msg) in
     bnd (if starts_with (cstring text) (bytes ''quit'')
          then bnd (sys (Shutdown socket_fd)) (\<lambda>r.
            if r < 0 then print (bytes ''shutdown failed.'') else ret ())
          else ret ()) (\<lambda>_.
     send_message socket_fd (msg_bytes (htonl MSG_TEXT) text)))"

lemma shrinks_parts [io_intros]:
  "shrinks (send_message fd msg)" "shrinks (receive_part fd)" "shrinks (send_part fd msg line)"
  unfolding send_message_def receive_part_def send_part_def telnet_read_message_def Let_def case_prod_beta
  by (intro io_intros)+

function telnet_client_loop :: "int \<Rightarrow> int \<Rightarrow> int \<Rightarrow> byte list \<Rightarrow> world \<Rightarrow> unit outcome \<times> world" where
  "telnet_client_loop fd heartbeats tv_sec inp w = bnd (sys_select tv_sec) (\<lambda>x w. case x of (rt, rs) \<Rightarrow>
     if rt < 0 then die 1 w
     else if rt = 0 then
       (if heartbeats + 1 > KEEP_ALIVE_PROBE_TIMES then die 1 w
        else bnd (send_message fd (msg_bytes (htonl MSG_PING) (replicate MAX_LINE 0))) (\<lambda>r w.
          if r = 0 then ret () w
          else telnet_client_loop fd (heartbeats + 1) KEEP_ALIVE_INTERVAL inp w) w)
     else
       bnd (if revents rs fd \<noteq> 0 then receive_part fd else ret (Some (replicate msg_size 0))) (\<lambda>m w.
         case m of None \<Rightarrow> ret () w
         | Some msg \<Rightarrow>
             (if revents rs STDIN_FILENO \<noteq> 0 then
                (case fgets MAX_LINE inp of
                   None \<Rightarrow> telnet_client_loop fd 0 KEEP_ALIVE_TIME inp w
                 | Some (line, rest) \<Rightarrow> bnd (send_part fd msg line) (\<lambda>r w.
                     if r = 0 then ret () w
                     else telnet_client_loop fd 0 KEEP_ALIVE_TIME rest w) w)
              else telnet_client_loop fd 0 KEEP_ALIVE_TIME inp w)) w) w"
  by pat_completeness auto
termination
  by (relation "measure (\<lambda>(fd, hb, tv, inp, w). length (answers w))")
    (auto dest!: answers_sys_select shrinksD[OF shrinks_parts(1)] shrinksD[OF shrinks_parts(2)]
      shrinksD[OF shrinks_parts(3)] split: if_splits)

declare telnet_client_loop.simps [simp del]

definition telnet_client_main :: "nat \<Rightarrow> byte list \<Rightarrow> byte list \<Rightarrow> int io" where
  "telnet_client_main argc ip inp =
     (if argc \<noteq> 2 then die 1
      else bnd (connect_server ip 8017) (\<lambda>fd.
        bnd (telnet_client_loop fd 0 KEEP_ALIVE_TIME inp) (\<lambda>_. ret 0)))"

subsection \<open>Commands, properties\<close>

lemma copy_lines_result:
  "0 \<notin> set out \<Longrightarrow> idx + length out \<le> length data \<Longrightarrow>
     copy_lines data idx out = Ret (take idx data @ out @ drop (idx + length out) data)"
proof (induction data idx out rule: copy_lines.induct)
  case (1 data idx out)
  show ?case
  proof (cases "fgets 256 out")
    case None
    then have "out = []" by (simp add: fgets_def split: if_splits)
    then show ?thesis by (simp add: copy_lines.simps fgets_def)
  next
    case (Some p)
    obtain buf rest where p: "p = (buf, rest)" by (cases p)
    note f = fgets_Some[OF Some[unfolded p]]
    have cs: "cstring buf = buf" using "1.prems"(1) f(1) by (intro cstring_id) simp
    let ?data = "take idx data @ buf @ drop (idx + length buf) data"
    have le: "idx + length buf \<le> length data" using "1.prems"(2) f(1) by simp
    have step: "copy_lines data idx out = copy_lines ?data (idx + length buf) rest"
      using le by (subst copy_lines.simps) (simp add: Some p cs Let_def)
    have len: "length ?data = length data" "idx \<le> length data" using "1.prems"(2) f(1) by auto
    have "copy_lines ?data (idx + length buf) rest =
      Ret (take (idx + length buf) ?data @ rest @ drop (idx + length buf + length rest) ?data)"
      using "1.IH"[OF Some p[symmetric] refl refl] "1.prems" f(1) cs len by simp
    moreover have "take (idx + length buf) ?data = take idx data @ buf"
      using len(2) by simp
    moreover have "drop (idx + length buf + length rest) ?data = drop (idx + length out) data"
      using len(2) f(1) by (simp add: ac_simps)
    ultimately show ?thesis using step f(1) by simp
  qed
qed

text \<open>
  C37.  The output of \<open>ls\<close> is answered followed by whatever the fresh block of memory holds, up to
  its first NUL, as soon as it has eight bytes or more: only the first eight bytes are cleared.
\<close>

theorem ls_answer_leaks_memory:
  assumes "0 \<notin> set out" and "length junk = DATA_SIZE" and "length out < DATA_SIZE"
  shows "\<exists>data. execute_system_cmd (Some junk) (Some out) = Ret data \<and>
    cstring data = out @ (if length out < 8 then [] else cstring (drop (length out) junk))"
proof -
  let ?data = "replicate 8 0 @ drop 8 junk"
  have "length ?data = DATA_SIZE" using assms(2) by (simp add: DATA_SIZE_def)
  then have r: "execute_system_cmd (Some junk) (Some out) = Ret (out @ drop (length out) ?data)"
    using copy_lines_result[of out 0 ?data] assms by (simp add: execute_system_cmd_def Let_def)
  have "cstring (drop (length out) ?data) =
      (if length out < 8 then [] else cstring (drop (length out) junk))"
  proof (cases "length out < 8")
    case True
    then obtain k where "8 - length out = Suc k" by (metis Suc_diff_Suc diff_self_eq_0 Suc_pred zero_less_diff)
    with True show ?thesis by (simp add: cstring_def)
  qed simp
  with r show ?thesis by (simp add: cstring_append[OF assms(1)])
qed

theorem ls_answer_leaks_memory_witness:
  "\<exists>data. execute_system_cmd (Some (replicate DATA_SIZE 65)) (Some [46, 10, 46, 46, 10, 97, 98, 10]) = Ret data \<and>
     cstring data = [46, 10, 46, 46, 10, 97, 98, 10] @ replicate (DATA_SIZE - 8) 65"
proof -
  have "takeWhile (\<lambda>b. b \<noteq> 0) (replicate (DATA_SIZE - 8) (65 :: byte)) = replicate (DATA_SIZE - 8) 65"
    by (simp add: takeWhile_eq_all_conv)
  then show ?thesis
    using ls_answer_leaks_memory[of "[46, 10, 46, 46, 10, 97, 98, 10]" "replicate DATA_SIZE 65"]
    by (simp add: DATA_SIZE_def cstring_def)
qed

text \<open>
  C35.  \<open>cd\<close>: a path of at most 250 bytes that ends with LF reaches \<open>chdir\<close> unchanged, and the
  answer to a successful one is uninitialised memory; one that ends with CR LF keeps its CR; a bare
  \<open>cd\<close> makes the length of the copy wrap around.
\<close>

theorem cd_changes_directory:
  assumes "0 \<notin> set p" and "length p \<le> 250" and "answers w = AOk 0 # AOk (int n) # as"
    and "length (sh_junk_msg sh) = MAX_LINE" and "msg_size \<le> n"
  shows "\<exists>w'. execute_cmd sh fd (bytes ''cd '' @ p @ [10]) w = (Ret 1, w') \<and>
      trace w' = trace w @ [ESys (Chdir p) 0,
        EWrite fd (msg_bytes (htonl MSG_TEXT) (sh_junk_msg sh)) (int msg_size)] \<and>
      cd_path (bytes ''cd '' @ p @ [13, 10]) = Ret (p @ [13]) \<and>
      cd_path (bytes ''cd\<newline>'') = Fault OutOfBounds"
proof -
  have cdb: "bytes ''cd '' = [99, 100, 32]" "bytes ''cd\<newline>'' = [99, 100, 10]" "bytes ''quit'' = [113, 117, 105, 116]"
    "bytes ''ls'' = [108, 115]" "bytes ''pwd'' = [112, 119, 100]" "bytes ''cd'' = [99, 100]"
    by (simp_all add: bytes_def)
  have path: "cd_path (bytes ''cd '' @ q @ [10]) = Ret q" if "0 \<notin> set q" "length q \<le> 251" for q
  proof -
    have "cstring (q @ replicate (256 - length q) 0) = q"
      using that cstring_append[OF that(1), of "replicate (256 - length q) 0"]
      by (cases "256 - length q") (auto simp: cstring_def)
    moreover have "0 \<in> set (q @ replicate (256 - length q) 0)" using that(2) by simp
    ultimately show ?thesis using that(2) by (simp add: cd_path_def cdb Let_def)
  qed
  have cr: "cd_path (bytes ''cd '' @ p @ [13, 10]) = Ret (p @ [13])"
    using path[of "p @ [13]"] assms(1,2) by simp
  let ?v = "log_event (ESys (Chdir p) 0) (w\<lparr>answers := AOk (int n) # as\<rparr>)"
  let ?m = "msg_bytes (htonl MSG_TEXT) (sh_junk_msg sh)"
  have len: "length ?m = msg_size" using assms(4) by (simp add: msg_bytes_def msg_size_def)
  have ch: "sys (Chdir p) w = (Ret 0, ?v)" using assms(3) by (simp add: sys_def)
  have wr: "sys_write fd ?m ?v = (Ret (int msg_size), log_event (EWrite fd ?m (int msg_size)) (?v\<lparr>answers := as\<rparr>))"
    using assms(5) len by (simp add: sys_write_def Let_def)
  have pos: "int msg_size \<noteq> 0" by (simp add: msg_size_def)
  have "execute_cmd sh fd (bytes ''cd '' @ p @ [10]) w =
      (Ret 1, log_event (EWrite fd ?m (int msg_size)) (?v\<lparr>answers := as\<rparr>))"
    using path[OF assms(1)] assms(2) pos
    by (simp add: execute_cmd_def Let_def starts_with_def cdb reply_client_message_def ch wr)
  with cr show ?thesis by (simp add: cd_path_def cdb)
qed

theorem cd_changes_directory_witness:
  "\<exists>w'. execute_cmd \<lparr>sh_ls = None, sh_cwd = Some [], sh_junk_msg = replicate MAX_LINE 7, sh_junk_data = Some []\<rparr> 5
      (bytes ''cd '' @ bytes ''/tmp'' @ [10])
      \<lparr>rx = (\<lambda>_. []), answers = [AOk 0, AOk 5000], errno = 0, trace = []\<rparr> = (Ret 1, w') \<and>
    hd (trace w') = ESys (Chdir (bytes ''/tmp'')) 0"
proof -
  have "0 \<notin> set (bytes ''/tmp'')" "length (bytes ''/tmp'') \<le> 250" by (simp_all add: bytes_def)
  from cd_changes_directory[OF this, of "\<lparr>rx = (\<lambda>_. []), answers = [AOk 0, AOk 5000], errno = 0, trace = []\<rparr>"
    5000 "[]" "\<lparr>sh_ls = None, sh_cwd = Some [], sh_junk_msg = replicate MAX_LINE 7, sh_junk_data = Some []\<rparr>" 5]
  show ?thesis by (auto simp: msg_size_def MAX_LINE_def)
qed

subsection \<open>A session ends\<close>

lemma needs_of_outcome: "r \<noteq> Blocked \<Longrightarrow> needs 0 (of_outcome r)"
  by (simp add: needs_def)

lemma not_Blocked [simp]: "copy_text str t \<noteq> Blocked" "cd_path cmd \<noteq> Blocked"
  by (simp_all add: copy_text_def cd_path_def Let_def)

lemma copy_lines_not_Blocked [simp]: "copy_lines data idx out \<noteq> Blocked"
proof (induction data idx out rule: copy_lines.induct)
  case (1 data idx out)
  show ?case
  proof (cases "fgets 256 out")
    case None
    then show ?thesis by (subst copy_lines.simps) simp
  next
    case (Some p)
    obtain buf rest where p: "p = (buf, rest)" by (cases p)
    show ?thesis
      using "1.IH"[OF Some p[symmetric] refl refl] Some p by (subst copy_lines.simps) (simp add: Let_def)
  qed
qed

lemma execute_system_cmd_not_Blocked [simp]: "execute_system_cmd block out \<noteq> Blocked"
  by (simp add: execute_system_cmd_def Let_def split: option.split)

lemma needs_execute_cmd: "needs 2 (execute_cmd sh fd cmd)"
proof -
  let ?reply = "\<lambda>t. bnd (reply_client_message fd (msg_bytes (htonl MSG_TEXT) t)) (\<lambda>r.
    ret (if r = 0 then - 1 else 1))"
  have rep: "needs 1 (?reply t)" for t
    using needs_bnd[OF needs_basic(7) needs_basic(1)] by (simp add: reply_client_message_def)
  have copy: "needs 1 (bnd (of_outcome (copy_text str t)) ?reply)" for str t
  proof -
    have "needs (0 + 1) (bnd (of_outcome (copy_text str t)) ?reply)"
      by (intro needs_bnd needs_of_outcome rep not_Blocked)
    then show ?thesis by simp
  qed
  have pwd: "needs 1 (bnd (of_outcome (copy_from p t)) ?reply)" for p t
  proof (cases p)
    case None
    have "needs (0 + 1) (bnd (of_outcome (copy_from p t)) ?reply)"
      by (intro needs_bnd needs_of_outcome rep) (simp add: None copy_from_def)
    then show ?thesis by simp
  qed (use copy in \<open>simp add: copy_from_def\<close>)
  have quit: "needs 1 (bnd (of_outcome (copy_text str t)) (\<lambda>t.
      bnd (reply_client_message fd (msg_bytes (htonl MSG_TEXT) t)) (\<lambda>_. ret (- 1))))" for str t
  proof -
    have "needs (0 + (1 + 0)) (bnd (of_outcome (copy_text str t)) (\<lambda>t.
      bnd (reply_client_message fd (msg_bytes (htonl MSG_TEXT) t)) (\<lambda>_. ret (- 1))))"
      unfolding reply_client_message_def by (intro needs_bnd needs_of_outcome needs_basic not_Blocked)
    then show ?thesis by simp
  qed
  have ls: "needs 1 (bnd (of_outcome (execute_system_cmd (sh_junk_data sh) (sh_ls sh))) (\<lambda>data.
      if 0 \<notin> set data then fault OutOfBounds
      else bnd (of_outcome (copy_text (cstring data) (sh_junk_msg sh))) ?reply))"
  proof -
    have "needs 1 (if 0 \<notin> set data then fault OutOfBounds
      else bnd (of_outcome (copy_text (cstring data) (sh_junk_msg sh))) ?reply)" for data
      by (simp add: copy[unfolded One_nat_def] needs_mono[OF needs_basic(3)])
    from needs_bnd[OF needs_of_outcome[OF execute_system_cmd_not_Blocked] this] show ?thesis by simp
  qed
  have cd: "needs 2 (bnd (of_outcome (cd_path cmd)) (\<lambda>path. bnd (sys (Chdir path)) (\<lambda>r.
      if r < 0 then bnd (of_outcome (copy_text (bytes ''change dir failed'') (sh_junk_msg sh))) ?reply
      else ?reply (sh_junk_msg sh))))"
  proof -
    have "needs 1 (if r < 0 then bnd (of_outcome (copy_text (bytes ''change dir failed'') (sh_junk_msg sh))) ?reply
      else ?reply (sh_junk_msg sh))" for r :: int
      by (simp add: copy[unfolded One_nat_def] rep[unfolded One_nat_def])
    from needs_bnd[OF needs_of_outcome[OF not_Blocked(2)] needs_bnd[OF needs_basic(6) this]]
    show ?thesis by (simp add: numeral_2_eq_2)
  qed
  show ?thesis unfolding execute_cmd_def Let_def
    by (intro if_split[where P = "needs 2", THEN iffD2] conjI impI cd needs_mono[OF quit] needs_mono[OF ls]
      needs_mono[OF pwd] needs_mono[OF copy] one_le_numeral)
qed

text \<open>One turn of a session: whatever was read, if the rest of the session ends then all of it does.\<close>

lemma telnet_turn_ends:
  assumes rd: "sys_read fd msg_size w = (Ret (r, bs), v)" and "r \<noteq> 0" and ans: "2 \<le> length (answers v)"
    and cont: "\<And>u. rx u = rx v \<Longrightarrow> length (answers v) \<le> length (answers u) + 2 \<Longrightarrow>
      fst (handle_client_request sh fd u) \<noteq> Blocked"
  shows "fst (handle_client_request sh fd w) \<noteq> Blocked"
proof -
  let ?msg = "bs @ replicate (msg_size - length bs) 0"
  consider (neg) "r < 0" | (ping) "0 < r" "message_type ?msg = MSG_PING"
    | (cmd) "0 < r" "message_type ?msg = MSG_TEXT" "message_type ?msg \<noteq> MSG_PING"
    | (other) "0 < r" "message_type ?msg \<noteq> MSG_PING" "message_type ?msg \<noteq> MSG_TEXT"
    using assms(2) by linarith
  then show ?thesis
  proof cases
    case neg
    with rd cont[of v] show ?thesis by (subst handle_client_request.simps) simp
  next
    case ping
    let ?m = "reply_client_message fd (msg_bytes (htonl MSG_PONG) (drop 4 ?msg))"
    obtain r2 u where m: "?m v = (r2, u)" by (cases "?m v")
    have n: "needs 1 ?m" using needs_basic(7) by (simp add: reply_client_message_def)
    have "rx u = rx v" using m rx_sys_write by (simp add: reply_client_message_def)
    with needsD[OF n _ m] ans cont[of u] ping rd m show ?thesis
      by (subst handle_client_request.simps) (cases r2, auto simp: Let_def)
  next
    case cmd
    let ?m = "execute_cmd sh fd (cstring (drop 4 ?msg))"
    obtain r2 u where m: "?m v = (r2, u)" by (cases "?m v")
    have "rx u = rx v" using keeps_rxD[OF keeps_rx_execute_cmd m] .
    with needsD[OF needs_execute_cmd ans m] cont[of u] cmd rd m show ?thesis
      by (subst handle_client_request.simps) (cases r2, auto simp: Let_def)
  next
    case other
    with rd cont[of v] show ?thesis by (subst handle_client_request.simps) (simp add: Let_def)
  qed
qed

text \<open>
  C14.  A session of the telnet server is over when its client has closed, whatever the client has sent
  before, in whatever pieces, and whatever the system answers: with two answers for every step of the
  stream the handler does not wait for ever.
\<close>

theorem telnet_session_ends:
  assumes "rx w fd = xs @ [RxEof]" and "RxEof \<notin> set xs" and "2 * rx_weight xs \<le> length (answers w)"
  shows "fst (handle_client_request sh fd w) \<noteq> Blocked"
  using assms
proof (induction "rx_weight xs" arbitrary: xs w rule: less_induct)
  case less
  have pos: "0 < msg_size" by (simp add: msg_size_def)
  from less.prems(1,2) pos show ?case
  proof (cases rule: sys_read_before_eof)
    case (1 bs v)
    then show ?thesis by (subst handle_client_request.simps) simp
  next
    case (2 r bs v ys)
    show ?thesis
    proof (rule telnet_turn_ends[OF 2(1,3)])
      show "2 \<le> length (answers v)" unfolding 2(2) using 2(6) less.prems(3) by linarith
      fix u :: world
      assume u: "rx u = rx v" "length (answers v) \<le> length (answers u) + 2"
      have "2 * rx_weight ys \<le> length (answers u)" using u(2)[unfolded 2(2)] 2(6) less.prems(3) by linarith
      moreover have "rx u fd = ys @ [RxEof]" using u(1) 2(4) by simp
      ultimately show "fst (handle_client_request sh fd u) \<noteq> Blocked"
        using less.hyps[OF 2(6)] 2(5) by blast
    qed
  qed
qed

theorem telnet_session_ends_witness:
  "fst (handle_client_request \<lparr>sh_ls = None, sh_cwd = Some [], sh_junk_msg = [], sh_junk_data = Some []\<rparr> 5
     \<lparr>rx = (\<lambda>_. [RxErr EINTR, RxEof]), answers = [AOk 0, AOk 0], errno = 0, trace = []\<rparr>) \<noteq> Blocked"
  using telnet_session_ends[of "\<lparr>rx = (\<lambda>_. [RxErr EINTR, RxEof]), answers = [AOk 0, AOk 0], errno = 0,
    trace = []\<rparr>" 5 "[RxErr EINTR]"] by simp

end
