(* ===== verification/Thread_Races.thy ===== *)
theory Thread_Races
  imports Echo_Servers
begin

text \<open>
  The two racy programs of \<^verbatim>\<open>chap-26/\<close>: the server \<^verbatim>\<open>blocking_io_thread_server.c\<close>, whose threads
  get a pointer to the accept loop's variable, and \<^verbatim>\<open>test_pthread.c\<close>, whose threads increment
  shared counters without a lock.
\<close>

subsection \<open>A thread for every connection\<close>

text \<open>
  The variable \<open>conn_fd\<close> of the loop body lives in the same stack slot in every turn.  The main thread
  is before \<open>accept\<close> or before \<open>pthread_create\<close>, whose result it ignores; \<open>ts_starting\<close> counts the
  threads that have not read the variable yet, \<open>ts_served\<close> holds what the others have read, and
  \<open>ts_unserved\<close> counts the connections for which no thread could be created.
\<close>

datatype main_pc = AtAccept | AtCreate

record thread_server =
  ts_pc :: main_pc
  ts_conn_fd :: int
  ts_starting :: nat
  ts_accepted :: "int list"
  ts_served :: "int list"
  ts_unserved :: nat

definition ts_init :: "int \<Rightarrow> thread_server" where
  "ts_init junk = \<lparr>ts_pc = AtAccept, ts_conn_fd = junk, ts_starting = 0, ts_accepted = [], ts_served = [],
     ts_unserved = 0\<rparr>"

inductive ts_step :: "thread_server \<Rightarrow> thread_server \<Rightarrow> bool" where
  ts_accept_failed: "ts_pc s = AtAccept \<Longrightarrow> c < 0 \<Longrightarrow> ts_step s (s\<lparr>ts_conn_fd := c\<rparr>)"
| ts_accept: "ts_pc s = AtAccept \<Longrightarrow> 0 \<le> c \<Longrightarrow>
    ts_step s (s\<lparr>ts_conn_fd := c, ts_pc := AtCreate, ts_accepted := ts_accepted s @ [c]\<rparr>)"
| ts_create: "ts_pc s = AtCreate \<Longrightarrow>
    ts_step s (s\<lparr>ts_pc := AtAccept, ts_starting := Suc (ts_starting s)\<rparr>)"
| ts_create_failed: "ts_pc s = AtCreate \<Longrightarrow>
    ts_step s (s\<lparr>ts_pc := AtAccept, ts_unserved := Suc (ts_unserved s)\<rparr>)"
| ts_run: "ts_starting s = Suc n \<Longrightarrow>
    ts_step s (s\<lparr>ts_starting := n, ts_served := ts_served s @ [ts_conn_fd s]\<rparr>)"

inductive ts_reachable :: "int \<Rightarrow> thread_server \<Rightarrow> bool" for junk where
  ts_start: "ts_reachable junk (ts_init junk)"
| ts_more: "ts_reachable junk s \<Longrightarrow> ts_step s s' \<Longrightarrow> ts_reachable junk s'"

text \<open>
  The file has copies of its own of the set-up and of the connection loop of the thread-pool server;
  a started thread runs the loop on what it has read.
\<close>

definition thread_server_listen :: "int io" where
  "thread_server_listen = create_tcp_server 8026"

definition thread_connection_loop :: "int \<Rightarrow> int \<Rightarrow> unit io" where
  "thread_connection_loop tid fd = connection_loop tid fd"

definition thread_run :: "int \<Rightarrow> int \<Rightarrow> unit io" where
  "thread_run tid fd = thread_connection_loop tid fd"

inductive_cases ts_stepE: "ts_step s s'"

text \<open>
  Every accepted connection gets exactly one thread, unless its creation fails: those that have
  started to serve, those that have not read their argument yet, the failures and the one about to be
  created are as many as the accepted connections.
\<close>

theorem thread_server_count:
  assumes "ts_reachable junk s"
  shows "length (ts_served s) + ts_starting s + ts_unserved s + (if ts_pc s = AtCreate then 1 else 0) =
    length (ts_accepted s)"
  using assms
proof (induction rule: ts_reachable.induct)
  case (ts_more s s')
  from ts_more(2,3) show ?case by (auto elim: ts_stepE)
qed (simp add: ts_init_def)

theorem thread_server_count_witness:
  "\<exists>s. ts_reachable 0 s \<and> ts_pc s = AtCreate \<and> length (ts_served s) + ts_starting s + ts_unserved s + 1 =
     length (ts_accepted s)"
proof -
  let ?s = "(ts_init 0)\<lparr>ts_conn_fd := 5, ts_pc := AtCreate, ts_accepted := [5]\<rparr>"
  have r: "ts_reachable 0 ?s"
    using ts_more[OF ts_start, OF ts_accept[of "ts_init 0" 5]] by (simp add: ts_init_def)
  from thread_server_count[OF r] r show ?thesis by (intro exI[of _ ?s]) simp
qed

text \<open>What a thread reads is a descriptor the main thread has accepted, or a failed \<open>accept\<close>.\<close>

lemma thread_reads_accepted:
  assumes "ts_reachable junk s"
  shows "set (ts_served s) \<subseteq> set (ts_accepted s) \<union> {c. c < 0} \<and>
    (ts_pc s = AtCreate \<or> 0 < ts_starting s \<longrightarrow> ts_conn_fd s \<in> set (ts_accepted s) \<union> {c. c < 0})"
  using assms
proof (induction rule: ts_reachable.induct)
  case (ts_more s s')
  from ts_more(2) show ?case by cases (use ts_more(3) in auto)
qed (simp add: ts_init_def)

subsection \<open>Runs of the thread server\<close>

text \<open>One connection from \<open>accept\<close> to the creation of its thread.\<close>

abbreviation accepting :: "int \<Rightarrow> thread_server \<Rightarrow> thread_server" where
  "accepting c s \<equiv> s\<lparr>ts_conn_fd := c, ts_starting := Suc (ts_starting s), ts_accepted := ts_accepted s @ [c]\<rparr>"

lemma reach_accepting:
  assumes "ts_reachable junk s" and "ts_pc s = AtAccept" and "0 \<le> c"
  shows "ts_reachable junk (accepting c s)"
proof -
  let ?s1 = "s\<lparr>ts_conn_fd := c, ts_pc := AtCreate, ts_accepted := ts_accepted s @ [c]\<rparr>"
  have "ts_reachable junk ?s1" using assms by (blast intro: ts_more ts_accept)
  moreover have "ts_step ?s1 (?s1\<lparr>ts_pc := AtAccept, ts_starting := Suc (ts_starting ?s1)\<rparr>)"
    by (rule ts_create) simp
  ultimately have "ts_reachable junk (?s1\<lparr>ts_pc := AtAccept, ts_starting := Suc (ts_starting ?s1)\<rparr>)"
    by (rule ts_more)
  moreover have "?s1\<lparr>ts_pc := AtAccept, ts_starting := Suc (ts_starting ?s1)\<rparr> = accepting c s"
    using assms(2) by simp
  ultimately show ?thesis by simp
qed

text \<open>All connections arrive before a thread runs.\<close>

lemma reach_all_accepted:
  assumes "ts_reachable junk s" and "ts_pc s = AtAccept" and "\<forall>c \<in> set cs. 0 \<le> c"
  shows "\<exists>s'. ts_reachable junk s' \<and> ts_pc s' = AtAccept \<and> ts_accepted s' = ts_accepted s @ cs \<and>
    ts_starting s' = ts_starting s + length cs \<and> ts_served s' = ts_served s \<and>
    ts_conn_fd s' = (if cs = [] then ts_conn_fd s else last cs)"
  using assms
proof (induction cs arbitrary: s)
  case (Cons c cs)
  have "ts_reachable junk (accepting c s)" using reach_accepting[OF Cons.prems(1,2)] Cons.prems(3) by simp
  from Cons.IH[OF this] Cons.prems(2,3) show ?case by (cases "cs = []") simp_all
qed auto

text \<open>All waiting threads read the variable as it is.\<close>

lemma reach_all_started:
  assumes "ts_reachable junk s" and "ts_starting s = k"
  shows "\<exists>s'. ts_reachable junk s' \<and> ts_accepted s' = ts_accepted s \<and> ts_starting s' = 0 \<and>
    ts_served s' = ts_served s @ replicate k (ts_conn_fd s)"
  using assms
proof (induction k arbitrary: s)
  case (Suc k)
  let ?s1 = "s\<lparr>ts_starting := k, ts_served := ts_served s @ [ts_conn_fd s]\<rparr>"
  have "ts_reachable junk ?s1" using Suc.prems by (blast intro: ts_more ts_run)
  from Suc.IH[OF this] show ?case by simp
qed auto

text \<open>Every thread runs before the next connection arrives.\<close>

lemma reach_in_order:
  assumes "ts_reachable junk s" and "ts_pc s = AtAccept" and "ts_starting s = 0" and "\<forall>c \<in> set cs. 0 \<le> c"
  shows "\<exists>s'. ts_reachable junk s' \<and> ts_accepted s' = ts_accepted s @ cs \<and> ts_starting s' = 0 \<and>
    ts_served s' = ts_served s @ cs"
  using assms
proof (induction cs arbitrary: s)
  case (Cons c cs)
  let ?s1 = "accepting c s"
  let ?s2 = "?s1\<lparr>ts_starting := 0, ts_served := ts_served s @ [c]\<rparr>"
  have "ts_step ?s1 (?s1\<lparr>ts_starting := 0, ts_served := ts_served ?s1 @ [ts_conn_fd ?s1]\<rparr>)"
    by (rule ts_run) (simp add: Cons.prems(3))
  then have "ts_reachable junk ?s2" using reach_accepting[OF Cons.prems(1,2), of c] Cons.prems(4) ts_more by simp
  from Cons.IH[OF this] Cons.prems show ?case by simp
qed auto

text \<open>
  C33.  A thread of the thread server serves an accepted descriptor or a negative one, but not
  necessarily its own.  Whatever connections \<open>cs\<close> arrive, they may be served each by its thread; but
  the threads may also all serve the last one, so that nobody serves the others, or all serve the
  result -1 of an \<open>accept\<close> that failed later.
\<close>

theorem thread_server_race:
  assumes "cs \<noteq> []" and "\<forall>c \<in> set cs. 0 \<le> c"
  shows "(\<forall>s. ts_reachable junk s \<longrightarrow> set (ts_served s) \<subseteq> set (ts_accepted s) \<union> {c. c < 0}) \<and>
    (\<forall>served \<in> {cs, replicate (length cs) (last cs), replicate (length cs) (-1)}.
       \<exists>s. ts_reachable junk s \<and> ts_accepted s = cs \<and> ts_starting s = 0 \<and> ts_served s = served)"
proof -
  have init: "ts_pc (ts_init junk) = AtAccept" "ts_starting (ts_init junk) = 0" "ts_accepted (ts_init junk) = []"
    "ts_served (ts_init junk) = []" by (simp_all add: ts_init_def)
  obtain s where s: "ts_reachable junk s" "ts_pc s = AtAccept" "ts_accepted s = cs" "ts_starting s = length cs"
    "ts_served s = []" "ts_conn_fd s = last cs"
    using reach_all_accepted[OF ts_start init(1) assms(2)] init assms(1) by auto
  have failed: "ts_reachable junk (s\<lparr>ts_conn_fd := -1\<rparr>)"
    using ts_more[OF s(1) ts_accept_failed[OF s(2)], of "-1"] by simp
  have "\<exists>s. ts_reachable junk s \<and> ts_accepted s = cs \<and> ts_starting s = 0 \<and> ts_served s = cs"
    using reach_in_order[OF ts_start init(1,2) assms(2)] init by auto
  moreover have "\<exists>s. ts_reachable junk s \<and> ts_accepted s = cs \<and> ts_starting s = 0 \<and>
      ts_served s = replicate (length cs) (last cs)"
    using reach_all_started[OF s(1,4)] s by auto
  moreover have "\<exists>s. ts_reachable junk s \<and> ts_accepted s = cs \<and> ts_starting s = 0 \<and>
      ts_served s = replicate (length cs) (-1)"
    using reach_all_started[OF failed, of "length cs"] s by auto
  ultimately show ?thesis using thread_reads_accepted by simp
qed

theorem thread_server_race_witness:
  "\<exists>s. ts_reachable 0 s \<and> ts_accepted s = [5, 6] \<and> ts_starting s = 0 \<and> ts_served s = [6, 6]"
  using thread_server_race[of "[5, 6]" 0] by (simp add: numeral_2_eq_2)

subsection \<open>Counters without a lock\<close>

text \<open>
  Each of the two threads runs a number of turns of \<open>thread_run\<close>: load and store \<open>*calculator\<close>, then
  load and store \<open>another_shared\<close>.
\<close>

datatype counter_pc = LoadCalc | StoreCalc int | LoadShared | StoreShared int

record counters =
  calc :: int
  shared :: int
  turns_left :: "bool \<Rightarrow> nat"
  counter_pc :: "bool \<Rightarrow> counter_pc"

definition counters_init :: "nat \<Rightarrow> int \<Rightarrow> counters" where
  "counters_init n junk = \<lparr>calc = junk, shared = 0, turns_left = (\<lambda>_. n), counter_pc = (\<lambda>_. LoadCalc)\<rparr>"

definition tick :: "bool \<Rightarrow> counters \<Rightarrow> counters" where
  "tick t s = (if turns_left s t = 0 then s else case counter_pc s t of
     LoadCalc \<Rightarrow> s\<lparr>counter_pc := (counter_pc s)(t := StoreCalc (calc s + 1))\<rparr>
   | StoreCalc v \<Rightarrow> s\<lparr>calc := v, counter_pc := (counter_pc s)(t := LoadShared)\<rparr>
   | LoadShared \<Rightarrow> s\<lparr>counter_pc := (counter_pc s)(t := StoreShared (shared s + 1))\<rparr>
   | StoreShared v \<Rightarrow> s\<lparr>shared := v, counter_pc := (counter_pc s)(t := LoadCalc),
       turns_left := (turns_left s)(t := turns_left s t - 1)\<rparr>)"

text \<open>
  The third thread reads \<open>val\<close>, which nobody has initialised, and does not change it; at the end the
  main thread reports the three variables.
\<close>

definition thread_run1 :: "int \<Rightarrow> unit io" where
  "thread_run1 val = (if in_int (val + 1)
     then print (bytes ''thread val: '' @ dec (val + 1) @ bytes '' \<newline>'') else fault IntOverflow)"

definition pthread_report :: "counters \<Rightarrow> int \<Rightarrow> unit io" where
  "pthread_report s val =
     bnd (print (bytes ''calculator: '' @ dec (calc s) @ bytes '' \<newline>'')) (\<lambda>_.
     bnd (print (bytes ''another_shared: '' @ dec (shared s) @ bytes '' \<newline>'')) (\<lambda>_.
     bnd (print (bytes ''val: '' @ dec val @ bytes '' \<newline>'')) (\<lambda>_. die 0)))"

definition run_counters :: "bool list \<Rightarrow> counters \<Rightarrow> counters" where
  "run_counters sched s = fold tick sched s"

subsection \<open>What a counter can hold\<close>

text \<open>
  Both counters behave alike, so the invariant is stated once, for a variable that began at \<open>x0\<close>: \<open>x\<close> is
  its value, \<open>don t\<close> the number of stores thread \<open>t\<close> has made to it and \<open>pend t\<close> the value the thread
  is about to store.  A store is at most one more than all stores so far; the value never falls back to
  \<open>x0\<close>; and a thread that has stored before is about to store at least \<open>x0 + 2\<close>.
\<close>

definition counter_ok :: "nat \<Rightarrow> int \<Rightarrow> int \<Rightarrow> (bool \<Rightarrow> nat) \<Rightarrow> (bool \<Rightarrow> int option) \<Rightarrow> bool" where
  "counter_ok n x0 x don pend \<longleftrightarrow> (\<forall>t. don t \<le> n) \<and>
     x \<le> x0 + int (don True + don False) \<and>
     x0 + (if don = (\<lambda>_. 0) then 0 else 1) \<le> x \<and>
     (\<forall>t v. pend t = Some v \<longrightarrow> don t < n \<and> v \<le> x0 + int (don True + don False) + 1 \<and>
        x0 + (if don t = 0 then 1 else 2) \<le> v) \<and>
     (don = (\<lambda>_. n) \<longrightarrow> x0 + min (int n) 2 \<le> x)"

lemma bool_fun_eq: "f = g \<longleftrightarrow> f True = g True \<and> f False = g False" for f g :: "bool \<Rightarrow> 'a"
  by (metis (full_types) ext)

lemma counter_ok_init: "counter_ok n x0 x0 (\<lambda>_. 0) (\<lambda>_. None)"
  by (auto simp: counter_ok_def bool_fun_eq)

lemma counter_ok_load:
  assumes "counter_ok n x0 x don pend" and "don t < n"
  shows "counter_ok n x0 x don (pend(t := Some (x + 1)))"
  using assms by (cases t) (auto simp: counter_ok_def bool_fun_eq split: if_splits)

lemma counter_ok_store:
  assumes "counter_ok n x0 x don pend" and "pend t = Some v"
  shows "counter_ok n x0 v (don(t := Suc (don t))) (pend(t := None))"
proof -
  have v: "don t < n" "v \<le> x0 + int (don True + don False) + 1" "x0 + (if don t = 0 then 1 else 2) \<le> v"
    using assms by (auto simp: counter_ok_def)
  have o: "don u < n" "y \<le> x0 + int (don True + don False) + 1" "x0 + (if don u = 0 then 1 else 2) \<le> y"
    if "pend u = Some y" for u y using assms(1) that by (auto simp: counter_ok_def)
  have d: "don u \<le> n" for u using assms(1) by (simp add: counter_ok_def)
  show ?thesis unfolding counter_ok_def bool_fun_eq
  proof (intro conjI allI impI)
    fix u y assume "(pend(t := None)) u = Some y"
    then have "u \<noteq> t" "pend u = Some y" by (auto split: if_splits)
    with o[OF this(2)] show "(don(t := Suc (don t))) u < n"
      "y \<le> x0 + int ((don(t := Suc (don t))) True + (don(t := Suc (don t))) False) + 1"
      "x0 + (if (don(t := Suc (don t))) u = 0 then 1 else 2) \<le> y" by auto
  qed (use v d in \<open>auto split: if_splits\<close>)
qed

text \<open>The two counters in a state.\<close>

fun calc_pending :: "counter_pc \<Rightarrow> int option" where
  "calc_pending (StoreCalc v) = Some v" | "calc_pending _ = None"

fun shared_pending :: "counter_pc \<Rightarrow> int option" where
  "shared_pending (StoreShared v) = Some v" | "shared_pending _ = None"

fun past_calc :: "counter_pc \<Rightarrow> nat" where
  "past_calc LoadShared = 1" | "past_calc (StoreShared _) = 1" | "past_calc _ = 0"

definition counters_ok :: "nat \<Rightarrow> int \<Rightarrow> counters \<Rightarrow> bool" where
  "counters_ok n junk s \<longleftrightarrow> (\<forall>t. turns_left s t \<le> n \<and> (turns_left s t = 0 \<longrightarrow> counter_pc s t = LoadCalc)) \<and>
     counter_ok n junk (calc s) (\<lambda>t. n - turns_left s t + past_calc (counter_pc s t)) (\<lambda>t. calc_pending (counter_pc s t)) \<and>
     counter_ok n 0 (shared s) (\<lambda>t. n - turns_left s t) (\<lambda>t. shared_pending (counter_pc s t))"

lemma counters_ok_init: "counters_ok n junk (counters_init n junk)"
  using counter_ok_init by (simp add: counters_ok_def counters_init_def)

lemma counters_ok_tick:
  assumes ok: "counters_ok n junk s"
  shows "counters_ok n junk (tick t s)"
proof (cases "turns_left s t = 0")
  case True
  with ok show ?thesis by (simp add: tick_def)
next
  case False
  let ?dc = "\<lambda>t. n - turns_left s t + past_calc (counter_pc s t)" and ?pc = "\<lambda>t. calc_pending (counter_pc s t)"
  let ?ds = "\<lambda>t. n - turns_left s t" and ?ps = "\<lambda>t. shared_pending (counter_pc s t)"
  have c: "counter_ok n junk (calc s) ?dc ?pc" and h: "counter_ok n 0 (shared s) ?ds ?ps"
    and tl: "turns_left s u \<le> n" and idle: "turns_left s u = 0 \<Longrightarrow> counter_pc s u = LoadCalc" for u
    using ok by (auto simp: counters_ok_def)
  have less: "?ds t < n" using False tl[of t] by simp
  show ?thesis
  proof (cases "counter_pc s t")
    case LoadCalc
    let ?v = "StoreCalc (calc s + 1)"
    have "?dc t < n" using less LoadCalc by simp
    note counter_ok_load[OF c this]
    moreover have "?pc(t := Some (calc s + 1)) = (\<lambda>u. calc_pending (((counter_pc s)(t := ?v)) u))"
      and "?dc = (\<lambda>u. n - turns_left s u + past_calc (((counter_pc s)(t := ?v)) u))"
      and "?ps = (\<lambda>u. shared_pending (((counter_pc s)(t := ?v)) u))" using LoadCalc by auto
    ultimately show ?thesis using LoadCalc False ok h by (simp add: tick_def counters_ok_def)
  next
    case (StoreCalc v)
    have "?pc t = Some v" using StoreCalc by simp
    note counter_ok_store[OF c this]
    moreover have "?pc(t := None) = (\<lambda>u. calc_pending (((counter_pc s)(t := LoadShared)) u))"
      and "?dc(t := Suc (?dc t)) = (\<lambda>u. n - turns_left s u + past_calc (((counter_pc s)(t := LoadShared)) u))"
      and "?ps = (\<lambda>u. shared_pending (((counter_pc s)(t := LoadShared)) u))" using StoreCalc by auto
    ultimately show ?thesis using StoreCalc False ok h by (simp add: tick_def counters_ok_def)
  next
    case LoadShared
    let ?v = "StoreShared (shared s + 1)"
    note counter_ok_load[OF h less]
    moreover have "?ps(t := Some (shared s + 1)) = (\<lambda>u. shared_pending (((counter_pc s)(t := ?v)) u))"
      and "?dc = (\<lambda>u. n - turns_left s u + past_calc (((counter_pc s)(t := ?v)) u))"
      and "?pc = (\<lambda>u. calc_pending (((counter_pc s)(t := ?v)) u))" using LoadShared by auto
    ultimately show ?thesis using LoadShared False ok c by (simp add: tick_def counters_ok_def)
  next
    case (StoreShared v)
    let ?tl = "(turns_left s)(t := turns_left s t - 1)"
    have "?ps t = Some v" using StoreShared by simp
    note counter_ok_store[OF h this]
    moreover have "?ps(t := None) = (\<lambda>u. shared_pending (((counter_pc s)(t := LoadCalc)) u))"
      and "?ds(t := Suc (?ds t)) = (\<lambda>u. n - ?tl u)"
      and "?dc = (\<lambda>u. n - ?tl u + past_calc (((counter_pc s)(t := LoadCalc)) u))"
      and "?pc = (\<lambda>u. calc_pending (((counter_pc s)(t := LoadCalc)) u))"
      using StoreShared False tl[of t] by (auto simp: fun_eq_iff)
    moreover have "?tl u \<le> n" for u using tl[of u] tl[of t] by (cases "u = t") simp_all
    ultimately show ?thesis using StoreShared False ok c by (simp add: tick_def counters_ok_def)
  qed
qed

lemma counters_ok_run: "counters_ok n junk s \<Longrightarrow> counters_ok n junk (run_counters sched s)"
  unfolding run_counters_def by (induction sched arbitrary: s) (auto simp: counters_ok_tick)

text \<open>What holds at every moment, and when both threads have finished.\<close>

lemma counters_bounds:
  assumes "s = run_counters sched (counters_init n junk)"
  shows "0 \<le> shared s" "shared s \<le> 2 * int n" "junk \<le> calc s" "calc s \<le> junk + 2 * int n"
    and "turns_left s = (\<lambda>_. 0) \<Longrightarrow> min (int n) 2 \<le> shared s \<and> junk + min (int n) 2 \<le> calc s"
proof -
  let ?dc = "\<lambda>t. n - turns_left s t + past_calc (counter_pc s t)" and ?ds = "\<lambda>t. n - turns_left s t"
  have ok: "counters_ok n junk s" using counters_ok_run[OF counters_ok_init] assms by simp
  then have c: "counter_ok n junk (calc s) ?dc (\<lambda>t. calc_pending (counter_pc s t))"
    and h: "counter_ok n 0 (shared s) ?ds (\<lambda>t. shared_pending (counter_pc s t))" unfolding counters_ok_def by blast+
  have "?dc u \<le> n" for u using c by (simp add: counter_ok_def)
  from this[of True] this[of False] show "calc s \<le> junk + 2 * int n" using c unfolding counter_ok_def by linarith
  show "shared s \<le> 2 * int n" "0 \<le> shared s" "junk \<le> calc s" using c h by (auto simp: counter_ok_def split: if_splits)
  assume z: "turns_left s = (\<lambda>_. 0)"
  then have "?dc = (\<lambda>_. n)" using ok by (simp add: counters_ok_def)
  with z c h show "min (int n) 2 \<le> shared s \<and> junk + min (int n) 2 \<le> calc s" by (simp add: counter_ok_def)
qed

subsection \<open>Schedules that reach the bounds\<close>

text \<open>Undisturbed turns of one thread.\<close>

lemma one_turn:
  assumes "counter_pc s t = LoadCalc" and "turns_left s t = Suc k"
  shows "\<exists>s'. run_counters [t, t, t, t] s = s' \<and> shared s' = shared s + 1 \<and> calc s' = calc s + 1 \<and>
    counter_pc s' = counter_pc s \<and> turns_left s' = (turns_left s)(t := k)"
  using assms by (auto simp: run_counters_def tick_def)

lemma run_append: "run_counters (xs @ ys) s = run_counters ys (run_counters xs s)"
  by (simp add: run_counters_def)

lemma undisturbed:
  assumes "counter_pc s t = LoadCalc" and "turns_left s t = k + r"
  shows "\<exists>s'. run_counters (concat (replicate k [t, t, t, t])) s = s' \<and> shared s' = shared s + int k \<and>
    calc s' = calc s + int k \<and> counter_pc s' = counter_pc s \<and> turns_left s' = (turns_left s)(t := r)"
  using assms
proof (induction k arbitrary: s)
  case 0
  then show ?case by (auto simp: run_counters_def)
next
  case (Suc k)
  let ?s1 = "run_counters [t, t, t, t] s"
  have 1: "shared ?s1 = shared s + 1" "calc ?s1 = calc s + 1" "counter_pc ?s1 = counter_pc s"
    "turns_left ?s1 = (turns_left s)(t := k + r)" using one_turn[of s t "k + r"] Suc.prems by auto
  have "run_counters (concat (replicate (Suc k) [t, t, t, t])) s =
      run_counters (concat (replicate k [t, t, t, t])) ?s1"
    by (simp flip: run_append)
  with Suc.IH[of ?s1] Suc.prems(1) 1 show ?case by auto
qed

text \<open>
  The worst schedules.  Thread \<open>True\<close> loads the variable first and stores 1 after all turns but one of
  thread \<open>False\<close>; thread \<open>False\<close> loads this 1 and stores 2 after thread \<open>True\<close> has finished.
\<close>

abbreviation turns :: "bool \<Rightarrow> nat \<Rightarrow> bool list" where
  "turns t k \<equiv> concat (replicate k [t, t, t, t])"

definition lose_shared :: "nat \<Rightarrow> bool list" where
  "lose_shared m = [True, True, True] @ turns False m @ [True] @ [False, False, False] @ turns True m @ [False]"

definition lose_calc :: "nat \<Rightarrow> bool list" where
  "lose_calc m = [True] @ turns False m @ [True] @ [False] @ [True, True] @ turns True m @ [False, False, False]"

lemma run_turns:
  assumes "counter_pc s t = LoadCalc" and "turns_left s t = k + r"
  shows "shared (run_counters (turns t k) s) = shared s + int k"
    "calc (run_counters (turns t k) s) = calc s + int k"
    "counter_pc (run_counters (turns t k) s) = counter_pc s"
    "turns_left (run_counters (turns t k) s) = (turns_left s)(t := r)"
  using undisturbed[OF assms] by auto

lemma run_few: "run_counters [] s = s" "run_counters (t # ts) s = run_counters ts (tick t s)"
  by (simp_all add: run_counters_def)

lemma lose_shared_result:
  "turns_left (run_counters (lose_shared m) (counters_init (Suc m) junk)) = (\<lambda>_. 0) \<and>
   shared (run_counters (lose_shared m) (counters_init (Suc m) junk)) = 2"
proof -
  define s1 where "s1 = run_counters [True, True, True] (counters_init (Suc m) junk)"
  have 1: "counter_pc s1 True = StoreShared 1" "counter_pc s1 False = LoadCalc" "turns_left s1 = (\<lambda>_. Suc m)"
    by (simp_all add: s1_def run_few tick_def counters_init_def)
  define s2 where "s2 = run_counters (turns False m) s1"
  have 2: "counter_pc s2 = counter_pc s1" "turns_left s2 = (\<lambda>_. Suc m)(False := 1)"
    using run_turns[of s1 False m 1] 1 by (simp_all add: s2_def)
  define s3 where "s3 = run_counters [True, False, False, False] s2"
  have 3: "counter_pc s3 True = LoadCalc" "counter_pc s3 False = StoreShared 2" "turns_left s3 = (\<lambda>_. 1)(True := m)"
    using 1 2 by (auto simp: s3_def run_few tick_def)
  define s4 where "s4 = run_counters (turns True m) s3"
  have 4: "counter_pc s4 = counter_pc s3" "turns_left s4 = (\<lambda>_. 1)(True := 0)"
    using run_turns[of s3 True m 0] 3 by (simp_all add: s4_def)
  have "run_counters (lose_shared m) (counters_init (Suc m) junk) = tick False s4"
    by (simp only: lose_shared_def s4_def s3_def s2_def s1_def run_append run_few append.simps)
  then show ?thesis using 3 4 by (auto simp: tick_def)
qed

lemma lose_calc_result:
  "turns_left (run_counters (lose_calc m) (counters_init (Suc m) junk)) = (\<lambda>_. 0) \<and>
   calc (run_counters (lose_calc m) (counters_init (Suc m) junk)) = junk + 2"
proof -
  define s1 where "s1 = run_counters [True] (counters_init (Suc m) junk)"
  have 1: "counter_pc s1 True = StoreCalc (junk + 1)" "counter_pc s1 False = LoadCalc" "turns_left s1 = (\<lambda>_. Suc m)"
    by (simp_all add: s1_def run_few tick_def counters_init_def)
  define s2 where "s2 = run_counters (turns False m) s1"
  have 2: "counter_pc s2 = counter_pc s1" "turns_left s2 = (\<lambda>_. Suc m)(False := 1)"
    using run_turns[of s1 False m 1] 1 by (simp_all add: s2_def)
  define s3 where "s3 = run_counters [True, False, True, True] s2"
  have 3: "counter_pc s3 True = LoadCalc" "counter_pc s3 False = StoreCalc (junk + 2)" "turns_left s3 = (\<lambda>_. 1)(True := m)"
    using 1 2 by (auto simp: s3_def run_few tick_def)
  define s4 where "s4 = run_counters (turns True m) s3"
  have 4: "counter_pc s4 = counter_pc s3" "turns_left s4 = (\<lambda>_. 1)(True := 0)"
    using run_turns[of s3 True m 0] 3 by (simp_all add: s4_def)
  have "run_counters (lose_calc m) (counters_init (Suc m) junk) = run_counters [False, False, False] s4"
    by (simp only: lose_calc_def s4_def s3_def s2_def s1_def run_append run_few append.simps)
  then show ?thesis using 3 4 by (auto simp: tick_def run_few)
qed

text \<open>Both counters together reach the upper bound; one turn of both in lockstep counts once.\<close>

lemma count_all:
  fixes n :: nat and junk :: int
  defines "s \<equiv> run_counters (turns True n @ turns False n) (counters_init n junk)"
  shows "turns_left s = (\<lambda>_. 0)" "shared s = 2 * int n" "calc s = junk + 2 * int n"
proof -
  let ?s = "counters_init n junk"
  let ?s1 = "run_counters (turns True n) ?s"
  have 1: "shared ?s1 = int n" "calc ?s1 = junk + int n" "counter_pc ?s1 = (\<lambda>_. LoadCalc)" "turns_left ?s1 = (\<lambda>_. n)(True := 0)"
    using run_turns[of ?s True n 0] by (auto simp: counters_init_def)
  show "turns_left s = (\<lambda>_. 0)" "shared s = 2 * int n" "calc s = junk + 2 * int n"
    using run_turns[of ?s1 False n 0] 1 by (auto simp: s_def run_append)
qed

lemma count_once:
  fixes junk :: int
  defines "s \<equiv> run_counters [True, False, True, False, True, False, True, False] (counters_init 1 junk)"
  shows "turns_left s = (\<lambda>_. 0)" "shared s = 1" "calc s = junk + 1"
  by (auto simp: s_def run_few tick_def counters_init_def)

lemma fewest:
  "(\<exists>sched. turns_left (run_counters sched (counters_init n junk)) = (\<lambda>_. 0) \<and>
     shared (run_counters sched (counters_init n junk)) = min (int n) 2) \<and>
   (\<exists>sched. turns_left (run_counters sched (counters_init n junk)) = (\<lambda>_. 0) \<and>
     calc (run_counters sched (counters_init n junk)) = junk + min (int n) 2)"
proof -
  have "n = 0 \<or> n = 1 \<or> (\<exists>m. n = Suc m \<and> min (int n) 2 = 2)" by (cases n) auto
  then show ?thesis
  proof (elim disjE exE conjE)
    assume "n = 0"
    with count_all[of 0 junk] show ?thesis by auto
  next
    assume "n = 1"
    with count_once[of junk] show ?thesis by auto
  next
    fix m assume n: "n = Suc m" "min (int n) 2 = 2"
    show ?thesis unfolding n(2) unfolding n(1) using lose_shared_result[of m junk] lose_calc_result[of m junk] by blast
  qed
qed

text \<open>
  C32.  Two threads of \<open>n\<close> turns (1000 in the program) lose updates of both counters,
  \<open>another_shared\<close>, which begins at 0, and \<open>calculator\<close>, a local variable that is never initialised (its
  value \<open>junk\<close> is taken to be small enough not to overflow).  No interleaving counts more than \<open>2 n\<close> in
  either, none that runs to the end counts less than 2 (or \<open>n\<close>, if that is less), and all these bounds
  are reached: in the worst interleavings all but 2 of the 2000 increments of a counter are lost.
\<close>

theorem counters_lose_updates:
  "(\<forall>sched. let s = run_counters sched (counters_init n junk) in
      shared s \<le> 2 * int n \<and> calc s \<le> junk + 2 * int n \<and>
      (turns_left s = (\<lambda>_. 0) \<longrightarrow> min (int n) 2 \<le> shared s \<and> junk + min (int n) 2 \<le> calc s)) \<and>
   (\<exists>sched. let s = run_counters sched (counters_init n junk) in
      turns_left s = (\<lambda>_. 0) \<and> shared s = 2 * int n \<and> calc s = junk + 2 * int n) \<and>
   (\<exists>sched. let s = run_counters sched (counters_init n junk) in
      turns_left s = (\<lambda>_. 0) \<and> shared s = min (int n) 2) \<and>
   (\<exists>sched. let s = run_counters sched (counters_init n junk) in
      turns_left s = (\<lambda>_. 0) \<and> calc s = junk + min (int n) 2)"
  unfolding Let_def using counters_bounds[of _ _ n junk, OF refl] count_all[of n junk] fewest[of n junk] by blast

text \<open>A complete run of three turns each that ends with 2.\<close>

theorem counters_lose_updates_witness:
  "turns_left (run_counters (lose_shared 2) (counters_init 3 7)) = (\<lambda>_. 0) \<and>
   2 \<le> shared (run_counters (lose_shared 2) (counters_init 3 7)) \<and>
   shared (run_counters (lose_shared 2) (counters_init 3 7)) = 2"
proof -
  have "turns_left (run_counters (lose_shared 2) (counters_init 3 7)) = (\<lambda>_. 0)"
    "shared (run_counters (lose_shared 2) (counters_init 3 7)) = 2"
    using lose_shared_result[of 2 7] by simp_all
  with counters_lose_updates[of 3 7] show ?thesis by (simp add: Let_def)
qed

end
