(* ===== verification/Simple_Programs.thy ===== *)
theory Simple_Programs
  imports Common_IO
begin

text \<open>
  The introductory stream programs: \<^verbatim>\<open>chap-4/make_socket.c\<close>, the bulk transfer of \<^verbatim>\<open>chap-5\<close>, the
  local sockets of \<^verbatim>\<open>chap-7\<close>, the half-close programs of \<^verbatim>\<open>chap-11\<close>, \<^verbatim>\<open>chap-13/writev_client.c\<close>
  and \<^verbatim>\<open>chap-15/tcp_reuse_server.c\<close>.  A C program's end with \<open>EXIT_FAILURE\<close> is the outcome \<open>Exit 1\<close>.
\<close>

subsection \<open>\<^verbatim>\<open>chap-4\<close>\<close>

definition make_socket :: "int \<Rightarrow> int io" where
  "make_socket port = bnd (sys (Socket ''PF_INET'' ''SOCK_STREAM'')) (\<lambda>sock. if sock < 0 then die 1
     else bnd (sys (Bind sock port)) (\<lambda>r. if r < 0 then die 1 else ret sock))"

text \<open>The address line is not modelled; a failed \<open>accept\<close> is not noticed.\<close>

fun greet_loop :: "nat \<Rightarrow> int \<Rightarrow> unit io" where
  "greet_loop 0 sock = ret ()"
| "greet_loop (Suc k) sock = bnd (sys (Accept sock)) (\<lambda>cli_fd.
     bnd (sys_write cli_fd (bytes ''hello, my bro.'' @ [13, 10])) (\<lambda>_.
     bnd (sys (Close cli_fd)) (\<lambda>_. greet_loop k sock)))"

definition make_socket_main :: "nat \<Rightarrow> unit io" where
  "make_socket_main k = bnd (make_socket 8081) (\<lambda>sock.
     bnd (sys (Listen sock 3)) (\<lambda>r. if r < 0 then die 1 else greet_loop k sock))"

subsection \<open>\<^verbatim>\<open>chap-5\<close>\<close>

function send_loop :: "int \<Rightarrow> byte list \<Rightarrow> world \<Rightarrow> unit outcome \<times> world" where
  "send_loop sockfd cp w =
     (if cp = [] then ret () w
      else bnd (sys_write sockfd cp) (\<lambda>written w.
        bnd (print (bytes ''send into buffer '' @ dec written @ bytes '' \<newline>'')) (\<lambda>_ w.
          if written \<le> 0 then ret () w else send_loop sockfd (drop (nat written) cp) w) w) w)"
  by pat_completeness auto
termination
  by (relation "measure (\<lambda>(sockfd, cp, w). length cp)") auto

declare send_loop.simps [simp del]

definition send_data :: "nat \<Rightarrow> int \<Rightarrow> unit io" where
  "send_data n sockfd = send_loop sockfd (replicate n 97)"

text \<open>A failed \<open>socket\<close> or \<open>connect\<close> does not end the program.\<close>

definition tcp_client_main :: "nat \<Rightarrow> byte list \<Rightarrow> unit io" where
  "tcp_client_main argc ip =
     (if argc \<noteq> 2 then die 1
      else bnd (sys (Socket ''AF_INET'' ''SOCK_STREAM'')) (\<lambda>sockfd.
      bnd (sys (Connect sockfd ip 12345)) (\<lambda>_.
      bnd (send_data 10240000 sockfd) (\<lambda>_. die 0))))"

text \<open>Every successful or failed \<open>readn\<close> takes something from the stream.\<close>

lemma readn_loop_weight:
  "readn_loop fd len buf w = (Ret (failed, len', buf'), w') \<Longrightarrow>
     rx_weight (rx w' fd) \<le> rx_weight (rx w fd) \<and>
     (failed \<or> len' \<noteq> len \<longrightarrow> rx_weight (rx w' fd) < rx_weight (rx w fd))"
proof (induction fd len buf w rule: readn_loop.induct)
  case (1 fd len buf w)
  show ?case
  proof (cases "len > 0")
    case False
    with "1.prems" show ?thesis by (subst (asm) readn_loop.simps) auto
  next
    case True
    then obtain r bs w1 where rd: "sys_read fd (nat len) w = (Ret (r, bs), w1)"
      using "1.prems" by (subst (asm) readn_loop.simps) (auto split: prod.splits outcome.splits)
    consider (err) "r < 0" | (eof) "r = 0" | (data) "r > 0" by linarith
    then show ?thesis
    proof cases
      case err
      have lt: "rx_weight (rx w1 fd) < rx_weight (rx w fd)"
        using rd err by (auto simp: sys_read_def dest!: rx_read_weight_err split: option.splits sum.splits)
      show ?thesis
      proof (cases "errno w1 = EINTR")
        case intr: True
        have "readn_loop fd len buf w1 = (Ret (failed, len', buf'), w')"
          using "1.prems" rd True err intr by (subst (asm) readn_loop.simps) auto
        from "1.IH"(1)[OF True rd[symmetric] refl refl err intr this] lt show ?thesis by auto
      next
        case False
        with "1.prems" rd True err lt show ?thesis by (subst (asm) readn_loop.simps) auto
      qed
    next
      case eof
      then have "rx_weight (rx w1 fd) \<le> rx_weight (rx w fd)"
        using rd rx_read_eof[of "nat len" "rx w fd"]
        by (auto simp: sys_read_def split: option.splits sum.splits)
      with "1.prems" rd True eof show ?thesis by (subst (asm) readn_loop.simps) auto
    next
      case data
      have "readn_loop fd (len - r) (buf @ bs) w1 = (Ret (failed, len', buf'), w')"
        using "1.prems" rd True data by (subst (asm) readn_loop.simps) auto
      with "1.IH"(2)[OF True rd[symmetric] refl refl] data rx_weight_sys_read[OF rd data]
      show ?thesis by auto
    qed
  qed
qed

lemma readn_weight:
  assumes "readn fd 1024 w = (Ret (r, buf), w')" and "r \<noteq> 0"
  shows "rx_weight (rx w' fd) < rx_weight (rx w fd)"
proof -
  have s: "sint (ucast (1024 :: u64) :: u32) = 1024" by simp
  from assms(1) obtain failed len where l: "readn_loop fd 1024 [] w = (Ret (failed, len, buf), w')"
    "r = (if failed then -1 else 1024 - word_of_int len)"
    unfolding readn_def s by (auto elim!: bnd_RetE)
  with assms(2) have "failed \<or> len \<noteq> 1024" by auto
  with readn_loop_weight[OF l(1)] show ?thesis by blast
qed

text \<open>\<open>n\<close> is unsigned in effect: a failed \<open>readn\<close> counts as a block.  \<open>time\<close> is the next number.\<close>

function read_data :: "int \<Rightarrow> int \<Rightarrow> world \<Rightarrow> unit outcome \<times> world" where
  "read_data sockfd time w = bnd (print (bytes ''block in read \<newline>'')) (\<lambda>_ w.
     bnd (readn sockfd 1024) (\<lambda>x w. case x of (n, _) \<Rightarrow>
       if n = 0 then print (bytes ''client closed \<newline>'') w
       else bnd (print (bytes ''1K read for '' @ dec (time + 1) @ bytes '' \<newline>'')) (\<lambda>_ w.
            read_data sockfd (time + 1) w) w) w) w"
  by pat_completeness auto
termination
  by (relation "measure (\<lambda>(sockfd, time, w). rx_weight (rx w sockfd))") (auto dest!: readn_weight)

declare read_data.simps [simp del]

fun tcp_server_loop :: "nat \<Rightarrow> int \<Rightarrow> unit io" where
  "tcp_server_loop 0 listenfd = ret ()"
| "tcp_server_loop (Suc k) listenfd = bnd (sys (Accept listenfd)) (\<lambda>connfd.
     bnd (read_data connfd 0) (\<lambda>_. bnd (sys (Close connfd)) (\<lambda>_. tcp_server_loop k listenfd)))"

definition tcp_server_main :: "nat \<Rightarrow> unit io" where
  "tcp_server_main k = bnd (sys (Socket ''AF_INET'' ''SOCK_STREAM'')) (\<lambda>listenfd.
     bnd (sys (Bind listenfd 12345)) (\<lambda>_. bnd (sys (Listen listenfd 1024)) (\<lambda>_.
     tcp_server_loop k listenfd)))"

subsection \<open>\<^verbatim>\<open>chap-7\<close>\<close>

text \<open>
  The whole array is written for every line; \<open>line\<close> is laid over what the array held.  The answer is
  printed up to its first NUL, over what \<open>recv_line\<close> held.
\<close>

function unix_client_loop ::
  "int \<Rightarrow> byte list \<Rightarrow> byte list \<Rightarrow> byte list \<Rightarrow> world \<Rightarrow> unit outcome \<times> world" where
  "unix_client_loop fd send_line recv_line inp w = (case fgets 1024 inp of
     None \<Rightarrow> ret () w
   | Some (line, rest) \<Rightarrow>
       let send_line = lay (line @ [0]) send_line in
       bnd (sys_write fd send_line) (\<lambda>r w.
       if r \<noteq> 1024 then die 1 w
       else bnd (sys_read fd 1024) (\<lambda>x w. case x of (n, bs) \<Rightarrow>
         if n = 0 then die 1 w
         else let recv_line = lay bs recv_line in
           if 0 \<notin> set recv_line then fault OutOfBounds w
           else bnd (print (cstring recv_line)) (\<lambda>_ w.
                unix_client_loop fd send_line recv_line rest w) w) w) w)"
  by pat_completeness auto
termination
  by (relation "measure (\<lambda>(fd, send_line, recv_line, inp, w). length inp)") (auto dest: fgets_Some(4))

declare unix_client_loop.simps [simp del]

definition unix_client_main :: "nat \<Rightarrow> byte list \<Rightarrow> byte list \<Rightarrow> byte list \<Rightarrow> int io" where
  "unix_client_main argc path junk inp =
     (if argc \<noteq> 2 then die 1
      else bnd (sys (Socket ''AF_LOCAL'' ''SOCK_STREAM'')) (\<lambda>fd. if fd < 0 then die 1
      else bnd (sys (Connect fd path 0)) (\<lambda>r. if r < 0 then die 1
      else bnd (unix_client_loop fd (replicate 1024 0) junk inp) (\<lambda>_.
           bnd (sys (Close fd)) (\<lambda>_. ret 0)))))"

text \<open>
  The server's answer is \<open>sprintf\<close>ed into an array of the same size as the text it repeats; a failed
  \<open>read\<close> (-1) counts as an empty message.
\<close>

definition sprintf_hi :: "nat \<Rightarrow> byte list \<Rightarrow> byte list \<Rightarrow> byte list outcome" where
  "sprintf_hi sz text junk = (let s = bytes ''Hi, '' @ text in
     if length s + 1 \<le> sz then Ret (lay (s @ [0]) junk) else Fault OutOfBounds)"

function unix_server_loop :: "int \<Rightarrow> byte list \<Rightarrow> world \<Rightarrow> unit outcome \<times> world" where
  "unix_server_loop fd junk w = bnd (sys_read fd 1024) (\<lambda>x w. case x of (n, bs) \<Rightarrow>
     if n = 0 then print (bytes ''client quit \<newline>'') w
     else let buf = lay bs (replicate 1024 0) in
       if 0 \<notin> set buf then fault OutOfBounds w
       else bnd (print (bytes ''received: '' @ cstring buf)) (\<lambda>_ w.
            bnd (of_outcome (sprintf_hi 1024 (cstring buf) junk)) (\<lambda>send_line w.
            bnd (sys_write fd send_line) (\<lambda>r w.
              if r \<noteq> 1024 then die 1 w else unix_server_loop fd send_line w) w) w) w) w"
  by pat_completeness auto
termination
  by (relation "measure (\<lambda>(fd, junk, w). length (answers w))")
    (auto dest!: answers_sys_write answers_sys_read)

declare unix_server_loop.simps [simp del]

definition unix_server_main :: "nat \<Rightarrow> byte list \<Rightarrow> int io" where
  "unix_server_main argc junk =
     (if argc \<noteq> 2 then die 1
      else bnd (sys (Socket ''AF_LOCAL'' ''SOCK_STREAM'')) (\<lambda>listen_fd. if listen_fd < 0 then die 1
      else bnd (sys (Bind listen_fd 0)) (\<lambda>r. if r < 0 then die 1
      else bnd (sys (Listen listen_fd 128)) (\<lambda>r. if r < 0 then die 1
      else bnd (sys (Accept listen_fd)) (\<lambda>conn_fd. if conn_fd < 0 then die 1
      else bnd (unix_server_loop conn_fd junk) (\<lambda>_.
           bnd (sys (Close listen_fd)) (\<lambda>_. bnd (sys (Close conn_fd)) (\<lambda>_. ret 0))))))))"

subsection \<open>\<^verbatim>\<open>chap-11\<close>\<close>

text \<open>
  \<open>message[n] = 0\<close> needs a cell behind the \<open>n\<close> bytes; the answer has five bytes more than the text.
  The counter counts the messages.
\<close>

function close_server_loop ::
  "int \<Rightarrow> byte list \<Rightarrow> int \<Rightarrow> world \<Rightarrow> unit outcome \<times> world" where
  "close_server_loop fd junk msgs w = bnd (sys_read fd 4096) (\<lambda>x w. case x of (n, bs) \<Rightarrow>
     if n < 0 then die 1 w
     else if n = 0 then die 1 w
     else if length bs \<ge> 4096 then fault OutOfBounds w
     else let text = cstring bs in
       bnd (print (bytes ''received '' @ dec n @ bytes '' bytes: '' @ text @ bytes '' \<newline>'')) (\<lambda>_ w.
       bnd (of_outcome (sprintf_hi 4096 text junk)) (\<lambda>send_line w.
       bnd (sys (Sleep 5)) (\<lambda>_ w.
       bnd (sys_write fd (cstring send_line)) (\<lambda>write_nc w.
       bnd (print (bytes ''send bytes: '' @ dec write_nc @ bytes '' \<newline>'')) (\<lambda>_ w.
         if write_nc < 0 then die 1 w else close_server_loop fd send_line (msgs + 1) w) w) w) w) w) w) w"
  by pat_completeness auto
termination
  by (relation "measure (\<lambda>(fd, junk, msgs, w). rx_weight (rx w fd))")
    (auto dest!: rx_weight_sys_read rx_sys_write rx_sys)

declare close_server_loop.simps [simp del]

text \<open>The handlers of \<open>SIGINT\<close> and \<open>SIGPIPE\<close>; both end the program with the number of reads so far.\<close>

definition close_server_sigint_handle :: "int \<Rightarrow> int \<Rightarrow> unit io" where
  "close_server_sigint_handle msgs signo =
     bnd (print (bytes ''signal['' @ dec signo @ bytes ''] received '' @ dec msgs @ bytes '' datagram \<newline>''))
       (\<lambda>_. die 0)"

definition close_server_sigpipe_handle :: "int \<Rightarrow> int \<Rightarrow> unit io" where
  "close_server_sigpipe_handle msgs signo =
     bnd (print (bytes ''signal['' @ dec signo @ bytes ''] received '' @ dec msgs @ bytes '' datagram \<newline>''))
       (\<lambda>_. die 0)"

definition close_server_main :: "byte list \<Rightarrow> unit io" where
  "close_server_main junk =
     bnd (sys (Socket ''AF_INET'' ''SOCK_STREAM'')) (\<lambda>listen_fd. if listen_fd < 0 then die 1
     else bnd (sys (Bind listen_fd 8011)) (\<lambda>r. if r < 0 then die 1
     else bnd (sys (Listen listen_fd 128)) (\<lambda>r. if r < 0 then die 1
     else bnd (sys (Signal ''SIGINT'' ''sigint_handle'')) (\<lambda>_.
     bnd (sys (Signal ''SIGPIPE'' ''sigpipe_handle'')) (\<lambda>_.
     bnd (sys (Accept listen_fd)) (\<lambda>conn_fd. if conn_fd < 0 then die 1
     else close_server_loop conn_fd junk 0))))))"

subsection \<open>\<^verbatim>\<open>chap-13\<close> and \<^verbatim>\<open>chap-15\<close>\<close>

text \<open>\<open>writev\<close> sends its two parts as one sequence of bytes.\<close>

function writev_loop :: "int \<Rightarrow> byte list \<Rightarrow> world \<Rightarrow> unit outcome \<times> world" where
  "writev_loop fd inp w = (case fgets 128 inp of
     None \<Rightarrow> ret () w
   | Some (buf, rest) \<Rightarrow> bnd (sys_write fd (bytes ''hello, '' @ cstring buf)) (\<lambda>r w.
       if r < 0 then die 1 w else writev_loop fd rest w) w)"
  by pat_completeness auto
termination
  by (relation "measure (\<lambda>(fd, inp, w). length inp)") (auto dest: fgets_Some(4))

declare writev_loop.simps [simp del]

definition writev_client_main :: "nat \<Rightarrow> byte list \<Rightarrow> byte list \<Rightarrow> unit io" where
  "writev_client_main argc ip inp =
     (if argc \<noteq> 2 then die 1
      else bnd (sys (Socket ''AF_INET'' ''SOCK_STREAM'')) (\<lambda>fd. if fd < 0 then die 1
      else bnd (sys (Connect fd ip 8013)) (\<lambda>r. if r < 0 then die 1
      else bnd (writev_loop fd inp) (\<lambda>_. die 0))))"

function reuse_server_loop :: "int \<Rightarrow> world \<Rightarrow> unit outcome \<times> world" where
  "reuse_server_loop fd w = bnd (sys_read fd 4096) (\<lambda>x w. case x of (n, bs) \<Rightarrow>
     if n < 0 then die 1 w
     else if n = 0 then die 1 w
     else if length bs \<ge> 4096 then fault OutOfBounds w
     else bnd (print (bytes ''received '' @ dec n @ bytes '' bytes: '' @ cstring bs)) (\<lambda>_ w.
          reuse_server_loop fd w) w) w"
  by pat_completeness auto
termination
  by (relation "measure (\<lambda>(fd, w). rx_weight (rx w fd))") (auto dest!: rx_weight_sys_read)

declare reuse_server_loop.simps [simp del]

definition reuse_server_main :: "unit io" where
  "reuse_server_main =
     bnd (sys (Socket ''AF_INET'' ''SOCK_STREAM'')) (\<lambda>listen_fd. if listen_fd < 0 then die 1
     else bnd (sys (Setsockopt listen_fd ''SO_REUSEADDR'')) (\<lambda>_.
     bnd (sys (Bind listen_fd 8015)) (\<lambda>r. if r < 0 then die 1
     else bnd (sys (Listen listen_fd 128)) (\<lambda>r. if r < 0 then die 1
     else bnd (sys (Signal ''SIGPIPE'' ''SIG_IGN'')) (\<lambda>_.
     bnd (sys (Accept listen_fd)) (\<lambda>conn_fd. if conn_fd < 0 then die 1
     else reuse_server_loop conn_fd))))))"

subsection \<open>The bulk transfer\<close>

lemma send_loop_sends:
  assumes "answers w = map (AOk \<circ> int) ns @ as" and "\<forall>n \<in> set ns. 0 < n" and "length cp \<le> sum_list ns"
  shows "\<exists>w'. send_loop fd cp w = (Ret (), w') \<and> bytes_sent fd (trace w') = bytes_sent fd (trace w) @ cp"
  using assms
proof (induction ns arbitrary: w cp)
  case Nil
  then show ?case by (subst send_loop.simps) simp
next
  case (Cons n ns)
  show ?case
  proof (cases "cp = []")
    case True
    then show ?thesis by (subst send_loop.simps) simp
  next
    case False
    let ?r = "min (int n) (int (length cp))"
    let ?w1 = "log_event (EWrite fd cp ?r) (w\<lparr>answers := map (AOk \<circ> int) ns @ as\<rparr>)"
    let ?w2 = "log_event (EPrint (bytes ''send into buffer '' @ dec ?r @ bytes '' \<newline>'')) ?w1"
    have wr: "sys_write fd cp w = (Ret ?r, ?w1)"
      using Cons.prems(1) by (simp add: sys_write_def Let_def)
    have pos: "0 < n" "nat ?r = min n (length cp)" using Cons.prems(2) by auto
    have "\<not> ?r \<le> 0" using pos False by (simp add: not_le)
    then have go: "send_loop fd cp w = send_loop fd (drop n cp) ?w2"
      using False pos by (subst send_loop.simps) (simp add: wr min_def)
    have "answers ?w2 = map (AOk \<circ> int) ns @ as" "\<forall>n \<in> set ns. 0 < n" "length (drop n cp) \<le> sum_list ns"
      using Cons.prems by auto
    from Cons.IH[OF this] obtain w' where "send_loop fd (drop n cp) ?w2 = (Ret (), w')"
      "bytes_sent fd (trace w') = bytes_sent fd (trace ?w2) @ drop n cp" by blast
    then show ?thesis using go pos(2) by (auto simp: min_def)
  qed
qed

text \<open>
  C26.  The bulk client loses nothing to short writes: as long as every \<open>send\<close> takes at least one
  byte, the kernel is given exactly the \<open>n\<close> bytes, once and in order.
\<close>

theorem send_data_complete:
  assumes "answers w = map (AOk \<circ> int) ns @ as" and "\<forall>k \<in> set ns. 0 < k" and "n \<le> sum_list ns"
  shows "\<exists>w'. send_data n fd w = (Ret (), w') \<and>
    bytes_sent fd (trace w') = bytes_sent fd (trace w) @ replicate n 97"
  using send_loop_sends[OF assms(1,2), of "replicate n 97" fd] assms(3) by (simp add: send_data_def)

theorem send_data_complete_witness:
  "\<exists>w'. send_data 5 4 \<lparr>rx = (\<lambda>_. []), answers = [AOk 2, AOk 1, AOk 9], errno = 0, trace = []\<rparr> = (Ret (), w') \<and>
     bytes_sent 4 (trace w') = [97, 97, 97, 97, 97]"
  using send_data_complete[of "\<lparr>rx = (\<lambda>_. []), answers = [AOk 2, AOk 1, AOk 9], errno = 0, trace = []\<rparr>"
    "[2, 1, 9]" "[]" 5 4] by (simp add: numeral_eq_Suc)

definition block_lines :: "int \<Rightarrow> nat \<Rightarrow> byte list list" where
  "block_lines t k = concat (map (\<lambda>i. [bytes ''block in read \<newline>'',
     bytes ''1K read for '' @ dec (t + int i + 1) @ bytes '' \<newline>'']) [0..<k])"

lemma block_lines_0 [simp]: "block_lines t 0 = []"
  by (simp add: block_lines_def)

lemma block_lines_Suc:
  "block_lines t (Suc k) = [bytes ''block in read \<newline>'', bytes ''1K read for '' @ dec (t + 1) @ bytes '' \<newline>''] @
     block_lines (t + 1) k"
proof -
  have "[0..<Suc k] = 0 # map Suc [0..<k]" by (simp add: upt_conv_Cons map_Suc_upt del: upt_Suc)
  then show ?thesis by (simp add: block_lines_def comp_def ac_simps del: upt_Suc)
qed

text \<open>One turn of \<open>read_data\<close>, for a block and at the end of the stream.\<close>

lemma read_data_block:
  assumes "clean xs" and "rx w fd = xs @ [RxEof]" and "payload xs \<noteq> []"
  shows "\<exists>ys v. read_data fd t w = read_data fd (t + 1) v \<and> clean ys \<and> rx v fd = ys @ [RxEof] \<and>
    payload ys = drop 1024 (payload xs) \<and> prints (trace v) = prints (trace w) @ block_lines t 1"
proof -
  let ?w1 = "log_event (EPrint (bytes ''block in read \<newline>'')) w"
  have rx1: "rx ?w1 fd = xs @ [RxEof]" using assms(2) by simp
  have "\<exists>r bs ys v. readn fd 1024 ?w1 = (Ret (r, bs), v) \<and> r \<noteq> 0 \<and> clean ys \<and> rx v fd = ys @ [RxEof] \<and>
    payload ys = drop 1024 (payload xs) \<and> only_reads fd ?w1 v"
  proof (cases "length (payload xs) < 1024")
    case True
    have "unat (of_nat (length (payload xs)) :: u64) = length (payload xs)"
      using True by (simp add: unat_of_nat)
    then have "(of_nat (length (payload xs)) :: u64) \<noteq> 0" using assms(3) by auto
    with readn_short[OF assms(1) rx1, of 1024] True show ?thesis
      by (auto simp: INT_MAX_def intro!: exI[of _ "[]"])
  next
    case False
    moreover have "(1024 :: u64) \<noteq> 0" by simp
    ultimately show ?thesis using readn_full[OF assms(1) rx1, of 1024] by (auto simp: INT_MAX_def)
  qed
  then obtain r bs ys v where v: "readn fd 1024 ?w1 = (Ret (r, bs), v)" "r \<noteq> 0" "clean ys"
    "rx v fd = ys @ [RxEof]" "payload ys = drop 1024 (payload xs)" "only_reads fd ?w1 v" by blast
  let ?v = "log_event (EPrint (bytes ''1K read for '' @ dec (t + 1) @ bytes '' \<newline>'')) v"
  have "read_data fd t w = read_data fd (t + 1) ?v" using v(1,2) by (subst read_data.simps) simp
  then show ?thesis using v(3-6)
    by (intro exI[of _ ys] exI[of _ ?v]) (simp add: only_reads_def block_lines_def)
qed

lemma read_data_end:
  assumes "clean xs" and "rx w fd = xs @ [RxEof]" and "payload xs = []"
  shows "\<exists>w'. read_data fd t w = (Ret (), w') \<and> prints (trace w') = prints (trace w) @
    [bytes ''block in read \<newline>'', bytes ''client closed \<newline>'']"
proof -
  let ?w1 = "log_event (EPrint (bytes ''block in read \<newline>'')) w"
  have "rx ?w1 fd = xs @ [RxEof]" using assms(2) by simp
  from readn_short[OF assms(1) this, of 1024] assms(3) obtain v where
    "readn fd 1024 ?w1 = (Ret (0, []), v)" "only_reads fd ?w1 v" by (auto simp: INT_MAX_def)
  then show ?thesis by (subst read_data.simps) (simp add: only_reads_def)
qed

text \<open>
  C25.  The bulk server counts blocks of 1024 bytes whatever the segments of the stream are: a client
  that sends \<open>N\<close> bytes and closes is reported in \<open>N / 1024\<close> blocks, rounded up.
\<close>

theorem read_data_counts_blocks:
  assumes "clean xs" and "rx w fd = xs @ [RxEof]"
  shows "\<exists>w'. read_data fd t w = (Ret (), w') \<and> prints (trace w') = prints (trace w) @
    block_lines t ((length (payload xs) + 1023) div 1024) @
    [bytes ''block in read \<newline>'', bytes ''client closed \<newline>'']"
  using assms
proof (induction "length (payload xs)" arbitrary: xs w t rule: less_induct)
  case less
  show ?case
  proof (cases "payload xs = []")
    case True
    with read_data_end[OF less.prems True] show ?thesis by (simp add: block_lines_def)
  next
    case False
    from read_data_block[OF less.prems False, of t] obtain ys v where v:
      "read_data fd t w = read_data fd (t + 1) v" "clean ys" "rx v fd = ys @ [RxEof]"
      "payload ys = drop 1024 (payload xs)" "prints (trace v) = prints (trace w) @ block_lines t 1" by blast
    have "length (payload ys) < length (payload xs)" using v(4) False by simp
    from less.hyps[OF this v(2,3), of "t + 1"] obtain w' where w':
      "read_data fd (t + 1) v = (Ret (), w')" "prints (trace w') = prints (trace v) @
        block_lines (t + 1) ((length (payload ys) + 1023) div 1024) @
        [bytes ''block in read \<newline>'', bytes ''client closed \<newline>'']" by auto
    have "(n + 1023) div 1024 = Suc ((n - 1024 + 1023) div 1024)" if "0 < n" for n :: nat
    proof (cases "n < 1024")
      case True
      then have "(n + 1023) div 1024 = Suc 0" using that by (intro div_nat_eqI) linarith+
      with True show ?thesis by simp
    next
      case False
      then obtain k where "n = 1024 + k" using le_Suc_ex not_less by blast
      then show ?thesis by simp
    qed
    with False have "(length (payload xs) + 1023) div 1024 = Suc ((length (payload ys) + 1023) div 1024)"
      by (simp add: v(4))
    then show ?thesis using v(1,5) w' block_lines_Suc[of t 0] by (simp add: block_lines_Suc)
  qed
qed

theorem read_data_counts_blocks_witness:
  "\<exists>w'. read_data 5 0 demo_world = (Ret (), w') \<and> prints (trace w') =
     [bytes ''block in read \<newline>'', bytes ''1K read for '' @ dec 1 @ bytes '' \<newline>'',
      bytes ''block in read \<newline>'', bytes ''client closed \<newline>'']"
proof -
  have "rx demo_world 5 = [RxData [1, 2], RxErr EINTR, RxData [3, 4, 5]] @ [RxEof]"
    by (simp add: demo_world_def)
  from read_data_counts_blocks[OF _ this, of 0] show ?thesis
    by (simp add: block_lines_def demo_world_def)
qed

end
