(* ===== verification/Datagram_Programs.thy ===== *)
theory Datagram_Programs
  imports Simple_Programs
begin

text \<open>
  The datagram programs: \<^verbatim>\<open>chap-6/udp_client.c\<close> and \<^verbatim>\<open>chap-6/udp_server.c\<close>, and the connected
  sockets of \<^verbatim>\<open>chap-14\<close>.  On a datagram socket an entry of the stream is one datagram; a receive takes
  it whole, and what the buffer has no room for is lost.
\<close>

subsection \<open>Datagrams\<close>

text \<open>There is no end of the stream: such an entry, like an empty stream, is a receive that blocks.\<close>

definition sys_recvfrom :: "int \<Rightarrow> nat \<Rightarrow> (int \<times> byte list) io" where
  "sys_recvfrom fd n w = (case rx w fd of
     RxData bs # xs \<Rightarrow> (let bs = take n bs in
       (Ret (int (length bs), bs), log_event (ERead fd bs) (w\<lparr>rx := (rx w)(fd := xs)\<rparr>)))
   | RxErr e # xs \<Rightarrow> (Ret (-1, []), w\<lparr>rx := (rx w)(fd := xs), errno := e\<rparr>)
   | _ \<Rightarrow> (Blocked, w))"

text \<open>A datagram is sent whole or not at all.\<close>

definition sys_sendto :: "int \<Rightarrow> byte list \<Rightarrow> int io" where
  "sys_sendto fd bs w = (case answers w of
     [] \<Rightarrow> (Blocked, w)
   | AErr e # as \<Rightarrow> (Ret (-1), log_event (EWrite fd bs (-1)) (w\<lparr>answers := as, errno := e\<rparr>))
   | _ # as \<Rightarrow> (Ret (int (length bs)), log_event (EWrite fd bs (int (length bs))) (w\<lparr>answers := as\<rparr>)))"

lemma sys_recvfrom_shrinks:
  "sys_recvfrom fd n w = (Ret x, w') \<Longrightarrow> length (rx w' fd) < length (rx w fd) \<and> answers w' = answers w"
  by (auto simp: sys_recvfrom_def Let_def split: list.splits rx.splits)

lemma sys_sendto_shrinks:
  "sys_sendto fd bs w = (Ret x, w') \<Longrightarrow> rx w' = rx w \<and> length (answers w') < length (answers w)"
  by (auto simp: sys_sendto_def split: list.splits answer.splits)

text \<open>\<open>size_t rt = sendto(...)\<close>: the test \<open>rt < 0\<close> never holds, and -1 is printed as \<open>SIZE_MAX\<close>.\<close>

definition size_t :: "int \<Rightarrow> int" where
  "size_t r = uint (word_of_int r :: u64)"

lemma size_t_nonneg: "0 \<le> size_t r"
  by (simp add: size_t_def)

lemma size_t_id: "0 \<le> r \<Longrightarrow> r < 2 ^ 64 \<Longrightarrow> size_t r = r"
  by (simp add: size_t_def unsigned_of_int take_bit_int_eq_self)

definition send_bytes_line :: "int \<Rightarrow> byte list" where
  "send_bytes_line r = bytes ''send bytes: '' @ dec (size_t r) @ bytes '' \<newline>''"

text \<open>
  A line of the keyboard, with its newline replaced by a NUL: what \<open>strlen\<close> and \<open>%s\<close> see of it
  afterwards.  \<open>send_line[i - 1]\<close> lies before the array when the line starts with a NUL.
\<close>

definition chomp :: "byte list \<Rightarrow> byte list outcome" where
  "chomp line = (let s = cstring line in
     if s = [] then Fault OutOfBounds else Ret (if last s = 10 then butlast s else s))"

subsection \<open>\<^verbatim>\<open>chap-6\<close>\<close>

text \<open>\<open>message\<close> has no cell behind its 4096 bytes, and a failed receive writes to \<open>message[-1]\<close>.\<close>

fun udp_server_loop :: "nat \<Rightarrow> int \<Rightarrow> byte list \<Rightarrow> int \<Rightarrow> int io" where
  "udp_server_loop 0 fd junk received = ret received"
| "udp_server_loop (Suc k) fd junk received = bnd (sys_recvfrom fd 4096) (\<lambda>(n, bs).
     if n < 0 \<or> n \<ge> 4096 then fault OutOfBounds
     else let message = cstring bs in
       bnd (print (bytes ''received '' @ dec n @ bytes '' bytes: '' @ message @ bytes '' \<newline>'')) (\<lambda>_.
       bnd (of_outcome (sprintf_hi 4096 message junk)) (\<lambda>send_line.
       bnd (sys_sendto fd (cstring send_line)) (\<lambda>_. udp_server_loop k fd send_line (received + 1)))))"

text \<open>The handler of \<open>SIGINT\<close>, which ends the server; the signal comes after \<open>k\<close> datagrams.\<close>

definition recvfrom_int :: "int \<Rightarrow> unit io" where
  "recvfrom_int received =
     bnd (print (bytes ''\<newline>received '' @ dec received @ bytes '' datagrams \<newline>'')) (\<lambda>_. die 0)"

definition udp_server_main :: "nat \<Rightarrow> byte list \<Rightarrow> unit io" where
  "udp_server_main k junk = bnd (sys (Socket ''AF_INET'' ''SOCK_DGRAM'')) (\<lambda>fd.
     bnd (sys (Bind fd 8090)) (\<lambda>_. bnd (sys (Signal ''SIGINT'' ''recvfrom_int'')) (\<lambda>_.
     bnd (udp_server_loop k fd junk 0) recvfrom_int)))"

function udp_client_loop :: "int \<Rightarrow> byte list \<Rightarrow> world \<Rightarrow> unit outcome \<times> world" where
  "udp_client_loop fd inp w = (case fgets 4096 inp of
     None \<Rightarrow> ret () w
   | Some (line, rest) \<Rightarrow>
       bnd (of_outcome (chomp line)) (\<lambda>send_line w.
       bnd (print (bytes ''now sending '' @ send_line @ bytes '' \<newline>'')) (\<lambda>_ w.
       bnd (sys_sendto fd send_line) (\<lambda>rt w.
       if size_t rt < 0 then die 1 w
       else bnd (print (send_bytes_line rt)) (\<lambda>_ w.
         bnd (sys_recvfrom fd 4096) (\<lambda>x w. case x of (n, bs) \<Rightarrow>
           if n < 0 then die 1 w
           else bnd (print (cstring bs)) (\<lambda>_ w. bnd (print [10]) (\<lambda>_ w.
                udp_client_loop fd rest w) w) w) w) w) w) w) w)"
  by pat_completeness auto
termination
  by (relation "measure (\<lambda>(fd, inp, w). length inp)") (auto dest: fgets_Some(4))

declare udp_client_loop.simps [simp del]

definition udp_client_main :: "nat \<Rightarrow> byte list \<Rightarrow> int io" where
  "udp_client_main argc inp =
     (if argc \<noteq> 2 then die 1
      else bnd (sys (Socket ''AF_INET'' ''SOCK_DGRAM'')) (\<lambda>fd.
           bnd (udp_client_loop fd inp) (\<lambda>_. ret 0)))"

subsection \<open>\<^verbatim>\<open>chap-14\<close>\<close>

text \<open>The client's socket is a stream socket, and its lines are sent with the NUL that ends them.\<close>

function udp_connect_client_loop :: "int \<Rightarrow> byte list \<Rightarrow> world \<Rightarrow> unit outcome \<times> world" where
  "udp_connect_client_loop fd inp w = (case fgets 4096 inp of
     None \<Rightarrow> ret () w
   | Some (line, rest) \<Rightarrow> let i = length (cstring line) in
       bnd (of_outcome (chomp line)) (\<lambda>send_line w.
       bnd (print (bytes ''now sending '' @ send_line @ bytes '' \<newline>'')) (\<lambda>_ w.
       bnd (sys_write fd (take i (send_line @ [0]))) (\<lambda>rt w.
       if size_t rt < 0 then die 1 w
       else bnd (print (send_bytes_line rt)) (\<lambda>_ w.
         bnd (sys_read fd 4096) (\<lambda>x w. case x of (n, bs) \<Rightarrow>
           if n < 0 then die 1 w
           else bnd (print (cstring bs)) (\<lambda>_ w. bnd (print [10]) (\<lambda>_ w.
                udp_connect_client_loop fd rest w) w) w) w) w) w) w) w)"
  by pat_completeness auto
termination
  by (relation "measure (\<lambda>(fd, inp, w). length inp)") (auto dest: fgets_Some(4))

declare udp_connect_client_loop.simps [simp del]

definition udp_connect_client_main :: "nat \<Rightarrow> byte list \<Rightarrow> byte list \<Rightarrow> int io" where
  "udp_connect_client_main argc ip inp =
     (if argc \<noteq> 2 then die 1
      else bnd (sys (Socket ''AF_INET'' ''SOCK_STREAM'')) (\<lambda>fd. if fd < 0 then die 1
      else bnd (sys (Connect fd ip 8014)) (\<lambda>r. if r < 0 then die 1
      else bnd (udp_connect_client_loop fd inp) (\<lambda>_. ret 0))))"

text \<open>
  The server keeps the 4096 bytes of \<open>message\<close>: a later datagram is laid over the earlier one, and no
  NUL is put behind it; a failed \<open>recv\<close> goes unnoticed and leaves the message as it was.
\<close>

function udp_connect_server_loop ::
  "int \<Rightarrow> byte list \<Rightarrow> byte list \<Rightarrow> int \<Rightarrow> world \<Rightarrow> int outcome \<times> world" where
  "udp_connect_server_loop fd junk message received w =
     (if starts_with message (bytes ''goodbye'') then ret received w
      else if 0 \<notin> set message then fault OutOfBounds w
      else bnd (of_outcome (sprintf_hi 4096 (cstring message) junk)) (\<lambda>send_line w.
        bnd (sys_sendto fd (cstring send_line)) (\<lambda>rt w.
        if size_t rt < 0 then die 1 w
        else bnd (print (send_bytes_line rt)) (\<lambda>_ w.
          bnd (sys_recvfrom fd 4096) (\<lambda>x w. case x of (rc, bs) \<Rightarrow>
            if size_t rc < 0 then die 1 w
            else udp_connect_server_loop fd send_line (lay bs message) (received + 1) w) w) w) w) w)"
  by pat_completeness auto
termination
  by (relation "measure (\<lambda>(fd, junk, message, received, w). length (answers w))")
    (auto dest!: sys_recvfrom_shrinks sys_sendto_shrinks)

declare udp_connect_server_loop.simps [simp del]

definition udp_connect_server_main :: "byte list \<Rightarrow> byte list \<Rightarrow> int io" where
  "udp_connect_server_main junk message =
     bnd (sys (Socket ''AF_INET'' ''SOCK_DGRAM'')) (\<lambda>fd. if fd < 0 then die 1
     else bnd (sys (Bind fd 8014)) (\<lambda>r. if r < 0 then die 1
     else bnd (sys (Signal ''SIGINT'' ''sigint_handle'')) (\<lambda>_.
     bnd (sys_recvfrom fd 4096) (\<lambda>(n, bs). if n < 0 then die 1
     else if n \<ge> 4096 then fault OutOfBounds
     else let message = lay (bs @ [0]) message in
       bnd (print (bytes ''received '' @ dec n @ bytes '' bytes: '' @ cstring message @ bytes '' \<newline>'')) (\<lambda>_.
       bnd (sys (Connect fd [] 0)) (\<lambda>r. if r \<noteq> 0 then die 1
       else bnd (udp_connect_server_loop fd junk message 0) (\<lambda>_. ret 0)))))))"

text \<open>The handler of \<open>SIGINT\<close>.\<close>

definition sigint_handle :: "int \<Rightarrow> unit io" where
  "sigint_handle received =
     bnd (print (bytes ''received '' @ dec received @ bytes '' datagram\<newline>'')) (\<lambda>_. die 0)"

subsection \<open>The exchange of \<^verbatim>\<open>chap-6\<close>\<close>

lemma sys_recvfrom_data:
  assumes "rx w fd = RxData d # xs" and "length d \<le> n"
  shows "sys_recvfrom fd n w = (Ret (int (length d), d), log_event (ERead fd d) (w\<lparr>rx := (rx w)(fd := xs)\<rparr>))"
  using assms by (simp add: sys_recvfrom_def Let_def)

text \<open>Sent or failed, the trace shows the message and the program goes on.\<close>

lemma sys_sendto_result:
  assumes "answers w = a # as"
  obtains r v where "sys_sendto fd bs w = (Ret r, v)" "answers v = as" "rx v = rx w"
    "trace v = trace w @ [EWrite fd bs r]"
  using assms by (cases a) (auto simp: sys_sendto_def)

definition hi :: "byte list \<Rightarrow> byte list" where
  "hi text = bytes ''Hi, '' @ text"

lemma length_hi [simp]: "length (hi text) = length text + 4"
  by (simp add: hi_def bytes_def)

lemma sprintf_hi_fits:
  assumes "0 \<notin> set text" and "length text + 5 \<le> sz"
  shows "\<exists>s. sprintf_hi sz text junk = Ret s \<and> cstring s = hi text"
proof -
  have "0 \<notin> set (hi text)" using assms(1) by (simp add: hi_def bytes_def)
  moreover have "length (hi text) + 1 \<le> sz" using assms(2) by simp
  ultimately show ?thesis by (simp add: sprintf_hi_def Let_def lay_def flip: hi_def)
qed

lemma sprintf_hi_overflows: "sz < length text + 5 \<Longrightarrow> sprintf_hi sz text junk = Fault OutOfBounds"
  using length_hi[of "text"] by (simp add: sprintf_hi_def Let_def flip: hi_def)

lemma udp_server_one:
  assumes "rx w fd = RxData d # xs" and "0 \<notin> set d" and "length d \<le> 4091" and "answers w = a # as"
  shows "\<exists>junk' v. udp_server_loop (Suc k) fd junk c w = udp_server_loop k fd junk' (c + 1) v \<and>
    rx v fd = xs \<and> answers v = as \<and> writes fd (trace v) = writes fd (trace w) @ [hi d]"
proof -
  let ?w1 = "log_event (ERead fd d) (w\<lparr>rx := (rx w)(fd := xs)\<rparr>)"
  have rd: "sys_recvfrom fd 4096 w = (Ret (int (length d), d), ?w1)"
    using assms(1,3) by (intro sys_recvfrom_data) simp_all
  let ?w2 = "log_event (EPrint (bytes ''received '' @ dec (int (length d)) @ bytes '' bytes: '' @ d @
    bytes '' \<newline>'')) ?w1"
  from sprintf_hi_fits[OF assms(2), of 4096 junk] assms(3) obtain s where
    s: "sprintf_hi 4096 d junk = Ret s" "cstring s = hi d" by auto
  have "answers ?w2 = a # as" using assms(4) by simp
  from sys_sendto_result[OF this, of fd "hi d"] obtain r v where
    v: "sys_sendto fd (hi d) ?w2 = (Ret r, v)" "answers v = as" "rx v = rx ?w2"
    "trace v = trace ?w2 @ [EWrite fd (hi d) r]" by blast
  have "udp_server_loop (Suc k) fd junk c w = udp_server_loop k fd s (c + 1) v"
    using assms(3) by (simp add: rd cstring_id[OF assms(2)] s v(1))
  then show ?thesis using v by (intro exI[of _ s] exI[of _ v]) simp
qed

lemma udp_server_loop_answers:
  assumes "rx w fd = map RxData ds @ xs" and "\<forall>d \<in> set ds. 0 \<notin> set d \<and> length d \<le> 4091"
    and "length ds \<le> length (answers w)"
  shows "\<exists>w'. udp_server_loop (length ds) fd junk c w = (Ret (c + int (length ds)), w') \<and> rx w' fd = xs \<and>
    writes fd (trace w') = writes fd (trace w) @ map hi ds"
  using assms
proof (induction ds arbitrary: w junk c)
  case (Cons d ds)
  from Cons.prems(3) obtain a as where a: "answers w = a # as" by (cases "answers w") auto
  have "rx w fd = RxData d # (map RxData ds @ xs)" using Cons.prems(1) by simp
  from udp_server_one[OF this _ _ a, of "length ds" junk c] Cons.prems(2) obtain junk' v where
    v: "udp_server_loop (Suc (length ds)) fd junk c w = udp_server_loop (length ds) fd junk' (c + 1) v"
    "rx v fd = map RxData ds @ xs" "answers v = as"
    "writes fd (trace v) = writes fd (trace w) @ [hi d]" by auto
  from Cons.IH[OF v(2), of junk' "c + 1"] Cons.prems(2,3) v a show ?case by auto
qed simp

text \<open>
  C22.  The datagram server answers every datagram that fits with \<open>Hi, \<close> and its text, in the order of
  arrival, whether the sends succeed or not, and the signal that ends it reports their number.
\<close>

theorem udp_server_answers:
  assumes "rx w fd = map RxData ds @ xs" and "\<forall>d \<in> set ds. 0 \<notin> set d \<and> length d \<le> 4091"
    and "answers w = AOk fd # b # sg # as" and "0 \<le> fd" and "length ds \<le> length as"
  shows "\<exists>w'. udp_server_main (length ds) junk w = (Exit 0, w') \<and> rx w' fd = xs \<and>
    writes fd (trace w') = writes fd (trace w) @ map hi ds \<and>
    last (prints (trace w')) = bytes ''\<newline>received '' @ dec (int (length ds)) @ bytes '' datagrams \<newline>''"
proof -
  have c: "\<exists>r v. sys c u = (Ret r, v) \<and> rx v = rx u \<and> answers v = as' \<and> trace v = trace u @ [ESys c r]"
    if "answers u = a # as'" for c u a as' using that by (cases a) (auto simp: sys_def)
  obtain v1 where v1: "sys (Socket ''AF_INET'' ''SOCK_DGRAM'') w = (Ret fd, v1)" "rx v1 = rx w"
    "answers v1 = b # sg # as" "writes fd (trace v1) = writes fd (trace w)"
    using assms(3,4) by (simp add: sys_def)
  from c[OF v1(3), of "Bind fd 8090"] obtain r2 v2 where v2: "sys (Bind fd 8090) v1 = (Ret r2, v2)"
    "rx v2 = rx v1" "answers v2 = sg # as" "trace v2 = trace v1 @ [ESys (Bind fd 8090) r2]" by blast
  from c[OF v2(3), of "Signal ''SIGINT'' ''recvfrom_int''"] obtain r3 v3 where
    v3: "sys (Signal ''SIGINT'' ''recvfrom_int'') v2 = (Ret r3, v3)" "rx v3 = rx v2" "answers v3 = as"
    "trace v3 = trace v2 @ [ESys (Signal ''SIGINT'' ''recvfrom_int'') r3]" by blast
  have "rx v3 fd = map RxData ds @ xs" "length ds \<le> length (answers v3)"
    using assms v1 v2 v3 by simp_all
  from udp_server_loop_answers[OF this(1) assms(2) this(2), of junk 0] obtain w' where
    "udp_server_loop (length ds) fd junk 0 v3 = (Ret (int (length ds)), w')" "rx w' fd = xs"
    "writes fd (trace w') = writes fd (trace v3) @ map hi ds" by auto
  with v1 v2 v3 show ?thesis
    by (simp add: udp_server_main_def recvfrom_int_def)
qed

theorem udp_server_answers_witness:
  "\<exists>w'. udp_server_main 2 [] \<lparr>rx = (\<lambda>_. [RxData [97], RxData [98, 99]]), answers = [AOk 4, AOk 0, AOk 0,
      AOk 0, AErr 9], errno = 0, trace = []\<rparr> = (Exit 0, w') \<and> writes 4 (trace w') = [hi [97], hi [98, 99]]"
  using udp_server_answers[of "\<lparr>rx = (\<lambda>_. [RxData [97], RxData [98, 99]]), answers = [AOk 4, AOk 0, AOk 0,
      AOk 0, AErr 9], errno = 0, trace = []\<rparr>" 4 "[[97], [98, 99]]" "[]" "AOk 0" "AOk 0" "[AOk 0, AErr 9]" "[]"]
  unfolding numeral_2_eq_2 by auto

text \<open>
  The answer is written into an array of the size of the message: a datagram of text without NUL
  makes the server leave its arrays exactly if it has more than 4091 bytes.
\<close>

theorem udp_server_bounds:
  assumes "rx w fd = RxData d # xs" and "0 \<notin> set d" and "answers w = a # as"
  shows "fst (udp_server_loop 1 fd junk c w) = (if length d \<le> 4091 then Ret (c + 1) else Fault OutOfBounds)"
proof (cases "length d \<le> 4091")
  case True
  from udp_server_one[OF assms(1,2) this assms(3), of 0 junk c] show ?thesis using True by auto
next
  case False
  show ?thesis
  proof (cases "length d < 4096")
    case True
    have "sprintf_hi 4096 d junk = Fault OutOfBounds"
      by (rule sprintf_hi_overflows) (use False in simp)
    moreover have "length d \<le> 4096" using True by simp
    from sys_recvfrom_data[OF assms(1) this] True False show ?thesis
      by (simp add: cstring_id[OF assms(2)] calculation)
  next
    case False
    with assms(1) show ?thesis by (simp add: sys_recvfrom_def Let_def)
  qed
qed

theorem udp_server_bounds_witness:
  "fst (udp_server_loop 1 4 [] 0 \<lparr>rx = (\<lambda>_. [RxData (replicate 4092 97)]), answers = [AOk 0],
      errno = 0, trace = []\<rparr>) = Fault OutOfBounds"
proof -
  define d where "d = replicate 4092 (97 :: byte)"
  have l: "length d = 4092" unfolding d_def by (rule length_replicate)
  have "0 \<notin> set d" by (simp add: d_def del: replicate.simps)
  from udp_server_bounds[OF _ this, of "\<lparr>rx = (\<lambda>_. [RxData d]), answers = [AOk 0], errno = 0, trace = []\<rparr>"
    4 "[]" "AOk 0" "[]" "[]" 0] l show ?thesis unfolding d_def by simp
qed

text \<open>What the client prints for a line and its answer.\<close>

definition client_report :: "byte list \<Rightarrow> byte list \<Rightarrow> byte list list" where
  "client_report l d = [bytes ''now sending '' @ l @ bytes '' \<newline>'', send_bytes_line (int (length l)),
     cstring d, [10]]"

lemma chomp_line: "0 \<notin> set l \<Longrightarrow> chomp (l @ [10]) = Ret l"
  by (simp add: chomp_def cstring_id)

lemma udp_client_one:
  assumes "0 \<notin> set l" and "10 \<notin> set l" and "length l \<le> 4094" and "length d \<le> 4096"
    and "rx w fd = RxData d # xs" and "answers w = AOk k # as"
  shows "\<exists>v. udp_client_loop fd (l @ 10 # rest) w = udp_client_loop fd rest v \<and> rx v fd = xs \<and>
    answers v = as \<and> writes fd (trace v) = writes fd (trace w) @ [l] \<and>
    prints (trace v) = prints (trace w) @ client_report l d"
proof -
  let ?w1 = "log_event (EPrint (bytes ''now sending '' @ l @ bytes '' \<newline>'')) w"
  let ?w2 = "log_event (EWrite fd l (int (length l))) (?w1\<lparr>answers := as\<rparr>)"
  have snd: "sys_sendto fd l ?w1 = (Ret (int (length l)), ?w2)"
    using assms(6) by (simp add: sys_sendto_def)
  let ?w3 = "log_event (EPrint (send_bytes_line (int (length l)))) ?w2"
  let ?w4 = "log_event (ERead fd d) (?w3\<lparr>rx := (rx ?w3)(fd := xs)\<rparr>)"
  have "rx ?w3 fd = RxData d # xs" using assms(5) by simp
  from sys_recvfrom_data[OF this assms(4)] have rcv: "sys_recvfrom fd 4096 ?w3 = (Ret (int (length d), d), ?w4)" .
  let ?w5 = "log_event (EPrint [10]) (log_event (EPrint (cstring d)) ?w4)"
  have "\<not> size_t (int (length l)) < 0" using size_t_nonneg by (simp add: not_less)
  then have "udp_client_loop fd (l @ 10 # rest) w = udp_client_loop fd rest ?w5"
    using assms(3) by (subst udp_client_loop.simps)
      (simp add: fgets_line[OF assms(2)] chomp_line[OF assms(1)] snd rcv)
  then show ?thesis by (intro exI[of _ ?w5]) (simp add: client_report_def)
qed

text \<open>
  C19.  Client and server of \<^verbatim>\<open>chap-6\<close> together, over a network that delivers: the client sends its lines
  without their newlines, the server answers each, and the client prints each answer.
\<close>

theorem udp_exchange:
  assumes "\<forall>l \<in> set ls. 0 \<notin> set l \<and> 10 \<notin> set l \<and> length l \<le> 4091"
    and "rx ws s = map RxData ls" and "length ls \<le> length (answers ws)"
    and "rx wc c = map RxData (map hi ls)" and "answers wc = map AOk ks" and "length ks = length ls"
  shows "\<exists>ws' wc'. udp_server_loop (length ls) s junk 0 ws = (Ret (int (length ls)), ws') \<and>
    udp_client_loop c (concat (map (\<lambda>l. l @ [10]) ls)) wc = (Ret (), wc') \<and>
    writes c (trace wc') = writes c (trace wc) @ ls \<and>
    writes s (trace ws') = writes s (trace ws) @ map hi ls \<and>
    prints (trace wc') = prints (trace wc) @ concat (map (\<lambda>l. client_report l (hi l)) ls)"
proof -
  have "\<exists>wc'. udp_client_loop c (concat (map (\<lambda>l. l @ [10]) ls)) wc = (Ret (), wc') \<and>
    writes c (trace wc') = writes c (trace wc) @ ls \<and>
    prints (trace wc') = prints (trace wc) @ concat (map (\<lambda>l. client_report l (hi l)) ls)"
    using assms(1,4-6)
  proof (induction ls arbitrary: wc ks)
    case Nil
    then show ?case by (subst udp_client_loop.simps) (simp add: fgets_def)
  next
    case (Cons l ls)
    then obtain k ks' where ks: "ks = k # ks'" "length ks' = length ls" by (cases ks) auto
    have l: "0 \<notin> set l" "10 \<notin> set l" "length l \<le> 4094" "length (hi l) \<le> 4096" using Cons.prems(1) by auto
    have "rx wc c = RxData (hi l) # map RxData (map hi ls)" "answers wc = AOk k # map AOk ks'"
      using Cons.prems(2,3) ks by simp_all
    from udp_client_one[OF l this, of "concat (map (\<lambda>l. l @ [10]) ls)"] obtain v where
      v: "udp_client_loop c (l @ 10 # concat (map (\<lambda>l. l @ [10]) ls)) wc =
          udp_client_loop c (concat (map (\<lambda>l. l @ [10]) ls)) v"
        "rx v c = map RxData (map hi ls)" "answers v = map AOk ks'"
        "writes c (trace v) = writes c (trace wc) @ [l]"
        "prints (trace v) = prints (trace wc) @ client_report l (hi l)" by blast
    from Cons.IH[OF _ v(2,3) ks(2)] Cons.prems(1) v show ?case by auto
  qed
  moreover have "rx ws s = map RxData ls @ []" "\<forall>d \<in> set ls. 0 \<notin> set d \<and> length d \<le> 4091"
    using assms(1,2) by auto
  from udp_server_loop_answers[OF this assms(3), of junk 0]
  have "\<exists>ws'. udp_server_loop (length ls) s junk 0 ws = (Ret (int (length ls)), ws') \<and>
    writes s (trace ws') = writes s (trace ws) @ map hi ls" by auto
  ultimately show ?thesis by blast
qed

theorem udp_exchange_witness:
  "\<exists>ws' wc'. udp_server_loop 1 4 [] 0 \<lparr>rx = (\<lambda>_. [RxData [97]]), answers = [AOk 0], errno = 0, trace = []\<rparr> =
      (Ret 1, ws') \<and>
    udp_client_loop 5 [97, 10] \<lparr>rx = (\<lambda>_. [RxData (hi [97])]), answers = [AOk 0], errno = 0, trace = []\<rparr> =
      (Ret (), wc') \<and> prints (trace wc') = client_report [97] (hi [97])"
  using udp_exchange[of "[[97]]" "\<lparr>rx = (\<lambda>_. [RxData [97]]), answers = [AOk 0], errno = 0, trace = []\<rparr>" 4
    "\<lparr>rx = (\<lambda>_. [RxData (hi [97])]), answers = [AOk 0], errno = 0, trace = []\<rparr>" 5 "[0]" "[]"]
  by (auto simp del: udp_server_loop.simps)

subsection \<open>The connected server\<close>

lemma udp_connect_server_one:
  assumes "\<not> starts_with m (bytes ''goodbye'')" and "m = s @ 0 # t" and "0 \<notin> set s" and "length s \<le> 4091"
    and "rx w fd = RxData d # xs" and "length d \<le> 4096" and "answers w = a # as"
  shows "\<exists>junk' v. udp_connect_server_loop fd junk m c w =
      udp_connect_server_loop fd junk' (lay d m) (c + 1) v \<and> rx v fd = xs \<and> answers v = as \<and>
    writes fd (trace v) = writes fd (trace w) @ [hi s]"
proof -
  have cs: "cstring m = s" "0 \<in> set m" using assms(2,3) by simp_all
  from sprintf_hi_fits[OF assms(3), of 4096 junk] assms(4) obtain sl where
    sl: "sprintf_hi 4096 s junk = Ret sl" "cstring sl = hi s" by auto
  from sys_sendto_result[OF assms(7), of fd "hi s"] obtain r v where
    v: "sys_sendto fd (hi s) w = (Ret r, v)" "answers v = as" "rx v = rx w"
    "trace v = trace w @ [EWrite fd (hi s) r]" by blast
  let ?v1 = "log_event (EPrint (send_bytes_line r)) v"
  let ?v2 = "log_event (ERead fd d) (?v1\<lparr>rx := (rx ?v1)(fd := xs)\<rparr>)"
  have "rx ?v1 fd = RxData d # xs" using assms(5) v(3) by simp
  from sys_recvfrom_data[OF this assms(6)] have
    rcv: "sys_recvfrom fd 4096 ?v1 = (Ret (int (length d), d), ?v2)" .
  have "\<not> size_t i < 0" for i using size_t_nonneg by (simp add: not_less)
  then have "udp_connect_server_loop fd junk m c w = udp_connect_server_loop fd sl (lay d m) (c + 1) ?v2"
    using assms(1) by (subst udp_connect_server_loop.simps) (simp add: cs sl v(1) rcv)
  then show ?thesis using v by (intro exI[of _ sl] exI[of _ ?v2]) simp
qed

text \<open>
  The connected server puts no NUL behind a datagram: one that is shorter than its predecessor is
  answered with the tail of the predecessor behind it, and the dialogue ends at a datagram that starts
  with \<open>goodbye\<close>.
\<close>

theorem connected_server_mixes_datagrams:
  assumes "\<forall>x \<in> {s, d @ drop (length d) s}. \<not> starts_with (x @ 0 # t) (bytes ''goodbye'')"
    and "0 \<notin> set s" and "length s \<le> 4091" and "0 \<notin> set d" and "length d \<le> length s"
    and "rx w fd = [RxData d, RxData (bytes ''goodbye'')]" and "answers w = [a1, a2]"
  shows "\<exists>w'. udp_connect_server_loop fd junk (s @ 0 # t) c w = (Ret (c + 2), w') \<and>
    writes fd (trace w') = writes fd (trace w) @ [hi s, hi (d @ drop (length d) s)]"
proof -
  let ?s2 = "d @ drop (length d) s"
  have ns: "\<not> starts_with (s @ 0 # t) (bytes ''goodbye'')" "\<not> starts_with (?s2 @ 0 # t) (bytes ''goodbye'')"
    using assms(1) by auto
  have d: "length d \<le> 4096" using assms(3,5) by simp
  from udp_connect_server_one[OF ns(1) refl assms(2,3,6) d assms(7), of junk c] obtain j1 v1 where
    1: "udp_connect_server_loop fd junk (s @ 0 # t) c w = udp_connect_server_loop fd j1 (lay d (s @ 0 # t)) (c + 1) v1"
    "rx v1 fd = [RxData (bytes ''goodbye'')]" "answers v1 = [a2]"
    "writes fd (trace v1) = writes fd (trace w) @ [hi s]" by blast
  have lay: "lay d (s @ 0 # t) = ?s2 @ 0 # t" using assms(5) by (simp add: lay_def)
  have s2: "0 \<notin> set ?s2" "length ?s2 \<le> 4091" using assms(2-5) by (auto dest: in_set_dropD)
  have gb: "length (bytes ''goodbye'') \<le> 4096" by (simp add: bytes_def)
  from udp_connect_server_one[OF ns(2) refl s2 1(2) gb 1(3), of j1 "c + 1"] obtain j2 v2 where
    2: "udp_connect_server_loop fd j1 (?s2 @ 0 # t) (c + 1) v1 =
      udp_connect_server_loop fd j2 (lay (bytes ''goodbye'') (?s2 @ 0 # t)) (c + 2) v2"
    "writes fd (trace v2) = writes fd (trace v1) @ [hi ?s2]" by (auto simp: add.assoc)
  have "udp_connect_server_loop fd j2 (lay (bytes ''goodbye'') (?s2 @ 0 # t)) (c + 2) v2 = (Ret (c + 2), v2)"
    by (subst udp_connect_server_loop.simps) (simp add: starts_with_def lay_def)
  with 1 2 lay show ?thesis by simp
qed

theorem connected_server_mixes_datagrams_witness:
  "\<exists>w'. udp_connect_server_loop 4 [] ([97, 98] @ 0 # []) 0 \<lparr>rx = (\<lambda>_. [RxData [99], RxData (bytes ''goodbye'')]),
      answers = [AOk 0, AOk 0], errno = 0, trace = []\<rparr> = (Ret 2, w') \<and>
    writes 4 (trace w') = [hi [97, 98], hi [99, 98]]"
  using connected_server_mixes_datagrams[of "[97, 98]" "[99]" "[]" "\<lparr>rx = (\<lambda>_. [RxData [99], RxData (bytes ''goodbye'')]),
      answers = [AOk 0, AOk 0], errno = 0, trace = []\<rparr>" 4 "AOk 0" "AOk 0" "[]" 0]
  by (simp add: starts_with_def bytes_def)

end
