(* ===== verification/Interactive_Clients.thy ===== *)
theory Interactive_Clients
  imports Datagram_Programs Poll_Servers
begin

text \<open>
  The clients that wait for the keyboard and a socket at once: \<^verbatim>\<open>chap-11/close_client.c\<close>, which
  closes its connection or half of it on command, and the two programs of \<^verbatim>\<open>chap-23\<close> that show what
  makes \<open>select\<close> and \<open>poll\<close> return.
\<close>

subsection \<open>\<^verbatim>\<open>chap-11/close_client.c\<close>\<close>

text \<open>
  \<open>kbd\<close> tells whether descriptor 0 is still in \<open>all_reads\<close>; the socket always is.  The socket's part of
  a turn comes first.
\<close>

definition close_client_socket :: "int \<Rightarrow> unit io" where
  "close_client_socket fd = bnd (sys_read fd 4096) (\<lambda>(n, bs).
     if n < 0 then die 1
     else if n = 0 then die 1
     else bnd (print (cstring bs)) (\<lambda>_. print [10]))"

definition close_client_line :: "int \<Rightarrow> byte list \<Rightarrow> bool io" where
  "close_client_line fd line =
     (if starts_with line (bytes ''shutdown'') then
        bnd (sys (Shutdown fd)) (\<lambda>r. if r \<noteq> 0 then die 1 else ret False)
      else if starts_with line (bytes ''close'') then
        bnd (sys (Close fd)) (\<lambda>r. if r \<noteq> 0 then die 1 else bnd (sys (Sleep 6)) (\<lambda>_. die 0))
      else bnd (of_outcome (chomp line)) (\<lambda>send_line.
        bnd (print (bytes ''now sending: '' @ send_line @ bytes '' \<newline>'')) (\<lambda>_.
        bnd (sys_write fd send_line) (\<lambda>rt.
        if size_t rt < 0 then die 1
        else bnd (print (send_bytes_line rt)) (\<lambda>_. ret True)))))"

lemma shrinks_close_client [io_intros]:
  "shrinks (close_client_socket fd)" "shrinks (close_client_line fd line)"
  unfolding close_client_socket_def close_client_line_def case_prod_beta by (intro io_intros)+

function close_client_loop :: "int \<Rightarrow> bool \<Rightarrow> byte list \<Rightarrow> world \<Rightarrow> unit outcome \<times> world" where
  "close_client_loop fd kbd inp w = bnd sys_wait (\<lambda>x w. case x of (rc, rs) \<Rightarrow>
     if rc \<le> 0 then die 1 w
     else bnd (if revents rs fd \<noteq> 0 then close_client_socket fd else ret ()) (\<lambda>_ w.
       if kbd \<and> revents rs STDIN_FILENO \<noteq> 0 then
         (case fgets 4096 inp of
            None \<Rightarrow> close_client_loop fd kbd inp w
          | Some (line, rest) \<Rightarrow> bnd (close_client_line fd line) (\<lambda>kbd w.
              close_client_loop fd kbd rest w) w)
       else close_client_loop fd kbd inp w) w) w"
  by pat_completeness auto
termination
  by (relation "measure (\<lambda>(fd, kbd, inp, w). length (answers w))")
    (auto dest!: answers_sys_wait shrinksD[OF shrinks_close_client(1)] shrinksD[OF shrinks_close_client(2)]
      split: if_splits)

declare close_client_loop.simps [simp del]

definition close_client_main :: "nat \<Rightarrow> byte list \<Rightarrow> byte list \<Rightarrow> unit io" where
  "close_client_main argc ip inp =
     (if argc \<noteq> 2 then die 1
      else bnd (sys (Socket ''AF_INET'' ''SOCK_STREAM'')) (\<lambda>fd. if fd < 0 then die 1
      else bnd (sys (Connect fd ip 8011)) (\<lambda>r. if r < 0 then die 1
      else close_client_loop fd True inp)))"

subsection \<open>\<^verbatim>\<open>chap-23\<close>: the triggers\<close>

text \<open>Both programs connect the same way, each with a copy of the function.\<close>

definition connect_tcp_server :: "byte list \<Rightarrow> int \<Rightarrow> int io" where
  "connect_tcp_server address port =
     bnd (sys (Socket ''AF_INET'' ''SOCK_STREAM'')) (\<lambda>fd. if fd < 0 then die 1
     else bnd (sys (Connect fd address port)) (\<lambda>r. if r < 0 then die 1 else ret fd))"

definition poll_trigger_connect :: "byte list \<Rightarrow> int \<Rightarrow> int io" where
  "poll_trigger_connect address port = connect_tcp_server address port"

text \<open>The keyboard's part of a turn: what is left of the input.\<close>

definition echo_keyboard :: "byte list \<Rightarrow> byte list io" where
  "echo_keyboard inp = (case fgets 4096 inp of
     None \<Rightarrow> ret inp
   | Some (buf, rest) \<Rightarrow>
       bnd (print (bytes ''keybord input: '' @ cstring buf @ bytes '' \<newline>'')) (\<lambda>_. ret rest))"

lemma shrinks_echo_keyboard: "shrinks (echo_keyboard inp)"
  unfolding echo_keyboard_def by (auto split: option.split intro!: io_intros)

definition POLLIN :: "16 word" where "POLLIN = 1"

definition report_socket :: "unit io" where
  "report_socket = bnd (print (bytes ''socket_fd can read.\<newline>'')) (\<lambda>_. bnd (sys (Sleep 1)) (\<lambda>_. ret ()))"

lemma shrinks_report_socket: "shrinks report_socket"
  unfolding report_socket_def by (intro io_intros)

function poll_trigger_loop :: "byte list \<Rightarrow> world \<Rightarrow> unit outcome \<times> world" where
  "poll_trigger_loop inp w = bnd sys_wait (\<lambda>x w. case x of (ready_num, rs) \<Rightarrow>
     if ready_num < 0 then die 1 w
     else bnd (if poll_revents rs 0 AND (POLLRDNORM OR POLLERR) \<noteq> 0 then report_socket else ret ()) (\<lambda>_ w.
       bnd (if poll_revents rs 1 AND POLLIN \<noteq> 0 then echo_keyboard inp else ret inp) (\<lambda>inp w.
         poll_trigger_loop inp w) w) w) w"
  by pat_completeness auto
termination
  by (relation "measure (\<lambda>(inp, w). length (answers w))")
    (auto dest!: answers_sys_wait shrinksD[OF shrinks_report_socket] shrinksD[OF shrinks_echo_keyboard]
      split: if_splits)

declare poll_trigger_loop.simps [simp del]

definition poll_trigger_main :: "nat \<Rightarrow> byte list \<Rightarrow> byte list \<Rightarrow> unit io" where
  "poll_trigger_main argc ip inp =
     (if argc \<noteq> 2 then die 1
      else bnd (poll_trigger_connect ip 8023) (\<lambda>_. poll_trigger_loop inp))"

text \<open>
  \<open>select_trigger.c\<close> passes \<open>read_fds\<close> itself to \<open>select\<close>, which leaves in it only what is ready; the
  keyboard is looked up in the copy made before.  \<open>sock\<close> and \<open>kbd\<close> tell what \<open>read_fds\<close> holds.
\<close>

function select_trigger_loop ::
  "int \<Rightarrow> bool \<Rightarrow> bool \<Rightarrow> byte list \<Rightarrow> world \<Rightarrow> unit outcome \<times> world" where
  "select_trigger_loop fd sock kbd inp w = bnd sys_wait (\<lambda>x w. case x of (r, rs) \<Rightarrow>
     if r < 0 then die 1 w
     else let mask_kbd = kbd; sock = (sock \<and> revents rs fd \<noteq> 0);
              kbd = (kbd \<and> revents rs STDIN_FILENO \<noteq> 0) in
       bnd (if sock then print (bytes ''socket_fd can read. \<newline>'') else ret ()) (\<lambda>_ w.
       bnd (if mask_kbd then echo_keyboard inp else ret inp) (\<lambda>inp w.
         select_trigger_loop fd sock kbd inp w) w) w) w"
  by pat_completeness auto
termination
  by (relation "measure (\<lambda>(fd, sock, kbd, inp, w). length (answers w))")
    (auto dest!: answers_sys_wait shrinksD[OF shrinks_echo_keyboard] split: if_splits)

declare select_trigger_loop.simps [simp del]

definition select_trigger_main :: "nat \<Rightarrow> byte list \<Rightarrow> byte list \<Rightarrow> unit io" where
  "select_trigger_main argc ip inp =
     (if argc \<noteq> 2 then die 1
      else bnd (connect_tcp_server ip 8023) (\<lambda>fd. select_trigger_loop fd True True inp))"

subsection \<open>The client that has closed its half\<close>

text \<open>
  A turn when the keyboard is not watched any more: whatever \<open>select\<close> says of it, the turn depends on the
  socket alone.
\<close>

lemma close_client_idle:
  assumes "answers w = AReady rs # as" and "rs \<noteq> []" and "revents rs fd = 0"
  shows "close_client_loop fd False inp w = close_client_loop fd False inp (w\<lparr>answers := as\<rparr>)"
  using assms by (subst close_client_loop.simps) (simp add: sys_wait_def)

lemma close_client_segment:
  assumes "rx w fd = RxData seg # xs" and "seg \<noteq> []" and "length seg \<le> 4096"
    and "answers w = AReady rs # as" and "rs \<noteq> []" and "revents rs fd \<noteq> 0"
  shows "\<exists>v. (\<forall>inp. close_client_loop fd False inp w = close_client_loop fd False inp v) \<and> rx v fd = xs \<and>
    answers v = as \<and> set (trace w) \<subseteq> set (trace v) \<and> writes fd (trace v) = writes fd (trace w) \<and>
    prints (trace v) = prints (trace w) @ [cstring seg, [10]]"
proof -
  let ?w1 = "w\<lparr>answers := as\<rparr>"
  let ?w2 = "log_event (ERead fd seg) (?w1\<lparr>rx := (rx ?w1)(fd := xs)\<rparr>)"
  have rd: "sys_read fd 4096 ?w1 = (Ret (int (length seg), seg), ?w2)"
    using assms(1-3) by (intro sys_read_segment) simp_all
  let ?w3 = "log_event (EPrint [10]) (log_event (EPrint (cstring seg)) ?w2)"
  have "close_client_loop fd False inp w = close_client_loop fd False inp ?w3" for inp
    using assms(2,4-6) by (subst close_client_loop.simps)
      (simp add: sys_wait_def close_client_socket_def rd)
  then show ?thesis by (intro exI[of _ ?w3]) auto
qed

lemma close_client_terminated:
  assumes "rx w fd = RxEof # xs" and "answers w = AReady rs # as" and "rs \<noteq> []" and "revents rs fd \<noteq> 0"
  shows "\<exists>w'. (\<forall>inp. close_client_loop fd False inp w = (Exit 1, w')) \<and> set (trace w) \<subseteq> set (trace w') \<and>
    writes fd (trace w') = writes fd (trace w) \<and> prints (trace w') = prints (trace w)"
proof -
  let ?w1 = "w\<lparr>answers := as\<rparr>"
  have "rx ?w1 fd = RxEof # xs" using assms(1) by simp
  note rd = sys_read_eof[OF this, of 4096]
  have "close_client_loop fd False inp w = (Exit 1, snd (sys_read fd 4096 ?w1))" for inp
    using assms(2-4) by (subst close_client_loop.simps) (simp add: sys_wait_def close_client_socket_def rd)
  then show ?thesis by (intro exI[of _ "snd (sys_read fd 4096 ?w1)"]) (auto simp: rd)
qed

lemma close_client_half_closed:
  assumes "rx w fd = map RxData segs @ [RxEof]" and "\<forall>seg \<in> set segs. seg \<noteq> [] \<and> length seg \<le> 4096"
    and "answers w = map AReady rss @ as" and "[] \<notin> set rss"
    and "length segs < length (filter (\<lambda>rs. revents rs fd \<noteq> 0) rss)"
  shows "\<exists>w'. (\<forall>inp. close_client_loop fd False inp w = (Exit 1, w')) \<and>
    set (trace w) \<subseteq> set (trace w') \<and> writes fd (trace w') = writes fd (trace w) \<and>
    prints (trace w') = prints (trace w) @ concat (map (\<lambda>seg. [cstring seg, [10]]) segs)"
  using assms
proof (induction rss arbitrary: segs w)
  case Nil
  then show ?case by simp
next
  case (Cons rs rss)
  have ans: "answers w = AReady rs # (map AReady rss @ as)" and ne: "rs \<noteq> []" using Cons.prems(3,4) by auto
  consider (idle) "revents rs fd = 0" | (eof) "revents rs fd \<noteq> 0" "segs = []"
    | (data) seg segs' where "revents rs fd \<noteq> 0" "segs = seg # segs'" by (cases segs) auto
  then show ?case
  proof cases
    case idle
    with Cons.IH[of "w\<lparr>answers := map AReady rss @ as\<rparr>" segs] Cons.prems close_client_idle[OF ans ne] show ?thesis by simp
  next
    case eof
    with close_client_terminated[OF _ ans ne, of fd "[]"] Cons.prems(1) show ?thesis by simp
  next
    case data
    have "rx w fd = RxData seg # (map RxData segs' @ [RxEof])" "seg \<noteq> []" "length seg \<le> 4096"
      using Cons.prems(1,2) data by auto
    from close_client_segment[OF this ans ne data(1)] obtain v where v:
      "\<And>inp. close_client_loop fd False inp w = close_client_loop fd False inp v" "rx v fd = map RxData segs' @ [RxEof]"
      "answers v = map AReady rss @ as" "set (trace w) \<subseteq> set (trace v)" "writes fd (trace v) = writes fd (trace w)"
      "prints (trace v) = prints (trace w) @ [cstring seg, [10]]" by blast
    have "\<forall>seg \<in> set segs'. seg \<noteq> [] \<and> length seg \<le> 4096" "[] \<notin> set rss"
      "length segs' < length (filter (\<lambda>rs. revents rs fd \<noteq> 0) rss)" using Cons.prems(2,4,5) data by auto
    from Cons.IH[OF v(2) this(1) v(3) this(2,3)] v(1,4-6) data(2) show ?thesis by auto
  qed
qed

text \<open>
  C27.  After \<open>shutdown\<close> only the sending half is closed.  Whatever is typed from then on, and however
  often \<open>select\<close> would report the keyboard, the client reads no further line and writes nothing: its run
  does not depend on the rest \<open>inp\<close> of the input.  It still prints every segment the server sends, up to
  a NUL in it, and ends with status 1 when the server closes.
\<close>

theorem shutdown_keeps_receiving:
  assumes "fd \<noteq> STDIN_FILENO"
    and "rx w fd = map RxData segs @ [RxEof]" and "\<forall>seg \<in> set segs. seg \<noteq> [] \<and> length seg \<le> 4096"
    and "answers w = AReady [(STDIN_FILENO, 1)] # AOk 0 # map AReady rss @ as" and "[] \<notin> set rss"
    and "length segs < length (filter (\<lambda>rs. revents rs fd \<noteq> 0) rss)"
  shows "\<exists>w'. (\<forall>inp. close_client_loop fd True (bytes ''shutdown'' @ 10 # inp) w = (Exit 1, w')) \<and>
    ESys (Shutdown fd) 0 \<in> set (trace w') \<and> writes fd (trace w') = writes fd (trace w) \<and>
    prints (trace w') = prints (trace w) @ concat (map (\<lambda>seg. [cstring seg, [10]]) segs)"
proof -
  let ?as = "map AReady rss @ as"
  let ?w2 = "log_event (ESys (Shutdown fd) 0) (w\<lparr>answers := ?as\<rparr>)"
  have line: "fgets 4096 (bytes ''shutdown'' @ 10 # inp) = Some (bytes ''shutdown'' @ [10], inp)" for inp
    by (rule fgets_line) (simp_all add: bytes_def)
  have "close_client_loop fd True (bytes ''shutdown'' @ 10 # inp) w = close_client_loop fd False inp ?w2" for inp
    using assms(1,4) by (subst close_client_loop.simps)
      (simp add: sys_wait_def revents_def line close_client_line_def starts_with_def sys_def)
  moreover have "rx ?w2 fd = map RxData segs @ [RxEof]" "answers ?w2 = ?as" using assms(2) by simp_all
  from close_client_half_closed[OF this(1) assms(3) this(2) assms(5,6)] obtain w' where
    "\<And>inp. close_client_loop fd False inp ?w2 = (Exit 1, w')" "set (trace ?w2) \<subseteq> set (trace w')"
    "writes fd (trace w') = writes fd (trace ?w2)"
    "prints (trace w') = prints (trace ?w2) @ concat (map (\<lambda>seg. [cstring seg, [10]]) segs)" by blast
  ultimately show ?thesis by auto
qed

text \<open>The user types two more lines, which stay unread.\<close>

theorem shutdown_keeps_receiving_witness:
  "\<exists>w'. close_client_loop 4 True (bytes ''shutdown'' @ 10 # [72, 10, 73, 10]) \<lparr>rx = (\<lambda>_. [RxData [72, 105], RxEof]),
      answers = [AReady [(0, 1)], AOk 0, AReady [(0, 1)], AReady [(0, 1), (4, 1)], AReady [(4, 1)]], errno = 0,
      trace = []\<rparr> = (Exit 1, w') \<and>
    prints (trace w') = [[72, 105], [10]] \<and> writes 4 (trace w') = []"
proof -
  let ?w = "\<lparr>rx = (\<lambda>_. [RxData [72, 105], RxEof]), answers = [AReady [(0, 1)], AOk 0, AReady [(0, 1)],
    AReady [(0, 1), (4, 1)], AReady [(4, 1)]], errno = 0, trace = []\<rparr>"
  from shutdown_keeps_receiving[of 4 ?w "[[72, 105]]" "[[(0, 1)], [(0, 1), (4, 1)], [(4, 1)]]" "[]"]
  show ?thesis by (auto simp: STDIN_FILENO_def cstring_def revents_def)
qed

subsection \<open>The trigger that forgets\<close>

lemma keyboard_line:
  obtains rest w' where "echo_keyboard inp w = (Ret rest, w')" "answers w' = answers w"
    "\<exists>es. prints (trace w') = prints (trace w) @ es \<and> bytes ''socket_fd can read. \<newline>'' \<notin> set es"
proof (cases "fgets 4096 inp")
  case None
  then show ?thesis using that[of inp w] by (simp add: echo_keyboard_def)
next
  case (Some p)
  obtain l rest where p: "p = (l, rest)" by (cases p)
  let ?s = "bytes ''keybord input: '' @ cstring l @ bytes '' \<newline>''"
  have "?s \<noteq> bytes ''socket_fd can read. \<newline>''" by (simp add: bytes_def)
  then show ?thesis using that[of rest "log_event (EPrint ?s) w"] Some p
    by (simp add: echo_keyboard_def)
qed

lemma unwatched_socket:
  "\<exists>es. prints (trace (snd (select_trigger_loop fd False kbd inp w))) = prints (trace w) @ es \<and>
    bytes ''socket_fd can read. \<newline>'' \<notin> set es"
proof (induction fd "False" kbd inp w rule: select_trigger_loop.induct)
  case (1 fd kbd inp w)
  let ?P = "\<lambda>w w'. \<exists>es. prints (trace w') = prints (trace w) @ es \<and>
    bytes ''socket_fd can read. \<newline>'' \<notin> set es"
  obtain o1 w1 where wt: "sys_wait w = (o1, w1)" by (cases "sys_wait w")
  have tr: "trace w1 = trace w" using wt by (auto simp: sys_wait_def split: list.splits answer.splits)
  show ?case
  proof (cases o1)
    case (Ret x)
    obtain r rs where x: "x = (r, rs)" by (cases x)
    show ?thesis
    proof (cases "r < 0")
      case True
      then show ?thesis using wt Ret x tr by (subst select_trigger_loop.simps) simp
    next
      case False
      let ?k = "kbd \<and> revents rs STDIN_FILENO \<noteq> 0"
      obtain inp2 w2 where e: "(if kbd then echo_keyboard inp else ret inp) w1 = (Ret inp2, w2)"
        and P12: "?P w1 w2" by (rule keyboard_line[of inp w1], cases kbd) auto
      have "select_trigger_loop fd False kbd inp w = select_trigger_loop fd False ?k inp2 w2"
        using wt Ret x False e by (subst select_trigger_loop.simps) simp
      moreover have "?P w2 (snd (select_trigger_loop fd False ?k inp2 w2))"
        using "1"[OF wt[unfolded Ret x] refl False refl _ refl _ e, of "()"] by simp
      ultimately show ?thesis using P12 tr by fastforce
    qed
  qed (use wt tr in \<open>subst select_trigger_loop.simps, simp\<close>)+
qed

text \<open>One turn of the loop in which \<open>select\<close> succeeds.\<close>

lemma select_trigger_turn:
  assumes "answers w = AReady rs # as"
  shows "\<exists>kbd' inp' v es. select_trigger_loop fd True kbd inp w =
      select_trigger_loop fd (revents rs fd \<noteq> 0) kbd' inp' v \<and> answers v = as \<and>
    prints (trace v) = prints (trace w) @ (if revents rs fd \<noteq> 0 then [bytes ''socket_fd can read. \<newline>''] else []) @ es \<and>
    bytes ''socket_fd can read. \<newline>'' \<notin> set es"
proof -
  let ?k = "kbd \<and> revents rs STDIN_FILENO \<noteq> 0" and ?m = "bytes ''socket_fd can read. \<newline>''"
  let ?w1 = "w\<lparr>answers := as\<rparr>"
  define w2 where "w2 = (if revents rs fd \<noteq> 0 then log_event (EPrint ?m) ?w1 else ?w1)"
  obtain inp' v where e: "(if kbd then echo_keyboard inp else ret inp) w2 = (Ret inp', v)"
    and es: "\<exists>es. prints (trace v) = prints (trace w2) @ es \<and> ?m \<notin> set es" and a: "answers v = answers w2"
    by (rule keyboard_line[of inp w2], cases kbd) auto
  have "select_trigger_loop fd True kbd inp w = select_trigger_loop fd (revents rs fd \<noteq> 0) ?k inp' v"
  proof (cases "revents rs fd = 0")
    case True
    with e have "(if kbd then echo_keyboard inp else ret inp) ?w1 = (Ret inp', v)" by (simp add: w2_def)
    then show ?thesis using assms True by (subst select_trigger_loop.simps) (simp add: sys_wait_def)
  next
    case False
    with e have "(if kbd then echo_keyboard inp else ret inp) (log_event (EPrint ?m) ?w1) = (Ret inp', v)"
      by (simp add: w2_def)
    then show ?thesis using assms False by (subst select_trigger_loop.simps) (simp add: sys_wait_def)
  qed
  with es a show ?thesis
    by (intro exI[of _ ?k] exI[of _ inp'] exI[of _ v]) (auto simp: w2_def)
qed

text \<open>
  C36.  \<open>select_trigger.c\<close> reports the socket as long as every \<open>select\<close> reports it, and never again after
  the first one that does not: that call clears the socket in \<open>read_fds\<close>, and nobody sets it again.
  However many later answers \<open>as\<close> would report the socket, it is printed once for each of the answers
  \<open>rss\<close> before that call.
\<close>

theorem select_trigger_forgets:
  assumes "answers w = map AReady rss @ AReady rs # as" and "\<forall>r \<in> set rss. revents r fd \<noteq> 0" and "revents rs fd = 0"
  shows "\<exists>es. prints (trace (snd (select_trigger_loop fd True kbd inp w))) = prints (trace w) @ es \<and>
    count_list es (bytes ''socket_fd can read. \<newline>'') = length rss"
  using assms
proof (induction rss arbitrary: kbd inp w)
  case Nil
  from Nil.prems(1) have "answers w = AReady rs # as" by simp
  from select_trigger_turn[OF this, of fd kbd inp] Nil.prems(3) obtain kbd' inp' v es where t:
    "select_trigger_loop fd True kbd inp w = select_trigger_loop fd False kbd' inp' v"
    "prints (trace v) = prints (trace w) @ es" "bytes ''socket_fd can read. \<newline>'' \<notin> set es" by auto
  with unwatched_socket[of fd kbd' inp' v] show ?case by (auto simp: count_list_0_iff)
next
  case (Cons r rss)
  from Cons.prems(1) have "answers w = AReady r # (map AReady rss @ AReady rs # as)" by simp
  from select_trigger_turn[OF this, of fd kbd inp] Cons.prems(2) obtain kbd' inp' v es where t:
    "select_trigger_loop fd True kbd inp w = select_trigger_loop fd True kbd' inp' v"
    "answers v = map AReady rss @ AReady rs # as"
    "prints (trace v) = prints (trace w) @ bytes ''socket_fd can read. \<newline>'' # es"
    "bytes ''socket_fd can read. \<newline>'' \<notin> set es" by auto
  from Cons.IH[OF t(2) _ Cons.prems(3), of kbd' inp'] Cons.prems(2) obtain fs where
    "prints (trace (snd (select_trigger_loop fd True kbd' inp' v))) = prints (trace v) @ fs"
    "count_list fs (bytes ''socket_fd can read. \<newline>'') = length rss" by auto
  with t show ?case
    by (intro exI[of _ "bytes ''socket_fd can read. \<newline>'' # es @ fs"]) (simp add: count_list_0_iff)
qed

text \<open>The socket is ready in all calls but the second one.\<close>

theorem select_trigger_forgets_witness:
  "\<exists>es. prints (trace (snd (select_trigger_loop 4 True True [] \<lparr>rx = (\<lambda>_. []), answers = [AReady [(4, 1)],
      AReady [(0, 1)], AReady [(4, 1)], AReady [(4, 1)]], errno = 0, trace = []\<rparr>))) = es \<and>
    count_list es (bytes ''socket_fd can read. \<newline>'') = 1"
  using select_trigger_forgets[of "\<lparr>rx = (\<lambda>_. []), answers = [AReady [(4, 1)], AReady [(0, 1)],
    AReady [(4, 1)], AReady [(4, 1)]], errno = 0, trace = []\<rparr>" "[[(4, 1)]]" "[(0, 1)]" "[AReady [(4, 1)], AReady [(4, 1)]]" 4 True "[]"]
  by (simp add: revents_def)

end
