(* ===== verification/Spec2Isabelle.thy ===== *)
theory Spec2Isabelle
  imports Dict_Small Framing Pool_Liveness Echo_Safety Event_Dispatcher
    Keep_Alive Http_Server Telnet Thread_Races Interactive_Clients
begin

text \<open>
  \<^bold>\<open>A verification library for the network programs of the repository.\<close>

  The repository holds small client and server programs in C, one directory \<^verbatim>\<open>src/chap-N\<close> per
  chapter, the homework program \<^verbatim>\<open>src/mid-homework\<close>, and a library \<^verbatim>\<open>src/lib\<close> with a hash table, an
  exact \<open>read\<close> and an event loop.  The programs share no state: each is a process that talks to the
  kernel.  The library's parts are called by the programs (\<open>readn\<close>, the hash table) or by each other
  (event loop, channel table, dispatchers).

  \<^bold>\<open>How code becomes definitions.\<close>  A structure is a \<^theory_text>\<open>record\<close> with the fields of the code; a machine
  integer whose width matters is a word, any other \<open>int\<close> an integer.  \<open>Net_Prelude\<close> has the bytes, C
  strings and pointers and the \<open>outcome\<close> of a C function: a result, the end of the process with a
  status, a call that blocks for ever, or a fault (undefined behaviour: an access outside of an array,
  a null or dangling pointer).  \<open>Posix\<close> is the kernel as a program sees it: the \<open>world\<close> holds, for
  every descriptor, what reading it will bring, the answers to all other calls, \<open>errno\<close> and the trace
  of what the process did.  Both scripts are arbitrary, so a theorem over all worlds covers every
  behaviour of peers and kernel: segmentation, short writes, interruptions, errors, closed
  connections.  Programs are actions on the world (type \<open>io\<close>), composed with \<open>bnd\<close> as the statements
  of the code are.  Memory the code does not initialise is an argument called \<open>junk\<close>.

  \<^bold>\<open>The theories and what they model.\<close>
  \<^item> \<open>Dict\<close>, \<^verbatim>\<open>lib/dict.c\<close>: every operation on an explicit heap of entries; \<open>None\<close> is undefined
    behaviour or divergence.  \<open>Dict_Refinement\<close> has the invariant of the two tables and the
    simulation of an abstract map by every operation, \<open>Dict_Store\<close> the interface \<open>kv_store\<close>, its
    interpretation and the defects during a rehash, \<open>Dict_Delete\<close> the functional behaviour of deletion.
    \<open>Dict_Small\<close> has the interface \<open>kv_bounded\<close>, which adds deletion: the table provides it as long as
    every call of \<open>dictAdd\<close>, also one that fails, finds fewer than four entries, because it then never
    rehashes; a fifth such call is shown to break it.
  \<^item> \<open>Common_IO\<close>, \<^verbatim>\<open>lib/common.h\<close>: \<open>readn\<close>, byte order, \<open>fgets\<close>.  \<open>Framing\<close>, \<^verbatim>\<open>chap-16\<close>: the
    length-prefixed messages of client and server.
  \<^item> \<open>Blocking_Queue\<close> and \<open>Thread_Pool\<close>, \<^verbatim>\<open>chap-26/blocking_io_threadpool_server.c\<close>: the ring buffer
    with the interface \<open>bounded_fifo\<close>, and the step relation of any number of threads inside push and
    pop, at the granularity of the mutex and of the two condition variables.  \<open>Pool_Server\<close>: the whole
    program, the accept loop and the workers around the queue, as one step relation; \<open>Pool_Liveness\<close>:
    a variant and an invariant by which it comes to rest, and what holds then.
  \<^item> \<open>Echo_Servers\<close>, \<^verbatim>\<open>chap-25\<close> and \<^verbatim>\<open>chap-26\<close>: set-up of a listening socket, ROT13, one blocking loop
    per connection, the forking accept loop with its \<open>SIGCHLD\<close> handler.  The interface \<open>echo_service\<close>
    is what a function that owns a connection does for its client; worker and child are its instances.
  \<^item> \<open>Select_Server\<close>, \<^verbatim>\<open>chap-22\<close>: the per-client buffers, the two handlers and the \<open>select\<close> loop;
    \<open>Select_Safety\<close>: the invariant of its array.
  \<^item> \<open>Poll_Servers\<close>, \<^verbatim>\<open>chap-21\<close> and \<^verbatim>\<open>chap-23\<close>: the \<open>poll\<close> and the \<open>epoll\<close> server.
    \<open>Echo_Safety\<close>: what all these servers promise their clients.
  \<^item> \<open>Event_Loop\<close>, \<^verbatim>\<open>lib/channel*\<close>, \<^verbatim>\<open>lib/event_loop.c\<close>, \<^verbatim>\<open>lib/acceptor.c\<close>: the growing table of
    channels and the call of the callbacks.  \<open>Dispatchers\<close>: \<^verbatim>\<open>lib/poll_dispatcher.c\<close> and
    \<^verbatim>\<open>lib/epoll_dispatcher.c\<close>.  \<open>Event_Dispatcher\<close>, \<^verbatim>\<open>lib/event_dispatcher.h\<close>: the table of operations,
    both its values, and the contract \<open>dispatcher_contract\<close> they share.
  \<^item> \<open>Keep_Alive\<close>, \<^verbatim>\<open>chap-12\<close>: the probing client and its server; the client as a failure detector, which
    finds a silent server and accuses no other.  \<open>Telnet\<close>, \<^verbatim>\<open>mid-homework\<close>: the
    remote shell and its client.  \<open>Http_Server\<close>, \<^verbatim>\<open>chap-16/tcp_http_server.c\<close>: lines, the request
    line, the accept loop; it stores into the hash table of \<open>Dict\<close>.
  \<^item> \<open>Thread_Races\<close>, \<^verbatim>\<open>chap-26\<close>: the thread server and the counter test, as interleavings.
  \<^item> \<open>Simple_Programs\<close>, \<^verbatim>\<open>chap-4, 5, 7, 11, 13, 15\<close>: the stream programs of the first chapters.
    \<open>Datagram_Programs\<close>, \<^verbatim>\<open>chap-6\<close> and \<^verbatim>\<open>chap-14\<close>: datagrams, with the \<open>SIGINT\<close> handlers.
    \<open>Interactive_Clients\<close>, \<^verbatim>\<open>chap-11/close_client.c\<close> and the triggers of \<^verbatim>\<open>chap-23\<close>: clients that wait
    for keyboard and socket at once.

  \<^bold>\<open>What the lemmas show.\<close>  Refinement: sequences of hash table calls behave like a finite map.
  Invariants over all interleavings: the queue is a bounded FIFO, no wake-up is lost, it never gets
  stuck, and the pool server loses no connection and serves none twice.  Liveness: left alone, the pool
  server comes to rest within a bound that is stated; then an error of one connection has ended the
  process, or every worker waits for its client, or all is served but what waits for its client.  Safety
  in every world: the \<open>select\<close> server keeps its array, unless \<open>malloc\<close> has failed or a descriptor is 128,
  and an echo server that is alone on its connection never sends what it has not received.  Equivalence:
  worker and child, but for the final \<open>close\<close>.  Functional behaviour up to segmentation: \<open>readn\<close>, the
  framing round trip, the echo servers, the lines of the HTTP server, the block counter, partial sends,
  the datagram exchange.  Bounds: every access to a fixed array either stays inside or the exact inputs
  that leave it are stated; the counters of racing threads have exact bounds.  Where the code does
  something else than it means to, the theorem states what it does.

  \<^bold>\<open>How the proofs work.\<close>  Predicates on actions that follow from those of their parts (\<open>keeps_rx\<close>,
  \<open>shrinks\<close>, \<open>needs\<close>, \<open>promise\<close>) are proved with the rules of the collection \<open>io_intros\<close>; \<open>ends\<close> and
  \<open>leaves\<close> are postconditions for all outcomes of an action.  Step relations have their invariants by
  rule induction.

  \<^bold>\<open>Bounds and fuel.\<close>  Loops that read or write recurse on what is left of the stream, of the input or
  of the answers, so they are total and need no fuel; the hash table's loops are partial functions, and
  the refinement proves that they return.  Only the endless accept and event loops take a number of
  turns, the number of times the kernel lets them run; one turn has no bound.  In \<open>Http_Server\<close> the
  number of header lines is bounded by an argument, and running out of it is a call that blocks.

  \<^bold>\<open>What is not modelled.\<close>  Texts on \<open>stderr\<close>, addresses of clients in log lines, clocks (of a
  timeout only the whole seconds that the program sets), and the kernel itself.  The
  handlers of \<open>SIGINT\<close> and \<open>SIGPIPE\<close>, which print a counter and end the program, are functions of
  their own; a signal arrives between two turns of a loop.  A system call that touches no descriptor of interest is an
  answer and an event of the trace.  Several threads interleave only in \<open>Thread_Pool\<close>, \<open>Pool_Server\<close> and
  \<open>Thread_Races\<close>; every other program is one process, as in the code.  The copies several files have
  of \<open>rot13_char\<close>, and the test program of \<^verbatim>\<open>lib/dict.c\<close>, which does not
  compile, are not modelled again.
\<close>

text \<open>
  C8.  Three more echo servers keep the promise of the \<open>select\<close> server as whole programs: the process
  server with its children and the \<open>epoll\<close> server send on a descriptor, at every moment and whatever
  happens, only what they have received on it, encoded, in order and nothing twice; so does the \<open>poll\<close>
  server, which does not encode.  The threaded servers are covered one thread at a time: the code by which
  a worker of the thread pool or a thread of the thread server serves a connection keeps the promise in a
  world of its own.  Nothing is said of two threads on one descriptor, which the thread server allows.
\<close>

theorem servers_echo:
  assumes "trace w = []"
  shows "echoes rot13_char (trace (snd (process_server_main k pid w))) \<and>
    echoes rot13_char (trace (snd (epoll_server_main k w))) \<and>
    echoes id (trace (snd (poll_server_main k junk w))) \<and>
    echoes rot13_char (trace (snd (serve_popped tid fd w))) \<and>
    echoes rot13_char (trace (snd (thread_run tid fd w)))"
proof -
  have start: "settled enc w" for enc using assms by (simp add: settled_def)
  have "promise rot13_char (serve_popped tid fd)"
    unfolding serve_popped_def by (intro io_intros promise_connection_loop)
  from promiseD[OF this start] promiseD[OF promise_process_server start] promiseD[OF promise_epoll_server start]
    promiseD[OF promise_poll_server start] promiseD[OF promise_connection_loop start]
  show ?thesis by (simp add: settled_def thread_run_def thread_connection_loop_def)
qed

theorem servers_echo_witness:
  "\<exists>w'. thread_run 7 5 \<lparr>rx = (\<lambda>_. [RxData [65, 66], RxEof]), answers = [AOk 1, AOk 0], errno = 0, trace = []\<rparr> =
      (Ret (), w') \<and> bytes_sent 5 (trace w') = [78] \<and> echoes rot13_char (trace w')"
proof -
  let ?w = "\<lparr>rx = (\<lambda>_. [RxData [65, 66], RxEof]), answers = [AOk 1, AOk 0], errno = 0, trace = []\<rparr>"
  from worker.session[of ?w 5 "[[65, 66]]" "[1]" "[AOk 0]" 7] obtain v where
    v: "connection_loop 7 5 ?w = bnd (print (bytes ''client closed \<newline>'')) (\<lambda>_. bnd (sys (Close 5)) (\<lambda>_. ret ())) v"
    "answers v = [AOk 0]" "bytes_sent 5 (trace v) = [78]"
    by (auto simp: MAX_LINE_def rot13_char_def)
  then have "\<exists>w'. thread_run 7 5 ?w = (Ret (), w') \<and> bytes_sent 5 (trace w') = [78]"
    by (simp add: thread_run_def thread_connection_loop_def sys_def)
  with servers_echo[of ?w 0 0 0 7 5] show ?thesis by auto
qed

end
